(* ===== verification/Prelude.thy ===== *)
theory Prelude
  imports
    Main
    "HOL-Library.Word"
    "HOL-Library.Multiset"
    "HOL-Library.Char_ord"
    "HOL-Library.List_Lexorder"
    "HOL-Library.Product_Lexorder"
begin

text \<open>
  Shared vocabulary of the perimeterd development: the named collections, and the parts
  of the Go language and standard library that the sources use all over the place:
  \<^item> \<open>sort.Search\<close> as the binary search it is (\<open>sort_search\<close>), with its
    characterisation on lists whose test is monotone;
  \<^item> \<open>sort.Slice\<close> and \<open>sort.SliceStable\<close> (\<open>sort_slice\<close>) over a Go \<open>less\<close>
    function, with the locale \<open>strict_weak\<close> that states what a \<open>less\<close> function
    owes to the sort;
  \<^item> \<open>slices.Compact\<close> (\<open>slices_compact\<close>);
  \<^item> loops that stop at the first error (\<open>map_result\<close>).
  Go strings are byte sequences compared bytewise, which is the order of
  \<open>HOL-Library.List_Lexorder\<close> over \<open>HOL-Library.Char_ord\<close> on \<^typ>\<open>string\<close>.
\<close>

unbundle bit_operations_syntax

named_theorems netip_simps \<open>conversions between netip values and natural numbers\<close>
named_theorems wf_intros \<open>preservation of well-formedness\<close>


section \<open>Binary search\<close>

function search_loop :: "(nat \<Rightarrow> bool) \<Rightarrow> nat \<Rightarrow> nat \<Rightarrow> nat" where
  "search_loop f i j =
     (if i < j
      then (let h = (i + j) div 2
            in if \<not> f h then search_loop f (Suc h) j else search_loop f i h)
      else i)"
  by pat_completeness auto
termination
  by (relation "measure (\<lambda>(f, i, j). j - i)") auto

declare search_loop.simps [simp del]

definition sort_search :: "nat \<Rightarrow> (nat \<Rightarrow> bool) \<Rightarrow> nat" where
  "sort_search n f = search_loop f 0 n"

lemma search_loop_bounds:
  "i \<le> j \<Longrightarrow> i \<le> search_loop f i j \<and> search_loop f i j \<le> j"
proof (induction f i j rule: search_loop.induct)
  case (1 f i j)
  show ?case
  proof (cases "i < j")
    case True
    let ?h = "(i + j) div 2"
    have h: "i \<le> ?h" "?h < j" using True by auto
    show ?thesis
    proof (cases "f ?h")
      case True
      with 1(2) [OF \<open>i < j\<close> refl] h
      have "i \<le> search_loop f i ?h \<and> search_loop f i ?h \<le> ?h" by simp
      then show ?thesis using True \<open>i < j\<close> h by (simp add: search_loop.simps [of f i j] Let_def)
    next
      case False
      with 1(1) [OF \<open>i < j\<close> refl] h
      have "Suc ?h \<le> search_loop f (Suc ?h) j \<and> search_loop f (Suc ?h) j \<le> j" by simp
      then show ?thesis using False \<open>i < j\<close> h by (simp add: search_loop.simps [of f i j] Let_def)
    qed
  next
    case False
    then have "search_loop f i j = i" by (simp add: search_loop.simps [of f i j])
    with 1(3) show ?thesis by simp
  qed
qed

lemma search_loop_least:
  assumes "i \<le> m" "m \<le> j" "\<forall>k<m. \<not> f k" "\<forall>k. m \<le> k \<longrightarrow> k < j \<longrightarrow> f k"
  shows "search_loop f i j = m"
  using assms
proof (induction f i j rule: search_loop.induct)
  case (1 f i j)
  show ?case
  proof (cases "i < j")
    case True
    let ?h = "(i + j) div 2"
    have h: "i \<le> ?h" "?h < j" using True by auto
    show ?thesis
    proof (cases "f ?h")
      case True
      with 1(5) have "m \<le> ?h" by (meson not_le)
      with 1(2) [OF \<open>i < j\<close> refl] True 1(3,5,6) h
      have "search_loop f i ?h = m" by simp
      then show ?thesis using True \<open>i < j\<close> by (simp add: search_loop.simps [of f i j] Let_def)
    next
      case False
      with 1(6) h have "Suc ?h \<le> m" by (meson not_less_eq_eq)
      with 1(1) [OF \<open>i < j\<close> refl] False 1(4,5,6)
      have "search_loop f (Suc ?h) j = m" by simp
      then show ?thesis using False \<open>i < j\<close> by (simp add: search_loop.simps [of f i j] Let_def)
    qed
  next
    case False
    with 1(3,4) show ?thesis by (simp add: search_loop.simps [of f i j])
  qed
qed

lemma sort_search_le: "sort_search n f \<le> n"
  using search_loop_bounds [of 0 n f] by (simp add: sort_search_def)

text \<open>
  On a list along which the test never turns from true to false, the search returns the
  length of the longest prefix of elements that fail the test. With it, slicing at a
  search result is \<^const>\<open>takeWhile\<close> and \<^const>\<open>dropWhile\<close>.
\<close>

definition upward :: "('a \<Rightarrow> bool) \<Rightarrow> 'a list \<Rightarrow> bool" where
  "upward P xs = sorted_wrt (\<lambda>x y. P x \<longrightarrow> P y) xs"

lemma upward_Nil [simp]: "upward P []"
  by (simp add: upward_def)

lemma upward_Cons [simp]: "upward P (x # xs) \<longleftrightarrow> (P x \<longrightarrow> (\<forall>y\<in>set xs. P y)) \<and> upward P xs"
  by (auto simp: upward_def)

lemma sort_search_upward:
  assumes "upward P xs"
  shows "sort_search (length xs) (\<lambda>i. P (xs ! i)) = length (takeWhile (\<lambda>x. \<not> P x) xs)"
proof -
  let ?m = "length (takeWhile (\<lambda>x. \<not> P x) xs)"
  have "\<not> P (xs ! k)" if "k < ?m" for k
    using that nth_mem [of k "takeWhile (\<lambda>x. \<not> P x) xs"] takeWhile_nth [of k "\<lambda>x. \<not> P x" xs]
    by (auto dest: set_takeWhileD)
  moreover have "P (xs ! k)" if "?m \<le> k" "k < length xs" for k
  proof -
    have m: "?m < length xs" using that by simp
    then have "P (xs ! ?m)" using nth_length_takeWhile [of "\<lambda>x. \<not> P x" xs] by blast
    then show ?thesis
      using assms that sorted_wrt_nth_less [of "\<lambda>x y. P x \<longrightarrow> P y" xs ?m k]
      by (cases "?m = k") (auto simp: upward_def)
  qed
  ultimately show ?thesis
    unfolding sort_search_def
    by (intro search_loop_least) (auto simp: length_takeWhile_le)
qed

lemma take_sort_search:
  "upward P xs \<Longrightarrow> take (sort_search (length xs) (\<lambda>i. P (xs ! i))) xs = takeWhile (\<lambda>x. \<not> P x) xs"
  by (simp add: sort_search_upward takeWhile_eq_take [symmetric])

lemma drop_sort_search:
  "upward P xs \<Longrightarrow> drop (sort_search (length xs) (\<lambda>i. P (xs ! i))) xs = dropWhile (\<lambda>x. \<not> P x) xs"
  by (simp add: sort_search_upward dropWhile_eq_drop [symmetric])

lemma takeWhile_upward:
  "upward P xs \<Longrightarrow> takeWhile (\<lambda>x. \<not> P x) xs = filter (\<lambda>x. \<not> P x) xs"
  by (induction xs) (auto simp: filter_False)

lemma dropWhile_upward:
  "upward P xs \<Longrightarrow> dropWhile (\<lambda>x. \<not> P x) xs = filter P xs"
  by (induction xs) (auto simp: filter_id_conv)


section \<open>Sorting with a Go less function\<close>

fun insert_by :: "('a \<Rightarrow> 'a \<Rightarrow> bool) \<Rightarrow> 'a \<Rightarrow> 'a list \<Rightarrow> 'a list" where
  "insert_by lt x [] = [x]"
| "insert_by lt x (y # ys) = (if lt y x then y # insert_by lt x ys else x # y # ys)"

definition sort_slice :: "('a \<Rightarrow> 'a \<Rightarrow> bool) \<Rightarrow> 'a list \<Rightarrow> 'a list" where
  "sort_slice lt xs = foldr (insert_by lt) xs []"

lemma mset_insert_by [simp]: "mset (insert_by lt x ys) = add_mset x (mset ys)"
  by (induction ys) auto

lemma mset_sort_slice [simp]: "mset (sort_slice lt xs) = mset xs"
  by (induction xs) (auto simp: sort_slice_def)

lemma set_insert_by [simp]: "set (insert_by lt x ys) = insert x (set ys)"
  by (induction ys) auto

lemma set_sort_slice [simp]: "set (sort_slice lt xs) = set xs"
  by (metis mset_sort_slice set_mset_mset)

lemma length_sort_slice [simp]: "length (sort_slice lt xs) = length xs"
  by (metis mset_sort_slice size_mset)

lemma sort_slice_Nil [simp]: "sort_slice lt [] = []"
  by (simp add: sort_slice_def)

lemma sort_slice_Cons: "sort_slice lt (x # xs) = insert_by lt x (sort_slice lt xs)"
  by (simp add: sort_slice_def)

lemma sort_slice_eq_Nil [simp]: "sort_slice lt xs = [] \<longleftrightarrow> xs = []"
  by (metis length_0_conv length_sort_slice)

lemma distinct_sort_slice [simp]: "distinct (sort_slice lt xs) = distinct xs"
  by (metis mset_sort_slice mset_eq_imp_distinct_iff)

text \<open>
  What Go's sort package asks of a \<open>less\<close> function: a strict weak order. The client's
  lemma is that the result is a rearrangement in which no later element is less than an
  earlier one.
\<close>

locale strict_weak =
  fixes lt :: "'a \<Rightarrow> 'a \<Rightarrow> bool"
  assumes less_asym: "lt x y \<Longrightarrow> \<not> lt y x"
    and less_negtrans: "\<not> lt x y \<Longrightarrow> \<not> lt y z \<Longrightarrow> \<not> lt x z"
begin

lemma sorted_insert_by:
  "sorted_wrt (\<lambda>x y. \<not> lt y x) ys \<Longrightarrow> sorted_wrt (\<lambda>x y. \<not> lt y x) (insert_by lt x ys)"
proof (induction ys)
  case Nil
  then show ?case by simp
next
  case (Cons y ys)
  show ?case
  proof (cases "lt y x")
    case True
    with Cons show ?thesis by (auto dest: less_asym)
  next
    case False
    then have "\<not> lt z x" if "z \<in> set ys" for z
      using Cons.prems that less_negtrans [of z y x] by auto
    with False Cons show ?thesis by auto
  qed
qed

lemma sorted_sort_slice: "sorted_wrt (\<lambda>x y. \<not> lt y x) (sort_slice lt xs)"
  by (induction xs) (auto simp: sort_slice_Cons intro: sorted_insert_by)

end

text \<open>
  A total order in the sense of Go: \<open>less\<close> tells distinct elements apart. Then the
  sorted sequence is determined by the elements alone, so the unspecified order of equal
  elements in \<open>sort.Slice\<close> does not matter.
\<close>

locale strict_total = strict_weak +
  assumes less_total: "\<not> lt x y \<Longrightarrow> \<not> lt y x \<Longrightarrow> x = y"
begin

lemma sorted_unique:
  assumes "sorted_wrt (\<lambda>x y. \<not> lt y x) xs" "sorted_wrt (\<lambda>x y. \<not> lt y x) ys" "mset xs = mset ys"
  shows "xs = ys"
  using assms
proof (induction xs arbitrary: ys)
  case Nil
  then show ?case by simp
next
  case (Cons x xs)
  then obtain y ys' where ys: "ys = y # ys'" by (cases ys) auto
  from Cons.prems(3) have "set (x # xs) = set ys" by (metis set_mset_mset)
  then have "x \<in> set ys" "y \<in> set (x # xs)" using ys by auto
  then have "\<not> lt x y" "\<not> lt y x"
    using Cons.prems(1,2) ys by (auto dest: less_asym)
  then have "x = y" by (rule less_total)
  with Cons ys show ?case by auto
qed

lemma sort_slice_unique: "mset xs = mset ys \<Longrightarrow> sort_slice lt xs = sort_slice lt ys"
  by (rule sorted_unique) (auto intro: sorted_sort_slice)

lemma sort_slice_id: "sorted_wrt (\<lambda>x y. \<not> lt y x) xs \<Longrightarrow> sort_slice lt xs = xs"
  by (rule sorted_unique) (auto intro: sorted_sort_slice)

lemma sort_slice_set: "set xs = set ys \<Longrightarrow> sort_slice lt (remdups xs) = sort_slice lt (remdups ys)"
  by (rule sort_slice_unique, rule iffD1 [OF set_eq_iff_mset_eq_distinct]) simp_all

lemma sort_slice_strict:
  assumes "distinct xs"
  shows "sorted_wrt lt (sort_slice lt xs)"
proof -
  have d: "distinct (sort_slice lt xs)" using assms by simp
  show ?thesis
    unfolding sorted_wrt_iff_nth_less
  proof (intro allI impI)
    fix i j assume ij: "i < j" "j < length (sort_slice lt xs)"
    have "\<not> lt (sort_slice lt xs ! j) (sort_slice lt xs ! i)"
      using sorted_sort_slice [of xs] ij by (auto simp: sorted_wrt_iff_nth_less)
    moreover have "sort_slice lt xs ! i \<noteq> sort_slice lt xs ! j"
      using ij d by (simp add: nth_eq_iff_index_eq)
    ultimately show "lt (sort_slice lt xs ! i) (sort_slice lt xs ! j)" using less_total by blast
  qed
qed

end

text \<open>
  Most \<open>less\<close> functions of the sources compare keys field by field; they are strict
  weak orders because the lexicographic order of the keys is linear.
\<close>

lemma strict_weak_key:
  fixes f :: "'a \<Rightarrow> 'b::linorder"
  assumes "\<And>x y. lt x y \<longleftrightarrow> f x < f y"
  shows "strict_weak lt"
  by unfold_locales (auto simp: assms)

lemma strict_total_key:
  fixes f :: "'a \<Rightarrow> 'b::linorder"
  assumes "\<And>x y. lt x y \<longleftrightarrow> f x < f y" "inj f"
  shows "strict_total lt"
  using assms by unfold_locales (auto simp: dest: injD)

interpretation string_order: strict_total "(<) :: string \<Rightarrow> string \<Rightarrow> bool"
  by unfold_locales (auto simp: not_less)


section \<open>Slices and error loops\<close>

text \<open>\<open>xs[i:j]\<close>\<close>

definition go_slice :: "'a list \<Rightarrow> nat \<Rightarrow> nat \<Rightarrow> 'a list" where
  "go_slice xs i j = take (j - i) (drop i xs)"

fun slices_compact :: "'a list \<Rightarrow> 'a list" where
  "slices_compact [] = []"
| "slices_compact [x] = [x]"
| "slices_compact (x # y # ys) =
     (if x = y then slices_compact (x # ys) else x # slices_compact (y # ys))"

lemma set_slices_compact [simp]: "set (slices_compact xs) = set xs"
  by (induction xs rule: slices_compact.induct) auto

lemma sorted_wrt_slices_compact:
  "sorted_wrt P xs \<Longrightarrow> sorted_wrt P (slices_compact xs)"
  by (induction xs rule: slices_compact.induct) (auto split: if_splits)

fun map_result :: "('a \<Rightarrow> 'e + 'b) \<Rightarrow> 'a list \<Rightarrow> 'e + 'b list" where
  "map_result f [] = Inr []"
| "map_result f (x # xs) =
     (case f x of Inl e \<Rightarrow> Inl e
      | Inr y \<Rightarrow> (case map_result f xs of Inl e \<Rightarrow> Inl e | Inr ys \<Rightarrow> Inr (y # ys)))"

lemma map_result_Inr:
  "map_result f xs = Inr ys \<longleftrightarrow> list_all2 (\<lambda>x y. f x = Inr y) xs ys"
proof (induction xs arbitrary: ys)
  case Nil
  then show ?case by auto
next
  case (Cons x xs)
  have "map_result f (x # xs) = Inr ys \<longleftrightarrow>
    (\<exists>y zs. f x = Inr y \<and> map_result f xs = Inr zs \<and> ys = y # zs)"
    by (auto split: sum.splits)
  then show ?case by (auto simp: Cons.IH list_all2_Cons1)
qed

lemma map_result_Inl: "(\<exists>e. map_result f xs = Inl e) \<longleftrightarrow> (\<exists>x\<in>set xs. \<exists>e. f x = Inl e)"
  by (induction xs) (auto split: sum.splits)

text \<open>
  \<open>v, err := f(); if err != nil { return wrap(err) }\<close>: the continuation runs on success,
  and \<open>wrap_error\<close> is the \<open>fmt.Errorf("...: %w", err)\<close> of the caller.
\<close>

fun result_bind :: "'e + 'a \<Rightarrow> ('a \<Rightarrow> 'e + 'b) \<Rightarrow> 'e + 'b" where
  "result_bind (Inl e) f = Inl e"
| "result_bind (Inr x) f = f x"

fun wrap_error :: "('e \<Rightarrow> 'f) \<Rightarrow> 'e + 'a \<Rightarrow> 'f + 'a" where
  "wrap_error w (Inl e) = Inl (w e)"
| "wrap_error w (Inr x) = Inr x"

lemma result_bind_Inr [simp]: "result_bind r f = Inr y \<longleftrightarrow> (\<exists>x. r = Inr x \<and> f x = Inr y)"
  by (cases r) auto

lemma result_bind_Inl: "result_bind r f = Inl e \<longleftrightarrow> r = Inl e \<or> (\<exists>x. r = Inr x \<and> f x = Inl e)"
  by (cases r) auto

lemma wrap_error_Inr [simp]: "wrap_error w r = Inr x \<longleftrightarrow> r = Inr x"
  by (cases r) auto

lemma wrap_error_Inl [simp]: "wrap_error w r = Inl f \<longleftrightarrow> (\<exists>e. r = Inl e \<and> f = w e)"
  by (cases r) auto

text \<open>The guard \<open>if bad { return err }\<close>.\<close>

definition guard_error :: "bool \<Rightarrow> 'e \<Rightarrow> 'e + unit" where
  "guard_error bad e = (if bad then Inl e else Inr ())"

lemma guard_error_simps [simp]:
  "guard_error b e = Inr u \<longleftrightarrow> \<not> b" "guard_error b e = Inl f \<longleftrightarrow> b \<and> f = e"
  by (auto simp: guard_error_def)

lemma list_all2_left: "list_all2 P xs ys \<Longrightarrow> x \<in> set xs \<Longrightarrow> \<exists>y\<in>set ys. P x y"
  by (induction xs ys rule: list_all2_induct) auto

lemma list_all2_right: "list_all2 P xs ys \<Longrightarrow> y \<in> set ys \<Longrightarrow> \<exists>x\<in>set xs. P x y"
  by (induction xs ys rule: list_all2_induct) auto

lemma map_result_in: "map_result f xs = Inr ys \<Longrightarrow> y \<in> set ys \<Longrightarrow> \<exists>x\<in>set xs. f x = Inr y"
  unfolding map_result_Inr by (rule list_all2_right)

lemma find_append: "find P (xs @ ys) = (case find P xs of None \<Rightarrow> find P ys | Some x \<Rightarrow> Some x)"
  by (induction xs) auto

lemma find_filter: "find P (filter Q xs) = find (\<lambda>x. Q x \<and> P x) xs"
  by (induction xs) auto

lemma find_filter_hd: "find P xs = (case filter P xs of [] \<Rightarrow> None | x # _ \<Rightarrow> Some x)"
  by (induction xs) auto

lemma sort_slice_key_unique:
  fixes f :: "'a \<Rightarrow> 'b::linorder"
  assumes "\<And>x y. lt x y \<longleftrightarrow> f x < f y" "inj_on f (set xs)" "mset xs = mset ys"
  shows "sort_slice lt xs = sort_slice lt ys"
proof -
  have weak: "strict_weak lt" by (rule strict_weak_key [OF assms(1)])
  have "sorted (map f (sort_slice lt zs))" for zs
    using strict_weak.sorted_sort_slice [OF weak, of zs] by (simp add: sorted_wrt_map assms(1) not_less)
  then have "map f (sort_slice lt xs) = map f (sort_slice lt ys)"
    by (metis assms(3) mset_map mset_sort_slice properties_for_sort)
  moreover have "set (sort_slice lt xs) \<union> set (sort_slice lt ys) = set xs"
    using assms(3) by (metis mset_sort_slice set_mset_mset sup.idem)
  ultimately show ?thesis using assms(2) by (metis map_inj_on)
qed

lemma find_key: "distinct (map f xs) \<Longrightarrow> x \<in> set xs \<Longrightarrow> find (\<lambda>y. f y = f x) xs = Some x"
  by (induction xs) auto

lemma find_SomeD: "find P xs = Some x \<Longrightarrow> x \<in> set xs \<and> P x"
  by (induction xs) (auto split: if_splits)

lemma sort_slice_key_strict:
  fixes f :: "'a \<Rightarrow> 'b::linorder"
  assumes lt: "\<And>x y. lt x y \<longleftrightarrow> f x < f y" and d: "distinct (map f xs)"
  shows "sorted_wrt (\<lambda>x y. f x < f y) (sort_slice lt xs)"
proof -
  have weak: "strict_weak lt" by (rule strict_weak_key [OF lt])
  have "sorted (map f (sort_slice lt xs))"
    using strict_weak.sorted_sort_slice [OF weak, of xs] by (simp add: sorted_wrt_map lt not_less)
  moreover have "distinct (map f (sort_slice lt xs))"
    using d by (metis mset_map mset_sort_slice mset_eq_imp_distinct_iff)
  ultimately have "sorted_wrt (<) (map f (sort_slice lt xs))" by (simp add: strict_sorted_iff)
  then show ?thesis by (simp add: sorted_wrt_map)
qed

lemma word_less_succ: "(r :: 'a::len word) \<noteq> NOT 0 \<Longrightarrow> r < r + 1"
  by (rule ccontr) (simp add: not_less inc_less_eq_triv_imp)

lemma insert_by_cong: "(\<And>y. y \<in> set ys \<Longrightarrow> lt y x = lt' y x) \<Longrightarrow> insert_by lt x ys = insert_by lt' x ys"
  by (induction ys) auto

lemma sort_slice_cong:
  "(\<And>x y. x \<in> set xs \<Longrightarrow> y \<in> set xs \<Longrightarrow> lt x y = lt' x y) \<Longrightarrow> sort_slice lt xs = sort_slice lt' xs"
proof (induction xs)
  case (Cons x xs)
  then show ?case by (simp add: sort_slice_Cons) (rule insert_by_cong, simp)
qed simp

lemma slices_compact_Cons: "\<exists>ys. slices_compact (x # xs) = x # ys"
  by (induction "x # xs" arbitrary: x xs rule: slices_compact.induct) auto

lemma slices_compact_distinct_adj: "distinct_adj (slices_compact xs)"
proof (induction xs rule: slices_compact.induct)
  case (3 x y ys)
  then show ?case using slices_compact_Cons [of y ys] by (auto simp: distinct_adj_Cons)
qed simp_all

lemma sorted_distinct_adj: "sorted_wrt (\<le>) xs \<and> distinct_adj xs \<Longrightarrow> sorted_wrt (<) (xs :: 'a::linorder list)"
proof (induction xs)
  case (Cons x xs)
  have "x < y" if y: "y \<in> set xs" for y
  proof -
    obtain z zs where z: "xs = z # zs" using y by (cases xs) auto
    then have "x < z" using Cons.prems by (auto simp: distinct_adj_Cons)
    then show ?thesis using that Cons.prems z by auto
  qed
  then show ?case using Cons by (auto simp: distinct_adj_Cons)
qed simp

lemma find_cong_set: "(\<And>x. x \<in> set xs \<Longrightarrow> P x = Q x) \<Longrightarrow> find P xs = find Q xs"
  by (induction xs) auto

text \<open>A loop that updates a state or fails, and a loop that returns the first failure of a check.\<close>

fun fold_result :: "('a \<Rightarrow> 's \<Rightarrow> 'e + 's) \<Rightarrow> 'a list \<Rightarrow> 's \<Rightarrow> 'e + 's" where
  "fold_result f [] s = Inr s"
| "fold_result f (x # xs) s = result_bind (f x s) (fold_result f xs)"

fun check_all :: "nat \<Rightarrow> (nat \<Rightarrow> 'a \<Rightarrow> 'e option) \<Rightarrow> 'a list \<Rightarrow> 'e option" where
  "check_all i f [] = None"
| "check_all i f (x # xs) = (case f i x of Some e \<Rightarrow> Some e | None \<Rightarrow> check_all (Suc i) f xs)"

section \<open>Go maps\<close>

text \<open>
  A Go map that the program ranges over is an association list: lookup is \<open>map_of\<close>, and
  the two updates keep the keys distinct. The order of the list stands for the unspecified
  iteration order.
\<close>

definition map_put :: "'k \<Rightarrow> 'v \<Rightarrow> ('k \<times> 'v) list \<Rightarrow> ('k \<times> 'v) list" where
  "map_put k v m = (k, v) # filter (\<lambda>e. fst e \<noteq> k) m"

definition map_delete :: "'k \<Rightarrow> ('k \<times> 'v) list \<Rightarrow> ('k \<times> 'v) list" where
  "map_delete k m = filter (\<lambda>e. fst e \<noteq> k) m"

definition map_keys_ok :: "('k \<times> 'v) list \<Rightarrow> bool" where
  "map_keys_ok m = distinct (map fst m)"

lemma map_of_filter_key: "map_of (filter (\<lambda>e. P (fst e)) m) k = (if P k then map_of m k else None)"
  by (induction m) auto

lemma map_of_delete: "map_of (map_delete k m) x = (if x = k then None else map_of m x)"
  using map_of_filter_key [of "\<lambda>y. y \<noteq> k" m x] by (simp add: map_delete_def)

lemma map_of_put: "map_of (map_put k v m) x = (if x = k then Some v else map_of m x)"
  using map_of_filter_key [of "\<lambda>y. y \<noteq> k" m x] by (simp add: map_put_def)

lemma map_keys_ok_filter: "map_keys_ok m \<Longrightarrow> map_keys_ok (filter P m)"
  by (simp add: map_keys_ok_def distinct_map_filter)

lemma map_keys_ok_delete: "map_keys_ok m \<Longrightarrow> map_keys_ok (map_delete k m)"
  by (simp add: map_delete_def map_keys_ok_filter)

lemma map_keys_ok_put: "map_keys_ok m \<Longrightarrow> map_keys_ok (map_put k v m)"
  by (auto simp: map_put_def map_keys_ok_def distinct_map_filter)

lemma map_keys_ok_Nil [simp]: "map_keys_ok []"
  by (simp add: map_keys_ok_def)

lemma map_of_filter_value:
  "map_keys_ok m \<Longrightarrow> map_of (filter (\<lambda>e. P (snd e)) m) k = (case map_of m k of None \<Rightarrow> None | Some v \<Rightarrow> if P v then Some v else None)"
  by (induction m) (auto simp: map_keys_ok_def map_of_eq_None_iff image_iff split: option.splits)

lemma map_of_in_set: "map_keys_ok m \<Longrightarrow> map_of m k = Some v \<longleftrightarrow> (k, v) \<in> set m"
  by (simp add: map_keys_ok_def)

lemma map_result_total: "(\<And>x. x \<in> set xs \<Longrightarrow> \<exists>y. f x = Inr y) \<Longrightarrow> \<exists>ys. map_result f xs = Inr ys"
  using map_result_Inl [of f xs] by (cases "map_result f xs") force+

lemma map_result_error: "map_result f xs = Inl e \<Longrightarrow> \<exists>x\<in>set xs. f x = Inl e"
  by (induction xs) (auto split: sum.splits)

lemma strict_sorted_distinct_key:
  fixes f :: "'a \<Rightarrow> 'b::linorder"
  shows "sorted_wrt (\<lambda>x y. f x < f y) xs \<Longrightarrow> distinct (map f xs)"
  by (induction xs) auto

lemma distinct_map_sort_slice: "distinct (map f (sort_slice lt xs)) = distinct (map f xs)"
  by (rule mset_eq_imp_distinct_iff) simp

end
