(* ===== verification/Netip.thy ===== *)
theory Netip
  imports Prelude
begin

text \<open>
  The part of Go's \<open>net/netip\<close> package that perimeterd computes with: addresses of
  both families at their machine width, prefixes with the \<open>bitsPlusOne\<close> encoding in
  which 0 marks an invalid prefix, masking, containment, the byte arrays of \<open>As4\<close>
  and \<open>As16\<close>, and the total comparison.

  The lemmas translate every operation into arithmetic on natural numbers: a masked
  prefix is the interval from \<open>plo\<close> to \<open>phi\<close>, and two such intervals of one
  family are nested or disjoint.
\<close>

section \<open>Addresses\<close>

datatype addr = NoAddr | IP4 "32 word" | IP6 "128 word" string

fun addr_IsValid :: "addr \<Rightarrow> bool" where
  "addr_IsValid NoAddr = False"
| "addr_IsValid _ = True"

fun Is4 :: "addr \<Rightarrow> bool" where
  "Is4 (IP4 _) = True"
| "Is4 _ = False"

fun Is6 :: "addr \<Rightarrow> bool" where
  "Is6 (IP6 _ _) = True"
| "Is6 _ = False"

fun Zone :: "addr \<Rightarrow> string" where
  "Zone (IP6 _ z) = z"
| "Zone _ = ''''"

fun BitLen :: "addr \<Rightarrow> nat" where
  "BitLen NoAddr = 0"
| "BitLen (IP4 _) = 32"
| "BitLen (IP6 _ _) = 128"

fun Is4In6 :: "addr \<Rightarrow> bool" where
  "Is4In6 (IP6 v _) = (drop_bit 32 v = 0xffff)"
| "Is4In6 _ = False"

fun withoutZone :: "addr \<Rightarrow> addr" where
  "withoutZone (IP6 v _) = IP6 v ''''"
| "withoutZone a = a"

fun Unmap :: "addr \<Rightarrow> addr" where
  "Unmap (IP6 v z) = (if Is4In6 (IP6 v z) then IP4 (ucast v) else IP6 v z)"
| "Unmap a = a"

fun Next :: "addr \<Rightarrow> addr" where
  "Next NoAddr = NoAddr"
| "Next (IP4 v) = (if v + 1 = 0 then NoAddr else IP4 (v + 1))"
| "Next (IP6 v z) = (if v + 1 = 0 then NoAddr else IP6 (v + 1) z)"

definition cmp :: "'a::linorder \<Rightarrow> 'a \<Rightarrow> int" where
  "cmp x y = (if x < y then -1 else if y < x then 1 else 0)"

fun addr_Compare :: "addr \<Rightarrow> addr \<Rightarrow> int" where
  "addr_Compare (IP4 v) (IP4 w) = cmp v w"
| "addr_Compare (IP6 v y) (IP6 w z) = (if v \<noteq> w then cmp v w else cmp y z)"
| "addr_Compare a b = cmp (BitLen a) (BitLen b)"

subsection \<open>Byte arrays\<close>

definition be_bytes :: "nat \<Rightarrow> 'a::len word \<Rightarrow> 8 word list" where
  "be_bytes n w = map (\<lambda>i. ucast (drop_bit (8 * (n - 1 - i)) w)) [0..<n]"

definition be_word :: "8 word list \<Rightarrow> 'a::len word" where
  "be_word bs = foldl (\<lambda>w b. push_bit 8 w OR ucast b) 0 bs"

fun As4 :: "addr \<Rightarrow> 8 word list" where
  "As4 (IP4 v) = be_bytes 4 v"
| "As4 _ = []"

fun As16 :: "addr \<Rightarrow> 8 word list" where
  "As16 NoAddr = replicate 16 0"
| "As16 (IP4 v) = be_bytes 16 (0xffff00000000 OR ucast v :: 128 word)"
| "As16 (IP6 v _) = be_bytes 16 v"

definition AddrFrom4 :: "8 word list \<Rightarrow> addr" where
  "AddrFrom4 bs = IP4 (be_word bs)"

definition AddrFrom16 :: "8 word list \<Rightarrow> addr" where
  "AddrFrom16 bs = IP6 (be_word bs) ''''"

text \<open>\<open>bytes[bit/8] |= 1 << (7 - bit%8)\<close> and \<open>bytes[bit/8] &^= 1 << (7 - bit%8)\<close>.\<close>

definition set_byte_bit :: "nat \<Rightarrow> 8 word list \<Rightarrow> 8 word list" where
  "set_byte_bit i bs = bs[i div 8 := bs ! (i div 8) OR push_bit (7 - i mod 8) 1]"

definition clear_byte_bit :: "nat \<Rightarrow> 8 word list \<Rightarrow> 8 word list" where
  "clear_byte_bit i bs = bs[i div 8 := bs ! (i div 8) AND NOT (push_bit (7 - i mod 8) 1)]"

lemma length_be_bytes [simp]: "length (be_bytes n w) = n"
  by (simp add: be_bytes_def)

lemma length_set_byte_bit [simp]: "length (set_byte_bit i bs) = length bs"
  by (simp add: set_byte_bit_def)

lemma length_clear_byte_bit [simp]: "length (clear_byte_bit i bs) = length bs"
  by (simp add: clear_byte_bit_def)

lemma be_word_snoc: "be_word (bs @ [b]) = (push_bit 8 (be_word bs) OR ucast b :: 'a::len word)"
  by (simp add: be_word_def)

lemma byte_index_aux:
  fixes n q r s t :: nat
  assumes "r < 8" "t < 8" "q < n" "s < n"
  shows "n - Suc s = q \<and> t = 7 - r \<longleftrightarrow> 8 * s + t = 8 * n - Suc (8 * q + r)"
proof
  assume a: "n - Suc s = q \<and> t = 7 - r"
  then have "n = Suc (s + q)" using assms by linarith
  then show "8 * s + t = 8 * n - Suc (8 * q + r)" using a assms(1) by simp
next
  assume a: "8 * s + t = 8 * n - Suc (8 * q + r)"
  have e: "8 * s + t + 8 * q + r + 1 = 8 * n" using a assms by linarith
  then have "n < s + q + 2" "s + q < n" using assms(1,2) by linarith+
  then have "n = Suc (s + q)" by linarith
  then show "n - Suc s = q \<and> t = 7 - r" using e by simp
qed

lemma byte_index:
  fixes n i k :: nat
  assumes "i < 8 * n" "k < 8 * n"
  shows "n - Suc (k div 8) = i div 8 \<and> k mod 8 = 7 - i mod 8 \<longleftrightarrow> k = 8 * n - Suc i"
  using byte_index_aux [of "i mod 8" "k mod 8" "i div 8" n "k div 8"] assms
  by (simp only: mult_div_mod_eq)

lemma bit_be_word:
  "bit (be_word bs :: 'a::len word) k \<longleftrightarrow>
     k < LENGTH('a) \<and> k < 8 * length bs \<and> bit (bs ! (length bs - Suc (k div 8))) (k mod 8)"
proof (induction bs arbitrary: k rule: rev_induct)
  case Nil
  then show ?case by (simp add: be_word_def)
next
  case (snoc b bs)
  have step: "bit (be_word (bs @ [b]) :: 'a word) k \<longleftrightarrow>
      k < LENGTH('a) \<and> (8 \<le> k \<and> bit (be_word bs :: 'a word) (k - 8) \<or> bit b k)"
    by (auto simp: be_word_snoc bit_or_iff bit_push_bit_iff bit_ucast_iff)
  show ?case
  proof (cases "k < 8")
    case True
    then show ?thesis by (simp add: step)
  next
    case False
    then have d: "k div 8 = Suc ((k - 8) div 8)" and m: "k mod 8 = (k - 8) mod 8"
      by (simp_all only: le_div_geq le_mod_geq not_less)
    have nb: "\<not> bit b k" using False by (auto dest: bit_imp_le_length)
    have lt: "k - 8 < 8 * length bs \<longleftrightarrow> k < 8 * length (bs @ [b])" using False by (simp add: not_less less_diff_conv2 add.commute)
    have len: "length (bs @ [b]) - Suc (k div 8) = length bs - Suc ((k - 8) div 8)"
      by (simp add: d)
    have nth: "(bs @ [b]) ! (length bs - Suc ((k - 8) div 8)) = bs ! (length bs - Suc ((k - 8) div 8))"
      if "k - 8 < 8 * length bs"
    proof -
      have "0 < length bs" using that by (cases bs) auto
      then have "length bs - Suc ((k - 8) div 8) < length bs" by (simp only: diff_less zero_less_Suc)
      then show ?thesis by (simp only: nth_append if_True)
    qed
    have "k - 8 < LENGTH('a)" if "k < LENGTH('a)" using that by (rule le_less_trans [OF diff_le_self])
    then show ?thesis
      unfolding step snoc len using lt nth m nb False by (auto simp del: length_append)
  qed
qed

lemma be_word_be_bytes:
  assumes "LENGTH('a::len) = 8 * n"
  shows "be_word (be_bytes n (w :: 'a word)) = w"
proof (rule bit_eqI)
  fix k assume "possible_bit TYPE('a word) k"
  then have k: "k < 8 * n" using assms by simp
  then have d: "k div 8 < n" by (simp add: less_mult_imp_div_less mult.commute)
  then have e: "n - Suc (n - Suc (k div 8)) = k div 8" and l: "n - Suc (k div 8) < n" by linarith+
  have "bit (be_word (be_bytes n w) :: 'a word) k \<longleftrightarrow> bit (be_bytes n w ! (n - Suc (k div 8))) (k mod 8)"
    using assms k by (simp only: bit_be_word length_be_bytes simp_thms)
  also have "be_bytes n w ! (n - Suc (k div 8)) = ucast (drop_bit (8 * (k div 8)) w)"
    using l e by (simp add: be_bytes_def)
  also have "bit (ucast (drop_bit (8 * (k div 8)) w) :: 8 word) (k mod 8) \<longleftrightarrow> bit w (8 * (k div 8) + k mod 8)"
    by (simp only: bit_ucast_iff bit_drop_bit_eq comp_def) simp
  finally show "bit (be_word (be_bytes n w) :: 'a word) k \<longleftrightarrow> bit w k"
    by (simp only: mult_div_mod_eq)
qed

lemma bit_byte_mask: "j < 8 \<Longrightarrow> bit (2 ^ m :: 8 word) j \<longleftrightarrow> j = m"
  by (auto simp: bit_exp_iff)

lemma be_word_set_byte_bit:
  assumes i: "i < 8 * length bs"
  shows "be_word (set_byte_bit i bs) = (set_bit (8 * length bs - Suc i) (be_word bs) :: 'a::len word)"
proof (rule bit_eqI)
  fix k assume "possible_bit TYPE('a word) k"
  then have ka: "k < LENGTH('a)" by simp
  show "bit (be_word (set_byte_bit i bs) :: 'a word) k
      \<longleftrightarrow> bit (set_bit (8 * length bs - Suc i) (be_word bs) :: 'a word) k"
  proof (cases "k < 8 * length bs")
    case True
    let ?j = "length bs - Suc (k div 8)"
    have jl: "?j < length bs" using True by (cases bs) auto
    have il: "i div 8 < length bs" using i by (simp add: less_mult_imp_div_less mult.commute)
    have "bit (set_byte_bit i bs ! ?j) (k mod 8) \<longleftrightarrow>
        bit (bs ! ?j) (k mod 8) \<or> (?j = i div 8 \<and> k mod 8 = 7 - i mod 8)"
      using jl il
      by (simp add: set_byte_bit_def nth_list_update bit_or_iff bit_byte_mask)
    then show ?thesis
      using True ka byte_index [OF i True]
      by (simp only: bit_be_word length_set_byte_bit bit_set_bit_iff simp_thms possible_bit_word) auto
  next
    case False
    then have "k \<noteq> 8 * length bs - Suc i" using i by linarith
    with False show ?thesis by (simp add: bit_be_word bit_set_bit_iff)
  qed
qed

lemma be_word_clear_byte_bit:
  assumes i: "i < 8 * length bs"
  shows "be_word (clear_byte_bit i bs) = (unset_bit (8 * length bs - Suc i) (be_word bs) :: 'a::len word)"
proof (rule bit_eqI)
  fix k assume "possible_bit TYPE('a word) k"
  then have ka: "k < LENGTH('a)" by simp
  show "bit (be_word (clear_byte_bit i bs) :: 'a word) k
      \<longleftrightarrow> bit (unset_bit (8 * length bs - Suc i) (be_word bs) :: 'a word) k"
  proof (cases "k < 8 * length bs")
    case True
    let ?j = "length bs - Suc (k div 8)"
    have jl: "?j < length bs" using True by (cases bs) auto
    have il: "i div 8 < length bs" using i by (simp add: less_mult_imp_div_less mult.commute)
    have "bit (clear_byte_bit i bs ! ?j) (k mod 8) \<longleftrightarrow>
        bit (bs ! ?j) (k mod 8) \<and> \<not> (?j = i div 8 \<and> k mod 8 = 7 - i mod 8)"
      using jl il
      by (simp add: clear_byte_bit_def nth_list_update bit_and_iff bit_not_iff bit_byte_mask)
    then show ?thesis
      using True ka byte_index [OF i True]
      by (simp only: bit_be_word length_clear_byte_bit bit_unset_bit_iff simp_thms possible_bit_word) auto
  next
    case False
    then show ?thesis by (simp add: bit_be_word bit_unset_bit_iff)
  qed
qed

section \<open>Prefixes\<close>

datatype prefix = Prefix (pAddr: addr) (bitsPlusOne: nat)

definition prefix_IsValid :: "prefix \<Rightarrow> bool" where
  "prefix_IsValid p = (0 < bitsPlusOne p)"

definition prefix_Bits :: "prefix \<Rightarrow> int" where
  "prefix_Bits p = int (bitsPlusOne p) - 1"

definition PrefixFrom :: "addr \<Rightarrow> int \<Rightarrow> prefix" where
  "PrefixFrom ip bits =
     Prefix (withoutZone ip)
       (if addr_IsValid ip \<and> 0 \<le> bits \<and> bits \<le> int (BitLen ip) then nat bits + 1 else 0)"

fun addr_Prefix :: "addr \<Rightarrow> int \<Rightarrow> prefix option" where
  "addr_Prefix NoAddr b = (if b < 0 then None else Some (Prefix NoAddr 0))"
| "addr_Prefix (IP4 v) b =
     (if b < 0 \<or> 32 < b then None else Some (PrefixFrom (IP4 (v AND NOT (mask (32 - nat b)))) b))"
| "addr_Prefix (IP6 v z) b =
     (if b < 0 \<or> 128 < b then None else Some (PrefixFrom (IP6 (v AND NOT (mask (128 - nat b))) '''') b))"

definition prefix_Masked :: "prefix \<Rightarrow> prefix" where
  "prefix_Masked p =
     (case addr_Prefix (pAddr p) (prefix_Bits p) of None \<Rightarrow> Prefix NoAddr 0 | Some q \<Rightarrow> q)"

fun same_prefix_bits :: "addr \<Rightarrow> addr \<Rightarrow> nat \<Rightarrow> bool" where
  "same_prefix_bits (IP4 v) (IP4 w) b = (drop_bit (32 - b) (v XOR w) = 0)"
| "same_prefix_bits (IP6 v _) (IP6 w _) b = ((v XOR w) AND NOT (mask (128 - b)) = 0)"
| "same_prefix_bits _ _ _ = False"

definition prefix_Contains :: "prefix \<Rightarrow> addr \<Rightarrow> bool" where
  "prefix_Contains p ip =
     (if \<not> prefix_IsValid p \<or> Zone ip \<noteq> '''' then False
      else if BitLen (pAddr p) = 0 \<or> BitLen ip = 0 \<or> BitLen (pAddr p) \<noteq> BitLen ip then False
      else same_prefix_bits ip (pAddr p) (bitsPlusOne p - 1))"

subsection \<open>Prefixes as intervals\<close>

fun aval :: "addr \<Rightarrow> nat" where
  "aval NoAddr = 0"
| "aval (IP4 v) = unat v"
| "aval (IP6 v _) = unat v"

definition addr_ok :: "addr \<Rightarrow> bool" where
  "addr_ok a = (addr_IsValid a \<and> Zone a = '''')"

definition plen :: "prefix \<Rightarrow> nat" where
  "plen p = bitsPlusOne p - 1"

definition pfam :: "prefix \<Rightarrow> nat" where
  "pfam p = BitLen (pAddr p)"

definition psize :: "prefix \<Rightarrow> nat" where
  "psize p = 2 ^ (pfam p - plen p)"

definition plo :: "prefix \<Rightarrow> nat" where
  "plo p = aval (pAddr p)"

definition phi :: "prefix \<Rightarrow> nat" where
  "phi p = plo p + psize p - 1"

definition pfx_ok :: "prefix \<Rightarrow> bool" where
  "pfx_ok p = (prefix_IsValid p \<and> prefix_Masked p = p)"

lemma and_not_mask_eq_diff: "(v :: 'a::len word) AND NOT (mask k) = v - take_bit k v"
proof -
  have "v AND NOT (mask k) = v AND NOT (take_bit k v)"
    by (rule bit_eqI) (auto simp: bit_and_iff bit_not_iff bit_mask_iff bit_take_bit_iff)
  also have "\<dots> = v - take_bit k v"
    by (rule disjunctive_diff [symmetric]) (simp add: bit_take_bit_iff)
  finally show ?thesis .
qed

lemma unat_and_not_mask: "unat ((v :: 'a::len word) AND NOT (mask k)) = unat v div 2 ^ k * 2 ^ k"
proof -
  have m: "unat (take_bit k v) = unat v mod 2 ^ k"
    by (simp only: unsigned_take_bit_eq) (simp add: take_bit_eq_mod)
  then have "take_bit k v \<le> v"
    by (simp add: word_le_nat_alt)
  with m have "unat (v - take_bit k v) = unat v - unat v mod 2 ^ k"
    by (simp add: unat_sub)
  then show ?thesis
    by (simp add: and_not_mask_eq_diff minus_mod_eq_div_mult)
qed

lemma drop_bit_0_iff: "drop_bit k (x :: 'a::len word) = 0 \<longleftrightarrow> unat x div 2 ^ k = 0"
  by (metis unat_drop_bit_eq drop_bit_eq_div unat_eq_zero)

lemma and_not_mask_0_iff: "(x :: 'a::len word) AND NOT (mask k) = 0 \<longleftrightarrow> unat x div 2 ^ k = 0"
proof -
  have "x AND NOT (mask k) = 0 \<longleftrightarrow> unat (x AND NOT (mask k)) = 0" by (simp only: unat_eq_zero)
  then show ?thesis by (simp add: unat_and_not_mask)
qed

lemma drop_bit_xor_0: "drop_bit k ((u :: 'a::len word) XOR v) = 0 \<longleftrightarrow> unat u div 2 ^ k = unat v div 2 ^ k"
proof -
  have "drop_bit k (u XOR v) = 0 \<longleftrightarrow> drop_bit k u = drop_bit k v"
    by (auto simp: bit_eq_iff bit_xor_iff)
  also have "\<dots> \<longleftrightarrow> unat (drop_bit k u) = unat (drop_bit k v)" by (simp add: word_unat_eq_iff)
  also have "\<dots> \<longleftrightarrow> unat u div 2 ^ k = unat v div 2 ^ k"
    by (simp only: unat_drop_bit_eq) (simp only: drop_bit_eq_div)
  finally show ?thesis .
qed

lemma and_not_mask_xor_0:
  "((u :: 'a::len word) XOR v) AND NOT (mask k) = 0 \<longleftrightarrow> unat u div 2 ^ k = unat v div 2 ^ k"
  by (simp only: and_not_mask_0_iff drop_bit_0_iff [symmetric] drop_bit_xor_0)

lemma psize_pos [simp]: "0 < psize p"
  by (simp add: psize_def)

lemma aval_less: "aval a < 2 ^ BitLen a"
proof (cases a)
  case (IP4 v)
  then show ?thesis using unsigned_less [of v, where ?'a = nat] by simp
next
  case (IP6 v z)
  then show ?thesis using unsigned_less [of v, where ?'a = nat] by simp
qed simp

lemma aval_inj: "addr_ok a \<Longrightarrow> addr_ok b \<Longrightarrow> BitLen a = BitLen b \<Longrightarrow> aval a = aval b \<Longrightarrow> a = b"
  by (cases a; cases b) (auto simp: addr_ok_def word_unat_eq_iff)

lemma div_eq_interval:
  assumes "0 < (s::nat)" "s dvd lo"
  shows "x div s = lo div s \<longleftrightarrow> lo \<le> x \<and> x \<le> lo + s - 1"
proof -
  obtain m where m: "lo = s * m" using assms(2) by (rule dvdE)
  have "x div s = m \<longleftrightarrow> s * m \<le> x \<and> x < s * m + s"
    using assms(1) dividend_less_times_div [of s x] by (auto simp: div_nat_eqI mult.commute)
  then show ?thesis using assms(1) m by auto
qed

text \<open>The shape of a masked prefix: a zone-free address aligned to the block size.\<close>

lemma pfx_ok_iff:
  "pfx_ok p \<longleftrightarrow> addr_ok (pAddr p) \<and> 0 < bitsPlusOne p \<and> plen p \<le> pfam p \<and> psize p dvd plo p"
proof (cases "bitsPlusOne p")
  case 0
  then show ?thesis by (simp add: pfx_ok_def prefix_IsValid_def)
next
  case (Suc b)
  obtain a where p: "p = Prefix a (Suc b)" using Suc by (cases p) auto
  have aligned: "v AND NOT (mask k) = v \<longleftrightarrow> 2 ^ k dvd unat v" for v :: "'a::len word" and k
  proof -
    have "v AND NOT (mask k) = v \<longleftrightarrow> unat v div 2 ^ k * 2 ^ k = unat v"
      by (simp add: word_unat_eq_iff unat_and_not_mask)
    also have "\<dots> \<longleftrightarrow> 2 ^ k dvd unat v" by (metis dvd_div_mult_self dvd_triv_right)
    finally show ?thesis .
  qed
  show ?thesis
    by (cases a)
      (auto simp: p pfx_ok_def prefix_IsValid_def prefix_Masked_def prefix_Bits_def PrefixFrom_def
        addr_ok_def plen_def pfam_def psize_def plo_def aligned)
qed

lemma pfx_okD:
  assumes "pfx_ok p"
  shows "addr_ok (pAddr p)" "addr_IsValid (pAddr p)" "Zone (pAddr p) = ''''" "0 < bitsPlusOne p"
    "plen p \<le> pfam p" "psize p dvd plo p" "prefix_IsValid p" "prefix_Bits p = int (plen p)"
    "prefix_Masked p = p" "0 < pfam p"
proof -
  show "prefix_Masked p = p" using assms by (simp add: pfx_ok_def)
  have "addr_IsValid (pAddr p)" using assms by (simp add: pfx_ok_iff addr_ok_def)
  then show "0 < pfam p" by (cases "pAddr p") (auto simp: pfam_def)
qed (use assms in \<open>auto simp: pfx_ok_iff addr_ok_def prefix_IsValid_def prefix_Bits_def plen_def\<close>)

lemma pfam_cases:
  "pfx_ok p \<Longrightarrow> pfam p = 32 \<and> Is4 (pAddr p) \<and> \<not> Is6 (pAddr p) \<or>
     pfam p = 128 \<and> Is6 (pAddr p) \<and> \<not> Is4 (pAddr p)"
  using pfx_okD(2) [of p] by (cases "pAddr p") (auto simp: pfam_def)

lemma prefix_Contains_div:
  "prefix_Contains p a \<longleftrightarrow>
     prefix_IsValid p \<and> addr_ok a \<and> BitLen a = pfam p \<and>
     aval a div psize p = aval (pAddr p) div psize p"
proof -
  have v: "addr_IsValid a \<longleftrightarrow> BitLen a \<noteq> 0" by (cases a) auto
  have "same_prefix_bits a (pAddr p) (plen p) \<longleftrightarrow> aval a div psize p = aval (pAddr p) div psize p"
    if "BitLen a = pfam p" "BitLen a \<noteq> 0"
    using that
    by (cases a; cases "pAddr p")
      (auto simp: pfam_def psize_def drop_bit_xor_0 and_not_mask_xor_0 simp del: drop_bit_xor)
  then show ?thesis
    unfolding prefix_Contains_def addr_ok_def v pfam_def plen_def by auto
qed

lemma prefix_Contains_iff:
  assumes "pfx_ok p"
  shows "prefix_Contains p a \<longleftrightarrow>
    addr_ok a \<and> BitLen a = pfam p \<and> plo p \<le> aval a \<and> aval a \<le> phi p"
  using div_eq_interval [of "psize p" "plo p" "aval a"] pfx_okD [OF assms]
  by (auto simp: prefix_Contains_div phi_def plo_def)

lemma plo_le_phi [simp]: "plo p \<le> phi p"
  using psize_pos [of p] unfolding phi_def by linarith

lemma phi_less: "pfx_ok p \<Longrightarrow> phi p < 2 ^ pfam p"
proof -
  assume p: "pfx_ok p"
  note ok = pfx_okD [OF p]
  obtain m where m: "plo p = psize p * m" using ok(6) by (rule dvdE)
  have w: "(2::nat) ^ pfam p = psize p * 2 ^ plen p"
    using ok(5) by (simp add: psize_def power_add [symmetric])
  have "plo p < 2 ^ pfam p" using aval_less by (simp add: plo_def pfam_def)
  then have "Suc m \<le> 2 ^ plen p" unfolding m w by simp
  then have "psize p * Suc m \<le> 2 ^ pfam p" unfolding w by (rule mult_le_mono2)
  then show ?thesis using psize_pos [of p] unfolding phi_def m mult_Suc_right by linarith
qed

lemma prefix_eqI:
  assumes "pfx_ok p" "pfx_ok q" "pfam p = pfam q" "plo p = plo q" "plen p = plen q"
  shows "p = q"
proof -
  have "pAddr p = pAddr q"
    using assms by (intro aval_inj) (auto simp: pfx_ok_iff plo_def pfam_def)
  moreover have "bitsPlusOne p = bitsPlusOne q"
    using assms pfx_okD(4) [of p] pfx_okD(4) [of q] by (simp add: plen_def)
  ultimately show ?thesis by (cases p; cases q) simp
qed

text \<open>Blocks of powers of two are nested or disjoint.\<close>

lemma psize_dvd: "pfam p = pfam q \<Longrightarrow> plen p \<le> plen q \<Longrightarrow> psize q dvd psize p"
  by (simp add: psize_def le_imp_power_dvd)

lemma pfx_nested:
  assumes p: "pfx_ok p" and q: "pfx_ok q" and fam: "pfam p = pfam q"
    and inside: "plo p \<le> plo q" "plo q \<le> phi p" and len: "plen p \<le> plen q"
  shows "phi q \<le> phi p"
proof -
  have "psize q dvd plo p + psize p - plo q"
    using pfx_okD(6) [OF p] pfx_okD(6) [OF q] psize_dvd [OF fam len]
    by (intro dvd_diff_nat dvd_add) (auto intro: dvd_trans)
  moreover have "0 < plo p + psize p - plo q"
    using inside psize_pos [of p] unfolding phi_def by linarith
  ultimately have "psize q \<le> plo p + psize p - plo q" "0 < plo p + psize p - plo q"
    by (auto intro: dvd_imp_le)
  then show ?thesis unfolding phi_def by linarith
qed

lemma pfx_same_start:
  assumes p: "pfx_ok p" and q: "pfx_ok q" and fam: "pfam p = pfam q"
    and inside: "plo p \<le> plo q" "plo q \<le> phi p" and len: "plen q \<le> plen p"
  shows "plo q = plo p"
proof (rule ccontr)
  assume "plo q \<noteq> plo p"
  with inside have pos: "0 < plo q - plo p" by simp
  have "psize p dvd plo q - plo p"
    using pfx_okD(6) [OF p] pfx_okD(6) [OF q] psize_dvd [OF fam [symmetric] len]
    by (intro dvd_diff_nat) (auto intro: dvd_trans)
  then have "psize p \<le> plo q - plo p" using pos by (rule dvd_imp_le)
  with inside(2) psize_pos [of p] pos show False unfolding phi_def by linarith
qed

lemma pfx_nested_less:
  assumes "pfx_ok p" "pfx_ok q" "pfam p = pfam q" "plo p < plo q" "plo q \<le> phi p"
  shows "phi q \<le> phi p" "plen p < plen q"
proof -
  show "plen p < plen q"
    using pfx_same_start [OF assms(1-3)] assms(4,5) by (metis leI less_imp_le_nat nat_neq_iff)
  then show "phi q \<le> phi p" using assms by (intro pfx_nested) auto
qed

text \<open>Masking a valid prefix gives a well-formed one that contains the same addresses.\<close>

lemma PrefixFrom_sel [simp]:
  "pAddr (PrefixFrom a b) = withoutZone a"
  "bitsPlusOne (PrefixFrom a b) = (if addr_IsValid a \<and> 0 \<le> b \<and> b \<le> int (BitLen a) then nat b + 1 else 0)"
  by (simp_all add: PrefixFrom_def)

lemma BitLen_withoutZone [simp]: "BitLen (withoutZone a) = BitLen a"
  by (cases a) auto

lemma aval_withoutZone [simp]: "aval (withoutZone a) = aval a"
  by (cases a) auto

lemma prefix_Masked_ok:
  assumes "prefix_IsValid p" "addr_IsValid (pAddr p)" "plen p \<le> pfam p"
  shows prefix_Masked_pfx_ok: "pfx_ok (prefix_Masked p)"
    and prefix_Masked_pfam: "pfam (prefix_Masked p) = pfam p"
    and prefix_Masked_plen: "plen (prefix_Masked p) = plen p"
    and prefix_Masked_plo: "plo (prefix_Masked p) = aval (pAddr p) div psize p * psize p"
proof -
  obtain a b where p: "p = Prefix a (Suc b)"
    using assms(1) by (cases p; cases "bitsPlusOne p") (auto simp: prefix_IsValid_def)
  have b: "b \<le> BitLen a" and a: "a \<noteq> NoAddr" using assms(2,3) by (auto simp: p plen_def pfam_def)
  have m: "\<exists>c. prefix_Masked p = Prefix c (Suc b) \<and> addr_ok c \<and> BitLen c = BitLen a \<and>
      aval c = aval a div 2 ^ (BitLen a - b) * 2 ^ (BitLen a - b)"
    using a b
    by (cases a) (auto simp: p prefix_Masked_def prefix_Bits_def PrefixFrom_def addr_ok_def unat_and_not_mask)
  show "pfx_ok (prefix_Masked p)" "pfam (prefix_Masked p) = pfam p"
    "plen (prefix_Masked p) = plen p"
    "plo (prefix_Masked p) = aval (pAddr p) div psize p * psize p"
    using m b by (auto simp: p pfx_ok_iff plen_def pfam_def plo_def psize_def)
qed

lemma prefix_Contains_Masked:
  assumes "prefix_IsValid p" "addr_IsValid (pAddr p)" "plen p \<le> pfam p"
  shows "prefix_Contains (prefix_Masked p) a = prefix_Contains p a"
proof -
  note m = prefix_Masked_ok [OF assms]
  have s: "psize (prefix_Masked p) = psize p" by (simp add: psize_def m)
  have "aval (pAddr (prefix_Masked p)) div psize p = aval (pAddr p) div psize p"
    using m(4) by (simp add: plo_def)
  then show ?thesis
    using assms(1) pfx_okD(7) [OF m(1)] by (simp add: prefix_Contains_div s m)
qed

text \<open>Comparison of zone-free addresses.\<close>

lemma addr_Compare_less:
  assumes "addr_ok a" "addr_ok b"
  shows "addr_Compare a b < 0 \<longleftrightarrow> BitLen a < BitLen b \<or> BitLen a = BitLen b \<and> aval a < aval b"
  using assms by (cases a; cases b) (auto simp: cmp_def addr_ok_def word_less_nat_alt)

lemma addr_Compare_greater:
  assumes "addr_ok a" "addr_ok b"
  shows "addr_Compare a b > 0 \<longleftrightarrow> BitLen b < BitLen a \<or> BitLen a = BitLen b \<and> aval b < aval a"
  using assms by (cases a; cases b) (auto simp: cmp_def addr_ok_def word_less_nat_alt)

lemma addr_Compare_eq:
  assumes "addr_ok a" "addr_ok b"
  shows "addr_Compare a b = 0 \<longleftrightarrow> a = b"
  using assms by (cases a; cases b) (auto simp: cmp_def addr_ok_def split: if_splits)

lemma addr_Compare_le:
  assumes "addr_ok a" "addr_ok b"
  shows "addr_Compare a b \<le> 0 \<longleftrightarrow> BitLen a < BitLen b \<or> BitLen a = BitLen b \<and> aval a \<le> aval b"
  using addr_Compare_greater [OF assms] by (auto simp: not_less [symmetric])

lemma addr_Compare_ge:
  assumes "addr_ok a" "addr_ok b"
  shows "0 \<le> addr_Compare a b \<longleftrightarrow> BitLen b < BitLen a \<or> BitLen a = BitLen b \<and> aval b \<le> aval a"
  using addr_Compare_less [OF assms] by (auto simp: not_less [symmetric])

lemmas addr_Compare_simps = addr_Compare_less addr_Compare_greater addr_Compare_eq
  addr_Compare_le addr_Compare_ge

subsection \<open>Setting and clearing single address bits\<close>

lemma bit_fold_set_byte_bit:
  assumes "\<forall>i\<in>set is. i < 8 * length bs"
  shows "bit (be_word (fold set_byte_bit is bs) :: 'a::len word) k \<longleftrightarrow>
    bit (be_word bs :: 'a word) k \<or> k < LENGTH('a) \<and> (\<exists>i\<in>set is. k = 8 * length bs - Suc i)"
  using assms
proof (induction "is" arbitrary: bs)
  case Nil
  then show ?case by simp
next
  case (Cons i "is")
  then have "bit (be_word (fold set_byte_bit is (set_byte_bit i bs)) :: 'a word) k \<longleftrightarrow>
      bit (be_word (set_byte_bit i bs) :: 'a word) k \<or>
      k < LENGTH('a) \<and> (\<exists>i\<in>set is. k = 8 * length bs - Suc i)"
    by simp
  moreover have "be_word (set_byte_bit i bs) = (set_bit (8 * length bs - Suc i) (be_word bs) :: 'a word)"
    using Cons.prems by (intro be_word_set_byte_bit) simp
  ultimately show ?case by (auto simp: bit_set_bit_iff)
qed

lemma be_word_fill:
  assumes "LENGTH('a::len) = 8 * n" "b \<le> 8 * n"
  shows "be_word (fold set_byte_bit [b..<8 * n] (be_bytes n w)) = (w :: 'a word) OR mask (8 * n - b)"
proof (rule bit_eqI)
  fix k assume "possible_bit TYPE('a word) k"
  then have k: "k < 8 * n" using assms by simp
  have "(\<exists>i\<in>{b..<8 * n}. k = 8 * n - Suc i) \<longleftrightarrow> k < 8 * n - b"
  proof
    assume "k < 8 * n - b"
    then have "8 * n - Suc k \<in> {b..<8 * n}" "k = 8 * n - Suc (8 * n - Suc k)" by auto
    then show "\<exists>i\<in>{b..<8 * n}. k = 8 * n - Suc i" by blast
  qed auto
  moreover have "\<forall>i\<in>set [b..<8 * n]. i < 8 * length (be_bytes n w)" by simp
  ultimately show "bit (be_word (fold set_byte_bit [b..<8 * n] (be_bytes n w)) :: 'a word) k \<longleftrightarrow>
      bit (w OR mask (8 * n - b)) k"
    using k assms(1)
    by (simp only: bit_fold_set_byte_bit be_word_be_bytes length_be_bytes set_upt bit_or_iff
        bit_mask_iff possible_bit_word simp_thms)
qed

lemma unat_mask:
  assumes "k \<le> LENGTH('a::len)"
  shows "unat (mask k :: 'a word) = 2 ^ k - 1"
proof -
  have "uint (mask k :: 'a word) = mask k" using assms by (simp only: uint_mask_eq min_absorb2)
  also have "\<dots> = int (2 ^ k - 1)" by (simp add: mask_eq_exp_minus_1 of_nat_diff)
  finally show ?thesis by (simp only: unat_eq_nat_uint nat_int)
qed

lemma unat_exp:
  assumes "j < LENGTH('a::len)"
  shows "unat (2 ^ j :: 'a word) = 2 ^ j"
proof -
  have "unat (2 ^ j :: 'a word) = unat (of_nat (2 ^ j) :: 'a word)" by simp
  also have "\<dots> = 2 ^ j mod 2 ^ LENGTH('a)" by (rule unat_of_nat)
  also have "\<dots> = 2 ^ j" using assms by (intro mod_less power_strict_increasing) auto
  finally show ?thesis .
qed

lemma unat_or_mask:
  assumes "2 ^ k dvd unat (w :: 'a::len word)" "k \<le> LENGTH('a)"
  shows "unat (w OR mask k) = unat w + 2 ^ k - 1"
proof -
  have "unat (take_bit k w) = unat w mod 2 ^ k"
    by (simp only: unsigned_take_bit_eq) (simp add: take_bit_eq_mod)
  also have "\<dots> = 0" using assms(1) by simp
  finally have "take_bit k w = 0" by (simp only: unat_eq_zero)
  then have nb: "\<not> bit w j" if "j < k" for j
    using that by (metis bit_take_bit_iff bit_0_eq bot_apply bot_bool_def)
  have add: "w OR mask k = w + mask k"
    by (rule disjunctive_add [symmetric]) (use nb in \<open>auto simp: bit_mask_iff\<close>)
  then have "w \<le> w + mask k" by (metis le_word_or2)
  then have "unat (w + mask k) = unat w + unat (mask k :: 'a word)"
    by (simp only: unat_plus_simple)
  then show ?thesis using add unat_mask [OF assms(2)] by simp
qed

lemma aligned_bit_clear:
  assumes "2 ^ Suc j dvd unat (w :: 'a::len word)"
  shows aligned_not_bit: "\<not> bit w j" and aligned_unset_bit: "unset_bit j w = w"
proof -
  have "even (unat w div 2 ^ j)"
    using assms by (metis dvd_div_iff_mult power_Suc power_not_zero zero_neq_numeral dvd_trans dvd_triv_right)
  then have "\<not> bit (unat w) j" by (simp only: bit_iff_odd not_not)
  then show nb: "\<not> bit w j" by (auto simp: bit_unsigned_iff)
  then show "unset_bit j w = w" by (intro bit_eqI) (auto simp: bit_unset_bit_iff)
qed

lemma unat_set_bit_aligned:
  assumes "2 ^ Suc j dvd unat (w :: 'a::len word)" "j < LENGTH('a)"
  shows "unat (set_bit j w) = unat w + 2 ^ j"
proof -
  note nb = aligned_bit_clear(1) [OF assms(1)]
  have s: "set_bit j w = w OR 2 ^ j" by (rule bit_eqI) (auto simp: bit_set_bit_iff bit_or_iff bit_exp_iff)
  have add: "w OR 2 ^ j = w + 2 ^ j"
    by (rule disjunctive_add [symmetric]) (auto simp: bit_exp_iff nb)
  then have "w \<le> w + 2 ^ j" by (metis le_word_or2)
  then have "unat (w + 2 ^ j) = unat w + unat (2 ^ j :: 'a word)"
    by (simp only: unat_plus_simple)
  then show ?thesis using unat_exp [OF assms(2)] s add by simp
qed

lemma be_word_halves:
  assumes "LENGTH('a::len) = 8 * n" "b < 8 * n" "2 ^ (8 * n - b) dvd unat (v :: 'a word)"
  defines "low \<equiv> clear_byte_bit b (be_bytes n v)"
  shows "be_word low = v"
    and "unat (be_word (set_byte_bit b low) :: 'a word) = unat v + 2 ^ (8 * n - Suc b)"
proof -
  have s: "8 * n - b = Suc (8 * n - Suc b)" using assms(2) by simp
  note d = assms(3) [unfolded s]
  show low: "be_word low = v"
    using assms(1,2) aligned_unset_bit [OF d]
    by (simp add: low_def be_word_clear_byte_bit be_word_be_bytes)
  have "be_word (set_byte_bit b low) = set_bit (8 * n - Suc b) v"
    using assms(2) low by (simp add: low_def be_word_set_byte_bit)
  then show "unat (be_word (set_byte_bit b low) :: 'a word) = unat v + 2 ^ (8 * n - Suc b)"
    using unat_set_bit_aligned [OF d] assms(1,2) by simp
qed

end
