(* ===== verification/Prefix_Set.thy ===== *)
theory Prefix_Set
  imports Netip
begin

text \<open>
  \<open>internal/prefix/set.go\<close>: immutable canonical sets of IP prefixes.

  The record \<open>prefix_set\<close> is the Go struct \<open>Set\<close>; every function of the file has
  a definition of the same shape, including the byte-level \<open>split\<close> and
  \<open>prefixEnd\<close>, the two index loops of \<open>processFamily\<close> and the recursion of
  \<open>subtractNode\<close>. The lemmas show that every operation keeps the representation
  invariant \<open>set_ok\<close> and computes the intended set of addresses (\<open>member\<close>). The
  locale \<open>address_sets\<close> states that contract for the clients of the package.
\<close>

section \<open>The Set type and its operations\<close>

datatype validate_error =
    Invalid_address | Scoped_address | Invalid_family | Invalid_prefix_length int

record prefix_set =
  prefixes :: "prefix list"
  v6Start :: nat

definition empty_set :: prefix_set where
  "empty_set = \<lparr>prefixes = [], v6Start = 0\<rparr>"

definition prefix_validate :: "prefix \<Rightarrow> validate_error option" where
  "prefix_validate value =
     (let addr = pAddr value; bits = prefix_Bits value; maxBits = (if Is4 addr then 32 else 128) in
      if \<not> addr_IsValid addr then Some Invalid_address
      else if Zone addr \<noteq> '''' then Some Scoped_address
      else if \<not> Is4 addr \<and> \<not> Is6 addr then Some Invalid_family
      else if bits < 0 \<or> maxBits < bits then Some (Invalid_prefix_length bits)
      else None)"

definition prefix_less :: "prefix \<Rightarrow> prefix \<Rightarrow> bool" where
  "prefix_less a b =
     (if Is4 (pAddr a) \<noteq> Is4 (pAddr b) then Is4 (pAddr a)
      else if addr_Compare (pAddr a) (pAddr b) \<noteq> 0 then addr_Compare (pAddr a) (pAddr b) < 0
      else prefix_Bits a < prefix_Bits b)"

fun canonicalize_loop :: "prefix list \<Rightarrow> prefix list \<Rightarrow> prefix list" where
  "canonicalize_loop out [] = out"
| "canonicalize_loop out (candidate # rest) =
     (if out \<noteq> [] \<and> prefix_Contains (last out) (pAddr candidate)
      then canonicalize_loop out rest
      else canonicalize_loop (out @ [candidate]) rest)"

definition canonicalize :: "prefix list \<Rightarrow> prefix list" where
  "canonicalize values = (if values = [] then [] else canonicalize_loop [] (sort_slice prefix_less values))"

definition fromCanonical :: "prefix list \<Rightarrow> prefix_set" where
  "fromCanonical values =
     (if values = [] then empty_set
      else \<lparr>prefixes = values, v6Start = sort_search (length values) (\<lambda>i. Is6 (pAddr (values ! i)))\<rparr>)"

fun normalize_loop :: "nat \<Rightarrow> prefix list \<Rightarrow> (nat \<times> validate_error) + prefix list" where
  "normalize_loop i [] = Inr []"
| "normalize_loop i (v # vs) =
     (case prefix_validate v of
        Some e \<Rightarrow> Inl (i, e)
      | None \<Rightarrow> (case normalize_loop (Suc i) vs of
                   Inl e \<Rightarrow> Inl e
                 | Inr ms \<Rightarrow> Inr (prefix_Masked v # ms)))"

definition Normalize :: "prefix list \<Rightarrow> (nat \<times> validate_error) + prefix list" where
  "Normalize values =
     (if values = [] then Inr []
      else case normalize_loop 0 values of Inl e \<Rightarrow> Inl e | Inr ms \<Rightarrow> Inr (canonicalize ms))"

definition set_New :: "prefix list \<Rightarrow> (nat \<times> validate_error) + prefix_set" where
  "set_New values = (case Normalize values of Inl e \<Rightarrow> Inl e | Inr c \<Rightarrow> Inr (fromCanonical c))"

definition set_Union :: "prefix_set list \<Rightarrow> prefix_set" where
  "set_Union sets =
     (if sets = [] then empty_set
      else if sum_list (map (\<lambda>s. length (prefixes s)) sets) = 0 then empty_set
      else fromCanonical (canonicalize (concat (map prefixes sets))))"

definition set_Contains :: "prefix_set \<Rightarrow> addr \<Rightarrow> bool" where
  "set_Contains s addr =
     (if \<not> addr_IsValid addr \<or> Zone addr \<noteq> '''' then False
      else if \<not> Is6 addr \<and> \<not> Is4 addr then False
      else
        let start = (if Is6 addr then v6Start s else 0);
            end' = (if Is6 addr then length (prefixes s) else v6Start s)
        in if end' \<le> start then False
           else
             let position = sort_search (end' - start)
                   (\<lambda>i. 0 < addr_Compare (pAddr (prefixes s ! (start + i))) addr)
             in if position = 0 then False
                else prefix_Contains (prefixes s ! (start + position - 1)) addr)"

definition set_Len :: "prefix_set \<Rightarrow> nat" where
  "set_Len s = length (prefixes s)"

definition set_Prefixes :: "prefix_set \<Rightarrow> prefix list" where
  "set_Prefixes s = prefixes s"

definition set_IPv4 :: "prefix_set \<Rightarrow> prefix_set" where
  "set_IPv4 s = \<lparr>prefixes = take (v6Start s) (prefixes s), v6Start = v6Start s\<rparr>"

definition set_IPv6 :: "prefix_set \<Rightarrow> prefix_set" where
  "set_IPv6 s = \<lparr>prefixes = drop (v6Start s) (prefixes s), v6Start = 0\<rparr>"

subsection \<open>Set difference\<close>

definition split_prefix :: "prefix \<Rightarrow> prefix \<times> prefix" where
  "split_prefix value =
     (let bits = prefix_Bits value; maxBits = (if Is4 (pAddr value) then 32 else 128) in
      if maxBits \<le> bits then (Prefix NoAddr 0, Prefix NoAddr 0)
      else if Is4 (pAddr value) then
        let low = clear_byte_bit (nat bits) (As4 (pAddr value));
            high = set_byte_bit (nat bits) low
        in (PrefixFrom (AddrFrom4 low) (bits + 1), PrefixFrom (AddrFrom4 high) (bits + 1))
      else
        let low = clear_byte_bit (nat bits) (As16 (pAddr value));
            high = set_byte_bit (nat bits) low
        in (PrefixFrom (AddrFrom16 low) (bits + 1), PrefixFrom (AddrFrom16 high) (bits + 1)))"

definition prefixEnd :: "prefix \<Rightarrow> addr" where
  "prefixEnd value =
     (let bits = nat (prefix_Bits value) in
      if Is4 (pAddr value) then AddrFrom4 (fold set_byte_bit [bits..<32] (As4 (pAddr value)))
      else AddrFrom16 (fold set_byte_bit [bits..<128] (As16 (pAddr value))))"

definition overlapRange :: "prefix \<Rightarrow> prefix list \<Rightarrow> nat \<times> nat" where
  "overlapRange node excludes =
     (sort_search (length excludes) (\<lambda>i. 0 \<le> addr_Compare (prefixEnd (excludes ! i)) (pAddr node)),
      sort_search (length excludes) (\<lambda>i. 0 < addr_Compare (pAddr (excludes ! i)) (prefixEnd node)))"

lemma split_prefix_bits:
  "prefix_IsValid (fst (split_prefix p)) \<Longrightarrow>
     bitsPlusOne (fst (split_prefix p)) = Suc (bitsPlusOne p) \<and> bitsPlusOne p \<le> 128"
  "bitsPlusOne (snd (split_prefix p)) = bitsPlusOne (fst (split_prefix p))"
  by (auto simp: split_prefix_def prefix_IsValid_def Let_def prefix_Bits_def AddrFrom4_def AddrFrom16_def
      split: if_splits)

function subtractNode :: "prefix \<Rightarrow> prefix list \<Rightarrow> prefix list \<Rightarrow> prefix list" where
  "subtractNode node excludes result =
     (let (start, end') = overlapRange node excludes in
      if start = end' then result @ [node]
      else if prefix_Bits (excludes ! start) \<le> prefix_Bits node \<and>
              prefix_Contains (excludes ! start) (pAddr node) then result
      else
        let left = fst (split_prefix node); right = snd (split_prefix node) in
        if \<not> prefix_IsValid left then result
        else subtractNode right (go_slice excludes start end')
               (subtractNode left (go_slice excludes start end') result))"
  by pat_completeness auto
termination
  by (relation "measure (\<lambda>(node, _, _). 129 - bitsPlusOne node)")
    (auto dest!: split_prefix_bits(1) simp: split_prefix_bits(2))

declare subtractNode.simps [simp del]

function skip_ended :: "prefix list \<Rightarrow> addr \<Rightarrow> nat \<Rightarrow> nat" where
  "skip_ended excludes includeStart i =
     (if i < length excludes \<and> addr_Compare (prefixEnd (excludes ! i)) includeStart < 0
      then skip_ended excludes includeStart (Suc i) else i)"
  by pat_completeness auto
termination
  by (relation "measure (\<lambda>(excludes, _, i). length excludes - i)") auto

function skip_started :: "prefix list \<Rightarrow> addr \<Rightarrow> nat \<Rightarrow> nat" where
  "skip_started excludes includeEnd i =
     (if i < length excludes \<and> addr_Compare (pAddr (excludes ! i)) includeEnd \<le> 0
      then skip_started excludes includeEnd (Suc i) else i)"
  by pat_completeness auto
termination
  by (relation "measure (\<lambda>(excludes, _, i). length excludes - i)") auto

declare skip_ended.simps [simp del] skip_started.simps [simp del]

fun processFamily :: "prefix list \<Rightarrow> prefix list \<Rightarrow> nat \<Rightarrow> prefix list \<Rightarrow> prefix list" where
  "processFamily [] excludes exclusionStart result = result"
| "processFamily (include # includes) excludes exclusionStart result =
     (let includeEnd = prefixEnd include;
          start = skip_ended excludes (pAddr include) exclusionStart;
          end' = skip_started excludes includeEnd start;
          result' = (if start = end' then result @ [include]
                     else subtractNode include (go_slice excludes start end') result)
      in processFamily includes excludes start result')"

definition set_Difference :: "prefix_set \<Rightarrow> prefix_set \<Rightarrow> prefix_set" where
  "set_Difference include exclude =
     (if prefixes include = [] then empty_set
      else if prefixes exclude = [] then fromCanonical (prefixes include)
      else
        let r4 = processFamily (take (v6Start include) (prefixes include))
                   (take (v6Start exclude) (prefixes exclude)) 0 [];
            r6 = processFamily (drop (v6Start include) (prefixes include))
                   (drop (v6Start exclude) (prefixes exclude)) 0 r4
        in fromCanonical r6)"

section \<open>Canonical sequences\<close>

text \<open>
  The representation invariant: masked, valid prefixes, each ending before the next one
  of its family starts, IPv4 before IPv6, and the family boundary recorded in
  \<^const>\<open>v6Start\<close>. The abstract value is the set of addresses covered.
\<close>

definition pbefore :: "prefix \<Rightarrow> prefix \<Rightarrow> bool" where
  "pbefore p q = (pfam p < pfam q \<or> pfam p = pfam q \<and> phi p < plo q)"

definition canonical :: "prefix list \<Rightarrow> bool" where
  "canonical ps = ((\<forall>p\<in>set ps. pfx_ok p) \<and> sorted_wrt pbefore ps)"

definition covers :: "prefix list \<Rightarrow> addr \<Rightarrow> bool" where
  "covers ps a = (\<exists>p\<in>set ps. prefix_Contains p a)"

definition set_ok :: "prefix_set \<Rightarrow> bool" where
  "set_ok s = (canonical (prefixes s) \<and> v6Start s = length (filter (\<lambda>p. Is4 (pAddr p)) (prefixes s)))"

definition member :: "prefix_set \<Rightarrow> addr \<Rightarrow> bool" where
  "member s a = covers (prefixes s) a"

lemma covers_Nil [simp]: "\<not> covers [] a"
  by (simp add: covers_def)

lemma covers_Cons [simp]: "covers (p # ps) a \<longleftrightarrow> prefix_Contains p a \<or> covers ps a"
  by (auto simp: covers_def)

lemma covers_append [simp]: "covers (ps @ qs) a \<longleftrightarrow> covers ps a \<or> covers qs a"
  by (auto simp: covers_def)

lemma covers_concat: "covers (concat pss) a \<longleftrightarrow> (\<exists>ps\<in>set pss. covers ps a)"
  by (auto simp: covers_def)

lemma covers_set_eq: "set ps = set qs \<Longrightarrow> covers ps a = covers qs a"
  by (simp add: covers_def)

lemma canonical_Nil [simp]: "canonical []"
  by (simp add: canonical_def)

lemma canonical_append:
  "canonical (ps @ qs) \<longleftrightarrow> canonical ps \<and> canonical qs \<and> (\<forall>p\<in>set ps. \<forall>q\<in>set qs. pbefore p q)"
  by (auto simp: canonical_def sorted_wrt_append)

lemma canonical_Cons:
  "canonical (p # qs) \<longleftrightarrow> pfx_ok p \<and> canonical qs \<and> (\<forall>q\<in>set qs. pbefore p q)"
  by (auto simp: canonical_def)

lemma canonical_ok: "canonical ps \<Longrightarrow> p \<in> set ps \<Longrightarrow> pfx_ok p"
  by (simp add: canonical_def)

lemma pbefore_trans: "pbefore p q \<Longrightarrow> pbefore q r \<Longrightarrow> pbefore p r"
  using plo_le_phi [of q] unfolding pbefore_def by linarith

lemma canonical_subseq: "canonical ps \<Longrightarrow> canonical (filter P ps)"
  by (auto simp: canonical_def sorted_wrt_filter)

lemma canonical_take: "canonical ps \<Longrightarrow> canonical (take n ps)"
  by (auto simp: canonical_def sorted_wrt_take dest: in_set_takeD)

lemma canonical_drop: "canonical ps \<Longrightarrow> canonical (drop n ps)"
  by (auto simp: canonical_def sorted_wrt_drop dest: in_set_dropD)

lemma canonical_disjoint:
  assumes "canonical ps" "i < length ps" "j < length ps" "i \<noteq> j" "prefix_Contains (ps ! i) a"
  shows "\<not> prefix_Contains (ps ! j) a"
proof -
  have ok: "pfx_ok (ps ! i)" "pfx_ok (ps ! j)" using assms by (auto simp: canonical_def)
  have "pbefore (ps ! i) (ps ! j) \<or> pbefore (ps ! j) (ps ! i)"
    using assms sorted_wrt_nth_less [of pbefore ps] by (auto simp: canonical_def neq_iff)
  then show ?thesis
    using assms(5) unfolding pbefore_def prefix_Contains_iff [OF ok(1)] prefix_Contains_iff [OF ok(2)]
    by linarith
qed

subsection \<open>The order of prefixes\<close>

lemma prefix_less_iff:
  assumes "pfx_ok p" "pfx_ok q"
  shows "prefix_less p q \<longleftrightarrow>
    pfam p < pfam q \<or> pfam p = pfam q \<and> (plo p < plo q \<or> plo p = plo q \<and> plen p < plen q)"
proof -
  have "addr_ok (pAddr p)" "addr_ok (pAddr q)" "prefix_Bits p = int (plen p)" "prefix_Bits q = int (plen q)"
    using assms by (auto dest: pfx_okD)
  then show ?thesis
    using pfam_cases [OF assms(1)] pfam_cases [OF assms(2)]
    by (auto simp: prefix_less_def addr_Compare_simps pfam_def plo_def dest: aval_inj)
qed

definition prefix_key :: "prefix \<Rightarrow> nat \<times> nat \<times> string \<times> nat" where
  "prefix_key p =
     ((case pAddr p of IP4 _ \<Rightarrow> 0 | NoAddr \<Rightarrow> 1 | IP6 _ _ \<Rightarrow> 2), aval (pAddr p), Zone (pAddr p), bitsPlusOne p)"

lemma prefix_less_key: "prefix_less p q \<longleftrightarrow> prefix_key p < prefix_key q"
  by (cases "pAddr p"; cases "pAddr q")
    (auto simp: prefix_less_def prefix_key_def cmp_def prefix_Bits_def word_less_nat_alt word_unat_eq_iff
      split: if_splits)

lemma inj_prefix_key: "inj prefix_key"
proof (rule injI)
  fix p q assume "prefix_key p = prefix_key q"
  then have "pAddr p = pAddr q" "bitsPlusOne p = bitsPlusOne q"
    by (cases "pAddr p"; cases "pAddr q"; simp add: prefix_key_def word_unat_eq_iff)+
  then show "p = q" by (simp add: prefix.expand)
qed

interpretation prefix_order: strict_total prefix_less
  by (rule strict_total_key [OF prefix_less_key inj_prefix_key])
subsection \<open>Canonicalisation\<close>

lemma canonicalize_loop_correct:
  assumes "canonical out" "\<forall>c\<in>set cs. pfx_ok c" "sorted_wrt (\<lambda>x y. \<not> prefix_less y x) cs"
    and "\<forall>p\<in>set out. \<forall>c\<in>set cs. \<not> prefix_less c p"
  shows "canonical (canonicalize_loop out cs) \<and>
    (\<forall>a. covers (canonicalize_loop out cs) a \<longleftrightarrow> covers out a \<or> covers cs a)"
  using assms
proof (induction out cs rule: canonicalize_loop.induct)
  case (1 out)
  then show ?case by simp
next
  case (2 out c cs)
  have c: "pfx_ok c" using 2 by simp
  show ?case
  proof (cases "out \<noteq> [] \<and> prefix_Contains (last out) (pAddr c)")
    case True
    let ?l = "last out"
    have l: "pfx_ok ?l" "?l \<in> set out" using True 2 by (auto intro: canonical_ok)
    have n: "\<not> prefix_less c ?l" using 2 l by auto
    have fam: "pfam ?l = pfam c" and lo: "plo ?l \<le> plo c" "plo c \<le> phi ?l"
      using True l by (auto simp: prefix_Contains_iff pfam_def plo_def)
    have "phi c \<le> phi ?l"
      using n fam lo pfx_nested [OF l(1) c] pfx_nested_less [OF l(1) c]
      by (auto simp: prefix_less_iff c l)
    then have "prefix_Contains c a \<Longrightarrow> prefix_Contains ?l a" for a
      using lo fam by (auto simp: prefix_Contains_iff c l)
    then have "covers (c # cs) a \<or> covers out a \<longleftrightarrow> covers cs a \<or> covers out a" for a
      using l(2) by (auto simp: covers_def)
    with 2 True show ?thesis by auto
  next
    case False
    have "pbefore p c" if p: "p \<in> set out" for p
    proof -
      obtain xs l where out: "out = xs @ [l]" using p by (cases out rule: rev_cases) auto
      have l: "pfx_ok l" "\<not> prefix_less c l" "\<not> prefix_Contains l (pAddr c)"
        using 2 False by (auto simp: out intro: canonical_ok)
      then have lc: "pbefore l c"
        using pfx_okD(1) [OF c]
        by (auto simp: prefix_less_iff prefix_Contains_iff c pbefore_def pfam_def plo_def)
      have "p = l \<or> pbefore p l" using p 2(3) by (auto simp: out canonical_append)
      then show ?thesis using lc by (auto intro: pbefore_trans)
    qed
    then have "canonical (out @ [c])" using 2 c by (auto simp: canonical_append canonical_Cons)
    with 2 False show ?thesis by auto
  qed
qed

lemma canonicalize_correct:
  assumes "\<forall>p\<in>set ps. pfx_ok p"
  shows canonicalize_canonical: "canonical (canonicalize ps)"
    and canonicalize_covers: "covers (canonicalize ps) a = covers ps a"
proof -
  have s: "\<forall>p\<in>set (sort_slice prefix_less ps). pfx_ok p" using assms by simp
  note c = canonicalize_loop_correct [OF canonical_Nil s prefix_order.sorted_sort_slice]
  show "canonical (canonicalize ps)" using c by (simp add: canonicalize_def)
  have "covers (sort_slice prefix_less ps) a = covers ps a" by (rule covers_set_eq) simp
  then show "covers (canonicalize ps) a = covers ps a" using c by (auto simp: canonicalize_def)
qed

lemma canonicalize_loop_subset: "set (canonicalize_loop out cs) \<subseteq> set out \<union> set cs"
  by (induction out cs rule: canonicalize_loop.induct) auto

lemma canonicalize_subset: "set (canonicalize ps) \<subseteq> set ps"
  using canonicalize_loop_subset [of "[]" "sort_slice prefix_less ps"]
  by (auto simp: canonicalize_def)

lemma canonicalize_Nil [simp]: "canonicalize [] = []"
  by (simp add: canonicalize_def)

lemma canonicalize_Nil_iff [simp]: "canonicalize ps = [] \<longleftrightarrow> ps = []"
proof -
  have "canonicalize_loop out cs = [] \<longleftrightarrow> out = [] \<and> cs = []" for out cs
    by (induction out cs rule: canonicalize_loop.induct) auto
  then show ?thesis by (simp add: canonicalize_def)
qed

lemma canonicalize_canonical_id: "canonical ps \<Longrightarrow> canonicalize ps = ps"
proof -
  assume c: "canonical ps"
  have "prefix_less p q" if "pfx_ok p" "pfx_ok q" "pbefore p q" for p q
    using that(3) plo_le_phi [of p] unfolding prefix_less_iff [OF that(1,2)] pbefore_def by linarith
  then have "sorted_wrt (\<lambda>x y. \<not> prefix_less y x) ps"
    using c by (auto simp: canonical_def intro: sorted_wrt_mono_rel [rotated] dest: prefix_order.less_asym)
  then have s: "sort_slice prefix_less ps = ps" by (rule prefix_order.sort_slice_id)
  have "canonicalize_loop out cs = out @ cs" if "canonical (out @ cs)" for out cs
    using that
  proof (induction out cs rule: canonicalize_loop.induct)
    case (2 out c cs)
    have "\<not> prefix_Contains (last out) (pAddr c)" if "out \<noteq> []"
    proof -
      have "last out \<in> set out" using that by simp
      then have "pbefore (last out) c" "pfx_ok (last out)" using 2(3) by (auto simp: canonical_append canonical_Cons canonical_ok)
      then show ?thesis by (auto simp: prefix_Contains_iff pbefore_def pfam_def plo_def)
    qed
    then show ?case using 2 by auto
  qed simp
  from this [of "[]" ps] c s show ?thesis by (simp add: canonicalize_def)
qed

subsection \<open>Construction\<close>

lemma upward_Is6: "canonical ps \<Longrightarrow> upward (\<lambda>p. Is6 (pAddr p)) ps"
proof (induction ps)
  case (Cons p ps)
  have "Is6 (pAddr q)" if "q \<in> set ps" "Is6 (pAddr p)" for q
    using that Cons.prems pfam_cases [of p] pfam_cases [of q]
    by (auto simp: canonical_Cons pbefore_def canonical_ok)
  with Cons show ?case by (auto simp: canonical_Cons)
qed simp

lemma fromCanonical_ok:
  assumes "canonical ps"
  shows "set_ok (fromCanonical ps)" and "prefixes (fromCanonical ps) = ps"
proof -
  have "filter (\<lambda>p. \<not> Is6 (pAddr p)) ps = filter (\<lambda>p. Is4 (pAddr p)) ps"
    using assms pfam_cases by (auto intro!: filter_cong dest: canonical_ok)
  then show "set_ok (fromCanonical ps)"
    using assms sort_search_upward [OF upward_Is6 [OF assms]]
    by (auto simp: fromCanonical_def set_ok_def empty_set_def takeWhile_upward [OF upward_Is6])
  show "prefixes (fromCanonical ps) = ps"
    by (simp add: fromCanonical_def empty_set_def)
qed

lemma set_ok_empty [simp]: "set_ok empty_set"
  by (simp add: set_ok_def empty_set_def)

lemma member_empty [simp]: "\<not> member empty_set a"
  by (simp add: member_def empty_set_def)

lemma member_fromCanonical [simp]: "member (fromCanonical ps) a = covers ps a"
  by (simp add: member_def fromCanonical_def empty_set_def)

text \<open>The two family views are the two halves of a well-formed set.\<close>

lemma set_ok_split:
  assumes "set_ok s"
  shows "take (v6Start s) (prefixes s) = filter (\<lambda>p. Is4 (pAddr p)) (prefixes s)"
    and "drop (v6Start s) (prefixes s) = filter (\<lambda>p. Is6 (pAddr p)) (prefixes s)"
proof -
  have c: "canonical (prefixes s)" using assms by (simp add: set_ok_def)
  have eq: "filter (\<lambda>p. \<not> Is6 (pAddr p)) (prefixes s) = filter (\<lambda>p. Is4 (pAddr p)) (prefixes s)"
    using c pfam_cases by (auto intro!: filter_cong dest: canonical_ok)
  have v: "v6Start s = length (takeWhile (\<lambda>p. \<not> Is6 (pAddr p)) (prefixes s))"
    using assms by (simp add: set_ok_def takeWhile_upward upward_Is6 eq)
  show "take (v6Start s) (prefixes s) = filter (\<lambda>p. Is4 (pAddr p)) (prefixes s)"
    unfolding v takeWhile_eq_take [symmetric] eq [symmetric] by (rule takeWhile_upward [OF upward_Is6 [OF c]])
  show "drop (v6Start s) (prefixes s) = filter (\<lambda>p. Is6 (pAddr p)) (prefixes s)"
    unfolding v dropWhile_eq_drop [symmetric] by (rule dropWhile_upward [OF upward_Is6 [OF c]])
qed

lemma prefix_validate_None:
  "prefix_validate p = None \<longleftrightarrow>
     prefix_IsValid p \<and> addr_ok (pAddr p) \<and> plen p \<le> pfam p"
  by (cases "pAddr p")
    (auto simp: prefix_validate_def Let_def addr_ok_def prefix_Bits_def prefix_IsValid_def plen_def
      pfam_def split: if_splits)

lemma normalize_loop_Inr:
  "normalize_loop i ps = Inr ms \<longleftrightarrow> (\<forall>p\<in>set ps. prefix_validate p = None) \<and> ms = map prefix_Masked ps"
proof (induction i ps arbitrary: ms rule: normalize_loop.induct)
  case (2 i v vs)
  have "normalize_loop i (v # vs) = Inr ms \<longleftrightarrow>
    prefix_validate v = None \<and> (\<exists>ns. normalize_loop (Suc i) vs = Inr ns \<and> ms = prefix_Masked v # ns)"
    by (auto split: option.splits sum.splits)
  with 2 show ?case by auto
qed auto

lemma normalize_loop_Inl:
  "normalize_loop i ps = Inl (k, e) \<Longrightarrow>
     i \<le> k \<and> k - i < length ps \<and> prefix_validate (ps ! (k - i)) = Some e \<and>
     (\<forall>j<k - i. prefix_validate (ps ! j) = None)"
proof (induction i ps rule: normalize_loop.induct)
  case (2 i v vs)
  show ?case
  proof (cases "prefix_validate v")
    case None
    then have "normalize_loop (Suc i) vs = Inl (k, e)"
      using 2(2) by (auto split: sum.splits)
    with 2(1) [OF None] have IH: "Suc i \<le> k" "k - Suc i < length vs"
      "prefix_validate (vs ! (k - Suc i)) = Some e" "\<forall>j<k - Suc i. prefix_validate (vs ! j) = None"
      by auto
    then have k: "k - i = Suc (k - Suc i)" by simp
    show ?thesis using IH None by (auto simp: k nth_Cons split: nat.splits)
  qed (use 2(2) in auto)
qed simp

lemma masked_ok: "prefix_validate p = None \<Longrightarrow> pfx_ok (prefix_Masked p)"
  by (rule prefix_Masked_pfx_ok) (auto simp: prefix_validate_None addr_ok_def)

lemma covers_masked:
  "\<forall>p\<in>set ps. prefix_validate p = None \<Longrightarrow> covers (map prefix_Masked ps) a = covers ps a"
  by (auto simp: covers_def prefix_validate_None addr_ok_def prefix_Contains_Masked)

lemma Normalize_Inr:
  "Normalize ps = Inr cs \<longleftrightarrow>
     (\<forall>p\<in>set ps. prefix_validate p = None) \<and> cs = canonicalize (map prefix_Masked ps)"
proof -
  have "Normalize ps = Inr cs \<longleftrightarrow> (\<exists>ms. normalize_loop 0 ps = Inr ms \<and> cs = canonicalize ms)"
    by (auto simp: Normalize_def split: sum.splits)
  then show ?thesis by (simp add: normalize_loop_Inr)
qed

lemma set_New_Inr:
  assumes "set_New ps = Inr s"
  shows set_New_ok: "set_ok s" and set_New_member: "member s a = covers ps a"
proof -
  obtain cs where cs: "Normalize ps = Inr cs" "s = fromCanonical cs"
    using assms by (auto simp: set_New_def split: sum.splits)
  then have v: "\<forall>p\<in>set ps. prefix_validate p = None" and c: "cs = canonicalize (map prefix_Masked ps)"
    by (auto simp: Normalize_Inr)
  then have ok: "\<forall>p\<in>set (map prefix_Masked ps). pfx_ok p" by (auto intro: masked_ok)
  show "set_ok s" unfolding cs(2) c by (rule fromCanonical_ok(1) [OF canonicalize_canonical [OF ok]])
  show "member s a = covers ps a"
    using cs c canonicalize_covers [OF ok] covers_masked [OF v] by simp
qed

lemma set_New_total: "(\<forall>p\<in>set ps. prefix_validate p = None) \<Longrightarrow> \<exists>s. set_New ps = Inr s"
  using Normalize_Inr [of ps "canonicalize (map prefix_Masked ps)"] by (simp add: set_New_def)

lemma set_Union_ok:
  assumes "\<forall>s\<in>set ss. set_ok s"
  shows "set_ok (set_Union ss)" and "member (set_Union ss) a \<longleftrightarrow> (\<exists>s\<in>set ss. member s a)"
proof -
  let ?ps = "concat (map prefixes ss)"
  have ok: "\<forall>p\<in>set ?ps. pfx_ok p" using assms by (auto simp: set_ok_def canonical_def)
  have u: "set_Union ss = fromCanonical (canonicalize ?ps)"
    by (auto simp: set_Union_def fromCanonical_def)
  show "set_ok (set_Union ss)"
    unfolding u by (intro fromCanonical_ok(1) canonicalize_canonical ok)
  show "member (set_Union ss) a \<longleftrightarrow> (\<exists>s\<in>set ss. member s a)"
    unfolding u member_fromCanonical canonicalize_covers [OF ok] by (auto simp: covers_concat member_def)
qed

lemma contains_family:
  assumes "pfx_ok p" "prefix_Contains p a"
  shows "Is4 (pAddr p) \<longleftrightarrow> Is4 a" and "Is6 (pAddr p) \<longleftrightarrow> Is6 a"
  using assms pfam_cases [OF assms(1)] by (cases a; auto simp: prefix_Contains_iff)+

lemma set_IPv4_ok:
  assumes "set_ok s"
  shows "set_ok (set_IPv4 s)" and "member (set_IPv4 s) a \<longleftrightarrow> Is4 a \<and> member s a"
    and "prefixes (set_IPv4 s) = filter (\<lambda>p. Is4 (pAddr p)) (prefixes s)"
proof -
  have p: "prefixes (set_IPv4 s) = filter (\<lambda>p. Is4 (pAddr p)) (prefixes s)"
    using set_ok_split(1) [OF assms] by (simp add: set_IPv4_def)
  then show "prefixes (set_IPv4 s) = filter (\<lambda>p. Is4 (pAddr p)) (prefixes s)" .
  show "set_ok (set_IPv4 s)"
    using assms p by (auto simp: set_ok_def canonical_subseq set_IPv4_def)
  show "member (set_IPv4 s) a \<longleftrightarrow> Is4 a \<and> member s a"
    using assms by (auto simp: member_def covers_def p set_ok_def canonical_def contains_family)
qed

lemma set_IPv6_ok:
  assumes "set_ok s"
  shows "set_ok (set_IPv6 s)" and "member (set_IPv6 s) a \<longleftrightarrow> Is6 a \<and> member s a"
    and "prefixes (set_IPv6 s) = filter (\<lambda>p. Is6 (pAddr p)) (prefixes s)"
proof -
  have p: "prefixes (set_IPv6 s) = filter (\<lambda>p. Is6 (pAddr p)) (prefixes s)"
    using set_ok_split(2) [OF assms] by (simp add: set_IPv6_def)
  then show "prefixes (set_IPv6 s) = filter (\<lambda>p. Is6 (pAddr p)) (prefixes s)" .
  have fam: "Is6 (pAddr p) \<longleftrightarrow> \<not> Is4 (pAddr p)" if "p \<in> set (prefixes s)" for p
    using assms that pfam_cases [of p] by (auto simp: set_ok_def canonical_def)
  have "filter (\<lambda>p. Is4 (pAddr p)) (filter (\<lambda>p. Is6 (pAddr p)) (prefixes s)) = []"
    using fam by (auto simp: filter_empty_conv)
  then show "set_ok (set_IPv6 s)"
    using assms p by (auto simp: set_ok_def canonical_subseq set_IPv6_def)
  show "member (set_IPv6 s) a \<longleftrightarrow> Is6 a \<and> member s a"
    using assms by (auto simp: member_def covers_def p set_ok_def canonical_def contains_family)
qed

subsection \<open>Membership by binary search\<close>

definition after :: "addr \<Rightarrow> prefix \<Rightarrow> bool" where
  "after a p = (0 < addr_Compare (pAddr p) a)"

lemma after_iff:
  "pfx_ok p \<Longrightarrow> addr_ok a \<Longrightarrow> pfam p = BitLen a \<Longrightarrow> after a p \<longleftrightarrow> aval a < plo p"
  using addr_Compare_greater [of "pAddr p" a] by (auto simp: after_def pfam_def plo_def dest: pfx_okD(1))

lemma upward_after:
  assumes "canonical ps" "\<forall>p\<in>set ps. pfam p = BitLen a" "addr_ok a"
  shows "upward (after a) ps"
  using assms
proof (induction ps)
  case (Cons p ps)
  have "after a q" if "after a p" "q \<in> set ps" for q
  proof -
    have "pfx_ok p" "pfx_ok q" "pbefore p q" using Cons.prems that by (auto simp: canonical_Cons canonical_ok)
    then show ?thesis
      using that Cons.prems less_le_trans [OF _ plo_le_phi [of p]]
      by (auto simp: after_iff pbefore_def intro: less_trans)
  qed
  with Cons show ?case by (auto simp: canonical_Cons)
qed simp

text \<open>Only the last prefix that starts at or before an address can contain it.\<close>

lemma last_before_contains:
  assumes c: "canonical ps" and fam: "\<forall>p\<in>set ps. pfam p = BitLen a" and a: "addr_ok a"
    and p: "p \<in> set ps" "prefix_Contains p a"
  defines "n \<equiv> length (takeWhile (\<lambda>p. \<not> after a p) ps)"
  shows "n \<noteq> 0" and "ps ! (n - 1) = p"
proof -
  let ?t = "takeWhile (\<lambda>p. \<not> after a p) ps"
  have t: "?t = filter (\<lambda>p. \<not> after a p) ps" by (rule takeWhile_upward [OF upward_after [OF c fam a]])
  have ok: "pfx_ok p" using c p by (simp add: canonical_ok)
  have "p \<in> set ?t"
    using p ok fam a unfolding t by (auto simp: prefix_Contains_iff after_iff)
  then obtain xs l where xs: "?t = xs @ [l]" by (cases ?t rule: rev_cases) auto
  show n: "n \<noteq> 0" by (simp add: n_def xs)
  have "ps ! (n - 1) = ?t ! (n - 1)"
    using n unfolding n_def by (intro takeWhile_nth [symmetric]) simp
  then have l: "ps ! (n - 1) = l" by (simp add: n_def xs)
  have "canonical ?t" unfolding t using c by (rule canonical_subseq)
  then have "l = p \<or> pbefore p l" using \<open>p \<in> set ?t\<close> by (auto simp: xs canonical_append)
  moreover have "l \<in> set ?t" by (simp add: xs)
  then have "l \<in> set ps" "\<not> after a l" by (auto dest: set_takeWhileD)
  then have "plo l \<le> aval a" using c fam a by (auto simp: after_iff canonical_ok not_less)
  moreover have "pfam l = pfam p" using fam p(1) \<open>l \<in> set ps\<close> by simp
  ultimately have "l = p" using p ok by (auto simp: pbefore_def prefix_Contains_iff)
  then show "ps ! (n - 1) = p" using l by simp
qed

lemma sort_search_cong: "(\<And>k. k < n \<Longrightarrow> f k = g k) \<Longrightarrow> sort_search n f = sort_search n g"
proof -
  assume "\<And>k. k < n \<Longrightarrow> f k = g k"
  moreover have "j \<le> n \<Longrightarrow> (\<And>k. k < n \<Longrightarrow> f k = g k) \<Longrightarrow> search_loop f i j = search_loop g i j" for i j
  proof (induction f i j rule: search_loop.induct)
    case (1 f i j)
    show ?case
    proof (cases "i < j")
      case True
      let ?h = "(i + j) div 2"
      have h: "?h < n" "f ?h = g ?h" using True 1(3,4) by auto
      then show ?thesis
        using True 1(1) [OF True refl _ 1(3)] 1(2) [OF True refl] 1(3,4) less_imp_le [OF h(1)]
        by (simp add: search_loop.simps [of f i j] search_loop.simps [of g i j] Let_def)
    qed (simp add: search_loop.simps [of f i j] search_loop.simps [of g i j])
  qed
  ultimately show ?thesis by (simp add: sort_search_def)
qed

lemma search_after:
  assumes "canonical ps" "\<forall>p\<in>set ps. pfam p = BitLen a" "addr_ok a"
  shows "sort_search (length ps) (\<lambda>i. 0 < addr_Compare (pAddr (ps ! i)) a)
    = length (takeWhile (\<lambda>p. \<not> after a p) ps)"
  using sort_search_upward [OF upward_after [OF assms]] by (simp add: after_def)

lemma search_contains:
  assumes "canonical ps" "\<forall>p\<in>set ps. pfam p = BitLen a" "addr_ok a"
  defines "n \<equiv> sort_search (length ps) (\<lambda>i. 0 < addr_Compare (pAddr (ps ! i)) a)"
  shows "covers ps a \<longleftrightarrow> n \<noteq> 0 \<and> prefix_Contains (ps ! (n - 1)) a"
proof -
  have n: "n = length (takeWhile (\<lambda>p. \<not> after a p) ps)" unfolding n_def by (rule search_after [OF assms(1-3)])
  have "n \<noteq> 0 \<Longrightarrow> ps ! (n - 1) \<in> set ps"
    using length_takeWhile_le [of "\<lambda>p. \<not> after a p" ps] unfolding n by (intro nth_mem) linarith
  then show ?thesis
    using last_before_contains [OF assms(1-3)] n by (auto simp: covers_def)
qed

lemma set_Contains_member:
  assumes "set_ok s"
  shows "set_Contains s a = member s a"
proof (cases "addr_ok a")
  case False
  have "\<not> prefix_Contains p a" if "p \<in> set (prefixes s)" for p
    using False by (simp add: prefix_Contains_div)
  then show ?thesis using False by (auto simp: set_Contains_def addr_ok_def member_def covers_def)
next
  case True
  define seg where "seg = (if Is6 a then drop (v6Start s) (prefixes s) else take (v6Start s) (prefixes s))"
  define start where "start = (if Is6 a then v6Start s else 0)"
  define end' where "end' = (if Is6 a then length (prefixes s) else v6Start s)"
  have vl: "v6Start s \<le> length (prefixes s)" using assms by (simp add: set_ok_def)
  have a: "addr_IsValid a" "Zone a = ''''" "Is6 a \<or> Is4 a" "Is6 a \<noteq> Is4 a"
    using True by (cases a; simp add: addr_ok_def)+
  have len: "length seg = end' - start" using vl by (simp add: seg_def start_def end'_def)
  have nth: "seg ! i = prefixes s ! (start + i)" if "i < length seg" for i
    using that by (auto simp: seg_def start_def)
  have c: "canonical seg"
    using assms by (auto simp: seg_def set_ok_def intro: canonical_take canonical_drop)
  have seg: "seg = filter (\<lambda>p. if Is6 a then Is6 (pAddr p) else Is4 (pAddr p)) (prefixes s)"
    using set_ok_split [OF assms] by (simp add: seg_def)
  have fam: "\<forall>p\<in>set seg. pfam p = BitLen a"
    using a pfam_cases c by (cases a) (auto simp: seg dest!: canonical_ok)
  have mem: "member s a = covers seg a"
    using assms a by (auto simp: seg member_def covers_def set_ok_def canonical_def contains_family)
  define f where "f = (\<lambda>i. 0 < addr_Compare (pAddr (prefixes s ! (start + i))) a)"
  have search: "sort_search (end' - start) f = sort_search (length seg) (\<lambda>i. 0 < addr_Compare (pAddr (seg ! i)) a)"
    unfolding len [symmetric] f_def by (rule sort_search_cong) (simp add: nth)
  define n where "n = sort_search (end' - start) f"
  have nl: "n \<le> length seg" unfolding n_def len by (rule sort_search_le)
  have "set_Contains s a \<longleftrightarrow> start < end' \<and> n \<noteq> 0 \<and> prefix_Contains (prefixes s ! (start + n - 1)) a"
    using a unfolding set_Contains_def Let_def n_def f_def start_def end'_def by auto
  also have "\<dots> \<longleftrightarrow> n \<noteq> 0 \<and> prefix_Contains (seg ! (n - 1)) a"
    using nth [of "n - 1"] nl len by (cases n) auto
  also have "\<dots> \<longleftrightarrow> covers seg a"
    using search_contains [OF c fam True] by (simp add: n_def search)
  finally show ?thesis by (simp add: mem)
qed

section \<open>Exactness of Difference\<close>

lemma prefixEnd_end:
  assumes "pfx_ok p"
  shows "addr_ok (prefixEnd p)" and "BitLen (prefixEnd p) = pfam p" and "aval (prefixEnd p) = phi p"
proof -
  note ok = pfx_okD [OF assms]
  have b: "nat (prefix_Bits p) = plen p" using ok by simp
  have al: "2 ^ (pfam p - plen p) dvd aval (pAddr p)" using ok(6) by (simp add: psize_def plo_def)
  have "addr_ok (prefixEnd p) \<and> BitLen (prefixEnd p) = pfam p \<and> aval (prefixEnd p) = phi p"
  proof (cases "pAddr p")
    case (IP4 v)
    then have "plen p \<le> 8 * 4" "2 ^ (32 - plen p) dvd unat v" using ok al by (auto simp: pfam_def)
    then show ?thesis
      using IP4 be_word_fill [of 4 "plen p" v] unat_or_mask [of "32 - plen p" v]
      by (simp add: prefixEnd_def b AddrFrom4_def addr_ok_def pfam_def phi_def plo_def psize_def)
  next
    case (IP6 v z)
    then have "plen p \<le> 8 * 16" "2 ^ (128 - plen p) dvd unat v" using ok al by (auto simp: pfam_def)
    then show ?thesis
      using IP6 be_word_fill [of 16 "plen p" v] unat_or_mask [of "128 - plen p" v]
      by (simp add: prefixEnd_def b AddrFrom16_def addr_ok_def pfam_def phi_def plo_def psize_def)
  qed (use ok(2) in simp)
  then show "addr_ok (prefixEnd p)" "BitLen (prefixEnd p) = pfam p" "aval (prefixEnd p) = phi p" by auto
qed

text \<open>Splitting a block: the lower and the upper half, one bit longer.\<close>

lemma split_prefix_shape:
  assumes "pfx_ok p" "plen p < pfam p"
  shows "\<exists>a b. split_prefix p = (Prefix a (Suc (Suc (plen p))), Prefix b (Suc (Suc (plen p)))) \<and>
    addr_ok a \<and> addr_ok b \<and> BitLen a = pfam p \<and> BitLen b = pfam p \<and>
    aval a = plo p \<and> aval b = plo p + 2 ^ (pfam p - Suc (plen p))"
proof -
  note ok = pfx_okD [OF assms(1)]
  have al: "2 ^ (pfam p - plen p) dvd aval (pAddr p)" using ok(6) by (simp add: psize_def plo_def)
  have b: "nat (int (plen p) + 1) = Suc (plen p)" by simp
  show ?thesis
  proof (cases "pAddr p")
    case (IP4 v)
    then show ?thesis
      using ok(8) assms(2) al b be_word_halves [of 4 "plen p" v]
      by (simp add: split_prefix_def Let_def AddrFrom4_def PrefixFrom_def addr_ok_def pfam_def plo_def)
  next
    case (IP6 v z)
    then show ?thesis
      using ok(8) assms(2) al b be_word_halves [of 16 "plen p" v]
      by (simp add: split_prefix_def Let_def AddrFrom16_def PrefixFrom_def addr_ok_def pfam_def plo_def)
  qed (use ok(2) in simp)
qed

lemma split_prefix_halves:
  assumes "pfx_ok p" "plen p < pfam p"
  defines "l \<equiv> fst (split_prefix p)" and "r \<equiv> snd (split_prefix p)"
  shows "pfx_ok l" "pfx_ok r" "pfam l = pfam p" "pfam r = pfam p"
    "plen l = Suc (plen p)" "plen r = Suc (plen p)"
    "plo l = plo p" "phi r = phi p" "plo r = Suc (phi l)"
proof -
  define k where "k = pfam p - Suc (plen p)"
  have k: "pfam p - plen p = Suc k" using assms(2) by (simp add: k_def)
  obtain a b where ab: "l = Prefix a (Suc (Suc (plen p)))" "r = Prefix b (Suc (Suc (plen p)))"
    "addr_ok a" "addr_ok b" "BitLen a = pfam p" "BitLen b = pfam p"
    "aval a = plo p" "aval b = plo p + 2 ^ k"
    using split_prefix_shape [OF assms(1,2)] unfolding l_def r_def k_def by auto
  show fam: "pfam l = pfam p" "pfam r = pfam p" using ab by (auto simp: pfam_def)
  show len: "plen l = Suc (plen p)" "plen r = Suc (plen p)" using ab by (auto simp: plen_def)
  have size: "psize l = 2 ^ k" "psize r = 2 ^ k" "psize p = 2 * 2 ^ k"
    unfolding psize_def fam len k k_def by simp_all
  show lo: "plo l = plo p" using ab by (simp add: plo_def)
  have lo': "plo r = plo p + 2 ^ k" using ab by (simp add: plo_def)
  have d: "2 ^ k dvd plo p"
    using pfx_okD(6) [OF assms(1)] unfolding size by (rule dvd_trans [OF dvd_triv_right])
  show "pfx_ok l" "pfx_ok r"
    unfolding pfx_ok_iff fam len lo lo' size using ab assms(2) d by auto
  show "phi r = phi p" "plo r = Suc (phi l)"
    unfolding phi_def lo lo' size by (auto simp: Suc_le_eq)
qed
lemma prefixEnd_Compare:
  assumes "pfx_ok p" "pfx_ok q" "pfam p = pfam q"
  shows "addr_Compare (prefixEnd p) (pAddr q) < 0 \<longleftrightarrow> phi p < plo q"
    and "0 \<le> addr_Compare (prefixEnd p) (pAddr q) \<longleftrightarrow> plo q \<le> phi p"
    and "0 < addr_Compare (pAddr q) (prefixEnd p) \<longleftrightarrow> phi p < plo q"
    and "addr_Compare (pAddr q) (prefixEnd p) \<le> 0 \<longleftrightarrow> plo q \<le> phi p"
  using prefixEnd_end [OF assms(1)] pfx_okD(1) [OF assms(2)] assms(3)
  by (simp_all add: addr_Compare_simps pfam_def plo_def)

definition overlapping :: "prefix \<Rightarrow> prefix list \<Rightarrow> prefix list" where
  "overlapping node = filter (\<lambda>e. plo node \<le> phi e \<and> plo e \<le> phi node)"

lemma overlapRange_correct:
  assumes ok: "pfx_ok node" and c: "canonical ex" and fam: "\<forall>e\<in>set ex. pfam e = pfam node"
    and se: "overlapRange node ex = (s, e)"
  shows "go_slice ex s e = overlapping node ex" and "s = e \<longleftrightarrow> overlapping node ex = []"
    and "overlapping node ex \<noteq> [] \<Longrightarrow> ex ! s = hd (overlapping node ex)"
proof -
  define P where "P x = (plo node \<le> phi x)" for x
  define Q where "Q x = (phi node < plo x)" for x
  have sorted: "sorted_wrt (\<lambda>x y. phi x < plo y) ex"
    using c fam by (auto simp: canonical_def pbefore_def elim: sorted_wrt_mono_rel [rotated])
  have upP: "upward P ex" and upQ: "upward Q ex"
    unfolding upward_def P_def Q_def
    by (rule sorted_wrt_mono_rel [OF _ sorted],
        metis le_trans less_imp_le_nat plo_le_phi less_le_trans less_trans)+
  have s: "s = length (takeWhile (\<lambda>x. \<not> P x) ex)"
  proof -
    have "s = sort_search (length ex) (\<lambda>i. P (ex ! i))"
      using se c fam ok
      by (auto simp: overlapRange_def P_def prefixEnd_Compare canonical_ok intro!: sort_search_cong)
    then show ?thesis by (simp only: sort_search_upward [OF upP])
  qed
  have e: "e = length (takeWhile (\<lambda>x. \<not> Q x) ex)"
  proof -
    have "e = sort_search (length ex) (\<lambda>i. Q (ex ! i))"
      using se c fam ok
      by (auto simp: overlapRange_def Q_def prefixEnd_Compare canonical_ok intro!: sort_search_cong)
    then show ?thesis by (simp only: sort_search_upward [OF upQ])
  qed
  let ?o = "overlapping node ex"
  have o: "?o = filter (\<lambda>x. \<not> Q x) (filter P ex)"
    by (simp add: overlapping_def P_def Q_def not_less conj_commute)
  have dropP: "drop s ex = filter P ex"
    unfolding s dropWhile_eq_drop [symmetric] by (rule dropWhile_upward [OF upP])
  have "filter (\<lambda>x. \<not> Q x) ex = filter (\<lambda>x. \<not> P x) ex @ ?o"
  proof -
    have "ex = filter (\<lambda>x. \<not> P x) ex @ filter P ex"
      using takeWhile_dropWhile_id [of "\<lambda>x. \<not> P x" ex] takeWhile_upward [OF upP] dropWhile_upward [OF upP]
      by simp
    then have "filter (\<lambda>x. \<not> Q x) ex = filter (\<lambda>x. \<not> Q x) (filter (\<lambda>x. \<not> P x) ex) @ ?o"
      unfolding o by (metis filter_append)
    moreover have "filter (\<lambda>x. \<not> Q x) (filter (\<lambda>x. \<not> P x) ex) = filter (\<lambda>x. \<not> P x) ex"
    proof (rule filter_True)
      have "\<not> Q x" if "\<not> P x" for x
        using that plo_le_phi [of x] plo_le_phi [of node] unfolding P_def Q_def by linarith
      then show "\<forall>x\<in>set (filter (\<lambda>x. \<not> P x) ex). \<not> Q x" by simp
    qed
    ultimately show ?thesis by simp
  qed
  then have es: "e = s + length ?o"
    unfolding s e takeWhile_upward [OF upP] takeWhile_upward [OF upQ] by simp
  have "takeWhile (\<lambda>x. \<not> Q x) (filter P ex) = ?o"
    unfolding o using upQ by (intro takeWhile_upward) (simp add: upward_def sorted_wrt_filter)
  then have "take (length ?o) (filter P ex) = ?o" by (metis takeWhile_eq_take)
  then show sl: "go_slice ex s e = ?o" by (simp add: go_slice_def dropP es)
  show "s = e \<longleftrightarrow> ?o = []" by (simp add: es)
  show "ex ! s = hd ?o" if "?o \<noteq> []"
  proof -
    have "s < length ex" using that dropP o by (metis drop_all filter.simps(1) not_le)
    then have "ex ! s = hd (filter P ex)" by (metis dropP hd_drop_conv_nth)
    also have "\<dots> = hd ?o"
      using that \<open>take (length ?o) (filter P ex) = ?o\<close> by (metis hd_take length_greater_0_conv)
    finally show ?thesis .
  qed
qed

text \<open>What one step of the subtraction contributes to the result.\<close>

definition diff_of :: "prefix \<Rightarrow> prefix list \<Rightarrow> prefix list \<Rightarrow> bool" where
  "diff_of node ex ds =
     (canonical ds \<and> (\<forall>d\<in>set ds. pfam d = pfam node \<and> plo node \<le> plo d \<and> phi d \<le> phi node) \<and>
      (\<forall>a. covers ds a \<longleftrightarrow> prefix_Contains node a \<and> \<not> covers ex a))"

lemma covers_overlapping:
  assumes "pfx_ok node" "canonical ex" "prefix_Contains node a"
  shows "covers (overlapping node ex) a = covers ex a"
  using assms
  by (auto simp: covers_def overlapping_def prefix_Contains_iff canonical_def intro: order_trans)

lemma diff_of_halves:
  assumes ok: "pfx_ok node" and len: "plen node < pfam node" and c: "canonical ex"
    and l: "diff_of (fst (split_prefix node)) (overlapping node ex) ls"
    and r: "diff_of (snd (split_prefix node)) (overlapping node ex) rs"
  shows "diff_of node ex (ls @ rs)"
proof -
  let ?l = "fst (split_prefix node)" and ?r = "snd (split_prefix node)"
  note h = split_prefix_halves [OF ok len]
  have lr: "plo ?l \<le> phi ?l" "plo ?r \<le> phi ?r" by simp_all
  have "pbefore p q" if "p \<in> set ls" "q \<in> set rs" for p q
  proof -
    have "pfam p = pfam q" "phi p \<le> phi ?l" "plo ?r \<le> plo q" using that l r h by (auto simp: diff_of_def)
    then show ?thesis using h(9) by (simp add: pbefore_def)
  qed
  then have "canonical (ls @ rs)" using l r by (auto simp: canonical_append diff_of_def)
  moreover have "\<forall>d\<in>set (ls @ rs). pfam d = pfam node \<and> plo node \<le> plo d \<and> phi d \<le> phi node"
    using l r h lr by (fastforce simp: diff_of_def)
  moreover have "prefix_Contains node a \<longleftrightarrow> prefix_Contains ?l a \<or> prefix_Contains ?r a" for a
    using h lr unfolding prefix_Contains_iff [OF ok] prefix_Contains_iff [OF h(1)] prefix_Contains_iff [OF h(2)]
    by auto
  then have "covers (ls @ rs) a \<longleftrightarrow> prefix_Contains node a \<and> \<not> covers ex a" for a
    using l r covers_overlapping [OF ok c, of a] by (auto simp: diff_of_def)
  ultimately show ?thesis by (simp add: diff_of_def)
qed

lemma subtractNode_correct:
  assumes "pfx_ok node" "canonical ex" "\<forall>e\<in>set ex. pfam e = pfam node"
  shows "\<exists>ds. subtractNode node ex result = result @ ds \<and> diff_of node ex ds"
  using assms
proof (induction "pfam node - plen node" arbitrary: node ex result rule: less_induct)
  case less
  note ok = less.prems(1) and c = less.prems(2) and fam = less.prems(3)
  obtain s e where se: "overlapRange node ex = (s, e)" by fastforce
  note o = overlapRange_correct [OF ok c fam se]
  let ?o = "overlapping node ex"
  let ?l = "fst (split_prefix node)" and ?r = "snd (split_prefix node)"
  have unfold: "subtractNode node ex result =
     (if s = e then result @ [node]
      else if prefix_Bits (ex ! s) \<le> prefix_Bits node \<and> prefix_Contains (ex ! s) (pAddr node) then result
      else if \<not> prefix_IsValid ?l then result
      else subtractNode ?r (go_slice ex s e) (subtractNode ?l (go_slice ex s e) result))"
    using subtractNode.simps [of node ex result] by (simp add: se Let_def)
  have co: "canonical ?o" "\<forall>e\<in>set ?o. pfam e = pfam node"
    using c fam by (auto simp: overlapping_def canonical_subseq)
  consider (none) "?o = []"
    | (all) "?o \<noteq> []" "prefix_Bits (ex ! s) \<le> prefix_Bits node" "prefix_Contains (ex ! s) (pAddr node)"
    | (part) "?o \<noteq> []" "\<not> (prefix_Bits (ex ! s) \<le> prefix_Bits node \<and> prefix_Contains (ex ! s) (pAddr node))"
    by blast
  then show ?case
  proof cases
    case none
    then have "diff_of node ex [node]"
      using ok covers_overlapping [OF ok c] by (auto simp: diff_of_def canonical_Cons)
    then show ?thesis using none o(2) unfold by auto
  next
    case all
    have mem: "ex ! s \<in> set ex" using o(3) all(1) by (metis hd_in_set overlapping_def filter_is_subset subsetD)
    then have h: "pfx_ok (ex ! s)" "pfam (ex ! s) = pfam node" using c fam by (auto simp: canonical_ok)
    then have "plo (ex ! s) \<le> plo node" "plo node \<le> phi (ex ! s)" "plen (ex ! s) \<le> plen node"
      using all ok by (auto simp: prefix_Contains_iff pfx_okD(8) plo_def)
    then have "phi node \<le> phi (ex ! s)" using h ok by (intro pfx_nested)
    then have "prefix_Contains node a \<Longrightarrow> covers ex a" for a
      using mem h ok all(3) by (force simp: covers_def prefix_Contains_iff plo_def)
    then have "diff_of node ex []" by (auto simp: diff_of_def)
    then show ?thesis using all o(2) unfold by auto
  next
    case part
    have mem: "ex ! s \<in> set ?o" using o(3) part(1) by simp
    then have h: "pfx_ok (ex ! s)" "pfam (ex ! s) = pfam node"
      "plo node \<le> phi (ex ! s)" "plo (ex ! s) \<le> phi node"
      using c fam by (auto simp: overlapping_def canonical_ok)
    have len: "plen node < pfam node"
    proof (rule ccontr)
      assume "\<not> plen node < pfam node"
      then have "plen node = pfam node" using pfx_okD(5) [OF ok] by simp
      then have "phi node = plo node" by (simp add: phi_def psize_def)
      then have "prefix_Contains (ex ! s) (pAddr node)" "prefix_Bits (ex ! s) \<le> prefix_Bits node"
        using h ok pfx_okD(5) [OF h(1)] pfx_okD(1) [OF ok] \<open>plen node = pfam node\<close>
        by (auto simp: prefix_Contains_iff pfx_okD(8) plo_def pfam_def)
      with part show False by blast
    qed
    note halves = split_prefix_halves [OF ok len]
    have "prefix_IsValid ?l" using halves(1) by (rule pfx_okD(7))
    then have eq: "subtractNode node ex result = subtractNode ?r ?o (subtractNode ?l ?o result)"
      using part o(1,2) unfold by auto
    have fl: "\<forall>e\<in>set ?o. pfam e = pfam ?l" "\<forall>e\<in>set ?o. pfam e = pfam ?r" using co(2) halves by auto
    obtain ls where ls: "subtractNode ?l ?o result = result @ ls" "diff_of ?l ?o ls"
      using less.hyps [OF _ halves(1) co(1) fl(1)] halves len by fastforce
    obtain rs where rs: "subtractNode ?r ?o (result @ ls) = (result @ ls) @ rs" "diff_of ?r ?o rs"
      using less.hyps [OF _ halves(2) co(1) fl(2)] halves len by fastforce
    have "diff_of node ex (ls @ rs)" by (rule diff_of_halves [OF ok len c ls(2) rs(2)])
    then show ?thesis using eq ls(1) rs(1) by auto
  qed
qed
lemma skip_ended_drop:
  "drop (skip_ended ex a i) ex = dropWhile (\<lambda>e. addr_Compare (prefixEnd e) a < 0) (drop i ex)"
proof (induction ex a i rule: skip_ended.induct)
  case (1 ex a i)
  show ?case
  proof (cases "i < length ex")
    case True
    then have "drop i ex = ex ! i # drop (Suc i) ex" by (simp add: Cons_nth_drop_Suc)
    then show ?thesis using 1 True by (simp add: skip_ended.simps [of ex a i])
  qed (simp add: skip_ended.simps [of ex a i])
qed

lemma skip_started_take:
  "i \<le> skip_started ex a i \<and>
   go_slice ex i (skip_started ex a i) = takeWhile (\<lambda>e. addr_Compare (pAddr e) a \<le> 0) (drop i ex) \<and>
   (skip_started ex a i = i \<longleftrightarrow> takeWhile (\<lambda>e. addr_Compare (pAddr e) a \<le> 0) (drop i ex) = [])"
proof (induction ex a i rule: skip_started.induct)
  case (1 ex a i)
  show ?case
  proof (cases "i < length ex \<and> addr_Compare (pAddr (ex ! i)) a \<le> 0")
    case True
    then have d: "drop i ex = ex ! i # drop (Suc i) ex" by (simp add: Cons_nth_drop_Suc)
    have s: "skip_started ex a i = skip_started ex a (Suc i)"
      using True by (simp add: skip_started.simps [of ex a i])
    have "skip_started ex a (Suc i) - i = Suc (skip_started ex a (Suc i) - Suc i)"
      using 1 True by auto
    then show ?thesis using 1 True d by (auto simp: s go_slice_def)
  next
    case False
    then have "skip_started ex a i = i" by (auto simp: skip_started.simps [of ex a i])
    moreover have "takeWhile (\<lambda>e. addr_Compare (pAddr e) a \<le> 0) (drop i ex) = []"
      using False by (cases "i < length ex") (auto simp: Cons_nth_drop_Suc [symmetric])
    ultimately show ?thesis by (simp add: go_slice_def)
  qed
qed

text \<open>The subtraction of one include block, over the exclusions not yet skipped.\<close>

lemma diff_of_subset:
  assumes "diff_of node ex ds" "\<And>a. prefix_Contains node a \<Longrightarrow> covers ex a = covers ex' a"
  shows "diff_of node ex' ds"
  using assms by (auto simp: diff_of_def)

lemma processFamily_step:
  fixes i :: nat and result :: "prefix list"
  assumes ok: "pfx_ok inc" and c: "canonical ex" and fam: "\<forall>e\<in>set ex. pfam e = pfam inc"
  defines "start \<equiv> skip_ended ex (pAddr inc) i"
  defines "end' \<equiv> skip_started ex (prefixEnd inc) start"
  shows "drop start ex = filter (\<lambda>e. plo inc \<le> phi e) (drop i ex)"
    and "\<exists>ds. (if start = end' then result @ [inc] else subtractNode inc (go_slice ex start end') result)
           = result @ ds \<and> diff_of inc (drop i ex) ds"
proof -
  have ci: "canonical (drop i ex)" "\<forall>e\<in>set (drop i ex). pfam e = pfam inc"
    using c fam by (auto intro: canonical_drop dest: in_set_dropD)
  have up: "upward (\<lambda>e. plo inc \<le> phi e) (drop i ex)"
  proof -
    have "sorted_wrt (\<lambda>x y. phi x < plo y) (drop i ex)"
      using ci by (auto simp: canonical_def pbefore_def elim: sorted_wrt_mono_rel [rotated])
    then show ?thesis
      unfolding upward_def
      by (rule sorted_wrt_mono_rel [rotated]) (metis le_trans less_imp_le_nat plo_le_phi)
  qed
  have "dropWhile (\<lambda>e. addr_Compare (prefixEnd e) (pAddr inc) < 0) (drop i ex)
      = dropWhile (\<lambda>e. \<not> plo inc \<le> phi e) (drop i ex)"
    using ci ok by (intro dropWhile_cong) (auto simp: prefixEnd_Compare canonical_ok)
  then show d: "drop start ex = filter (\<lambda>e. plo inc \<le> phi e) (drop i ex)"
    unfolding start_def skip_ended_drop by (simp only: dropWhile_upward [OF up])
  have cs: "canonical (drop start ex)" "\<forall>e\<in>set (drop start ex). pfam e = pfam inc"
    unfolding d using ci by (auto intro: canonical_subseq)
  let ?seg = "takeWhile (\<lambda>e. addr_Compare (pAddr e) (prefixEnd inc) \<le> 0) (drop start ex)"
  have seg: "go_slice ex start end' = ?seg" "start = end' \<longleftrightarrow> ?seg = []"
    unfolding end'_def using skip_started_take [of start ex "prefixEnd inc"] by auto
  have "upward (\<lambda>e. phi inc < plo e) (drop start ex)"
  proof -
    have "sorted_wrt (\<lambda>x y. phi x < plo y) (drop start ex)"
      using cs by (auto simp: canonical_def pbefore_def elim: sorted_wrt_mono_rel [rotated])
    then show ?thesis
      unfolding upward_def
      by (rule sorted_wrt_mono_rel [rotated]) (metis less_trans less_le_trans plo_le_phi)
  qed
  then have "takeWhile (\<lambda>e. \<not> phi inc < plo e) (drop start ex) = filter (\<lambda>e. \<not> phi inc < plo e) (drop start ex)"
    by (rule takeWhile_upward)
  moreover have "?seg = takeWhile (\<lambda>e. \<not> phi inc < plo e) (drop start ex)"
    using cs ok by (intro takeWhile_cong) (auto simp: prefixEnd_Compare canonical_ok)
  ultimately have o: "?seg = overlapping inc (drop i ex)"
    by (simp add: d overlapping_def not_less conj_commute)
  have co: "canonical ?seg" "\<forall>e\<in>set ?seg. pfam e = pfam inc"
    unfolding o overlapping_def using ci by (auto intro: canonical_subseq)
  have cov: "prefix_Contains inc a \<Longrightarrow> covers ?seg a = covers (drop i ex) a" for a
    unfolding o by (rule covers_overlapping [OF ok ci(1)])
  show "\<exists>ds. (if start = end' then result @ [inc] else subtractNode inc (go_slice ex start end') result)
           = result @ ds \<and> diff_of inc (drop i ex) ds"
  proof (cases "start = end'")
    case True
    then have "?seg = []" using seg by simp
    then have "diff_of inc (drop i ex) [inc]"
      using ok cov by (auto simp: diff_of_def canonical_Cons)
    then show ?thesis using True by auto
  next
    case False
    obtain ds where "subtractNode inc ?seg result = result @ ds" "diff_of inc ?seg ds"
      using subtractNode_correct [OF ok co] by blast
    then show ?thesis using False seg diff_of_subset [OF _ cov] by auto
  qed
qed

lemma processFamily_correct:
  assumes "canonical incs" "canonical ex" "\<forall>p\<in>set incs \<union> set ex. pfam p = w"
  shows "\<exists>ds. processFamily incs ex i result = result @ ds \<and> canonical ds \<and>
    (\<forall>d\<in>set ds. pfam d = w \<and> (\<exists>p\<in>set incs. plo p \<le> plo d \<and> phi d \<le> phi p)) \<and>
    (\<forall>a. covers ds a \<longleftrightarrow> covers incs a \<and> \<not> covers (drop i ex) a)"
  using assms
proof (induction incs arbitrary: i result)
  case Nil
  then show ?case by simp
next
  case (Cons inc incs)
  let ?start = "skip_ended ex (pAddr inc) i"
  have ok: "pfx_ok inc" and c: "canonical incs" and before: "\<forall>q\<in>set incs. phi inc < plo q"
    and fam: "\<forall>e\<in>set ex. pfam e = pfam inc" "pfam inc = w"
    using Cons.prems by (auto simp: canonical_Cons pbefore_def)
  note step = processFamily_step [OF ok Cons.prems(2) fam(1), of i]
  obtain ds where ds: "processFamily (inc # incs) ex i result = processFamily incs ex ?start (result @ ds)"
    "diff_of inc (drop i ex) ds"
    using step(2) [of result] by (auto simp: Let_def)
  obtain es where es: "processFamily incs ex ?start (result @ ds) = (result @ ds) @ es" "canonical es"
    "\<forall>d\<in>set es. pfam d = w \<and> (\<exists>p\<in>set incs. plo p \<le> plo d \<and> phi d \<le> phi p)"
    "\<forall>a. covers es a \<longleftrightarrow> covers incs a \<and> \<not> covers (drop ?start ex) a"
    using Cons.IH [OF c Cons.prems(2)] Cons.prems(3) by fastforce
  have "covers (drop ?start ex) a = covers (drop i ex) a" if "covers incs a" for a
  proof -
    have "plo inc \<le> phi e" if "e \<in> set (drop i ex)" "prefix_Contains e a" for e
    proof -
      obtain q where q: "q \<in> set incs" "prefix_Contains q a" using \<open>covers incs a\<close> by (auto simp: covers_def)
      then have "plo q \<le> aval a" "aval a \<le> phi e" "phi inc < plo q"
        using that c Cons.prems(2) before
        by (auto simp: prefix_Contains_iff canonical_ok dest!: in_set_dropD)
      then show ?thesis using plo_le_phi [of inc] by linarith
    qed
    then show ?thesis unfolding step(1) by (auto simp: covers_def)
  qed
  then have cov: "covers (ds @ es) a \<longleftrightarrow> covers (inc # incs) a \<and> \<not> covers (drop i ex) a" for a
    using ds(2) es(4) by (auto simp: diff_of_def)
  have "pbefore d q" if "d \<in> set ds" "q \<in> set es" for d q
  proof -
    have "pfam d = pfam q" "phi d \<le> phi inc" using that ds(2) es(3) fam(2) by (auto simp: diff_of_def)
    moreover have "phi inc < plo q" using that es(3) before by (metis less_le_trans)
    ultimately show ?thesis by (simp add: pbefore_def)
  qed
  then have "canonical (ds @ es)" using ds(2) es(2) by (auto simp: canonical_append diff_of_def)
  moreover have "\<forall>d\<in>set (ds @ es). pfam d = w \<and> (\<exists>p\<in>set (inc # incs). plo p \<le> plo d \<and> phi d \<le> phi p)"
    using ds(2) es(3) fam(2) by (auto simp: diff_of_def)
  ultimately show ?case using ds(1) es(1) cov by auto
qed

lemma set_Difference_correct:
  assumes i: "set_ok i" and e: "set_ok e"
  shows "set_ok (set_Difference i e)" and "member (set_Difference i e) a \<longleftrightarrow> member i a \<and> \<not> member e a"
proof -
  have c: "canonical (prefixes i)" "canonical (prefixes e)" using i e by (auto simp: set_ok_def)
  have fam4: "pfam p = 32 \<longleftrightarrow> Is4 (pAddr p)" and fam6: "pfam p = 128 \<longleftrightarrow> Is6 (pAddr p)" if "pfx_ok p" for p
    using pfam_cases [OF that] by auto
  let ?i4 = "take (v6Start i) (prefixes i)" and ?e4 = "take (v6Start e) (prefixes e)"
  let ?i6 = "drop (v6Start i) (prefixes i)" and ?e6 = "drop (v6Start e) (prefixes e)"
  have f4: "\<forall>p\<in>set ?i4 \<union> set ?e4. pfam p = 32"
    unfolding set_ok_split [OF i] set_ok_split [OF e] using c fam4 by (auto simp: canonical_ok)
  have f6: "\<forall>p\<in>set ?i6 \<union> set ?e6. pfam p = 128"
    unfolding set_ok_split [OF i] set_ok_split [OF e] using c fam6 by (auto simp: canonical_ok)
  obtain d4 where d4: "processFamily ?i4 ?e4 0 [] = d4" "canonical d4" "\<forall>d\<in>set d4. pfam d = 32"
    "\<And>a. covers d4 a \<longleftrightarrow> covers ?i4 a \<and> \<not> covers ?e4 a"
    using processFamily_correct [OF canonical_take [OF c(1)] canonical_take [OF c(2)] f4, of 0 "[]"] by auto
  obtain d6 where d6: "processFamily ?i6 ?e6 0 d4 = d4 @ d6" "canonical d6" "\<forall>d\<in>set d6. pfam d = 128"
    "\<And>a. covers d6 a \<longleftrightarrow> covers ?i6 a \<and> \<not> covers ?e6 a"
    using processFamily_correct [OF canonical_drop [OF c(1)] canonical_drop [OF c(2)] f6, of 0 d4] by auto
  have cd: "canonical (d4 @ d6)" using d4 d6 by (auto simp: canonical_append pbefore_def)
  have split: "covers (prefixes x) a \<longleftrightarrow> covers (take (v6Start x) (prefixes x)) a \<or> covers (drop (v6Start x) (prefixes x)) a"
    for x a by (metis append_take_drop_id covers_append)
  have fc: "covers ps a \<Longrightarrow> canonical ps \<Longrightarrow> \<forall>p\<in>set ps. pfam p = w \<Longrightarrow> BitLen a = w" for ps a w
    by (auto simp: covers_def prefix_Contains_iff canonical_ok)
  have cov: "covers (d4 @ d6) a \<longleftrightarrow> member i a \<and> \<not> member e a" for a
    using d4(4) [of a] d6(4) [of a] fc [of ?i4 a 32] fc [of ?e4 a 32] fc [of ?i6 a 128] fc [of ?e6 a 128]
      f4 f6 c split [of i a] split [of e a]
    by (auto simp: member_def canonical_take canonical_drop)
  have "set_ok (set_Difference i e) \<and> (member (set_Difference i e) a \<longleftrightarrow> member i a \<and> \<not> member e a)"
  proof (cases "prefixes i = [] \<or> prefixes e = []")
    case True
    then show ?thesis
      using c fromCanonical_ok(1) [OF c(1)]
      by (auto simp: set_Difference_def member_def [of i] member_def [of e])
  next
    case False
    then have "set_Difference i e = fromCanonical (d4 @ d6)"
      using d4(1) d6(1) by (simp add: set_Difference_def Let_def)
    then show ?thesis using cd cov fromCanonical_ok(1) by simp
  qed
  then show "set_ok (set_Difference i e)" "member (set_Difference i e) a \<longleftrightarrow> member i a \<and> \<not> member e a"
    by auto
qed
lemma set_New_Inl:
  "set_New ps = Inl (k, e) \<longleftrightarrow>
     k < length ps \<and> prefix_validate (ps ! k) = Some e \<and> (\<forall>j<k. prefix_validate (ps ! j) = None)"
proof -
  have "set_New ps = Inl (k, e) \<longleftrightarrow> normalize_loop 0 ps = Inl (k, e)"
    by (auto simp: set_New_def Normalize_def split: sum.splits)
  also have "\<dots> \<longleftrightarrow> k < length ps \<and> prefix_validate (ps ! k) = Some e \<and> (\<forall>j<k. prefix_validate (ps ! j) = None)"
  proof
    show "normalize_loop 0 ps = Inl (k, e) \<Longrightarrow>
      k < length ps \<and> prefix_validate (ps ! k) = Some e \<and> (\<forall>j<k. prefix_validate (ps ! j) = None)"
      using normalize_loop_Inl [of 0 ps k e] by simp
    assume R: "k < length ps \<and> prefix_validate (ps ! k) = Some e \<and> (\<forall>j<k. prefix_validate (ps ! j) = None)"
    show "normalize_loop 0 ps = Inl (k, e)"
    proof (cases "normalize_loop 0 ps")
      case (Inl d)
      obtain k' e' where d: "d = (k', e')" by fastforce
      with normalize_loop_Inl [of 0 ps k' e'] Inl
      have L: "prefix_validate (ps ! k') = Some e'" "\<forall>j<k'. prefix_validate (ps ! j) = None" by auto
      then have "k' = k" using R by (metis nat_neq_iff option.distinct(1))
      then show ?thesis using L R Inl d by simp
    next
      case (Inr ms)
      then have "prefix_validate (ps ! k) = None" using R by (auto simp: normalize_loop_Inr)
      then show ?thesis using R by simp
    qed
  qed
  finally show ?thesis .
qed
section \<open>The contract of the package\<close>

text \<open>
  What the policy compiler and the address classifier rely on: union, difference and the
  family views act on the represented addresses as the set operations do, and keep the
  invariant.
\<close>

locale address_sets =
  fixes ok :: "'s \<Rightarrow> bool"
    and mem :: "'s \<Rightarrow> addr \<Rightarrow> bool"
    and union :: "'s list \<Rightarrow> 's"
    and diff :: "'s \<Rightarrow> 's \<Rightarrow> 's"
    and v4 :: "'s \<Rightarrow> 's"
    and v6 :: "'s \<Rightarrow> 's"
  assumes union_ok: "\<forall>s\<in>set ss. ok s \<Longrightarrow> ok (union ss)"
    and union_mem: "\<forall>s\<in>set ss. ok s \<Longrightarrow> mem (union ss) a \<longleftrightarrow> (\<exists>s\<in>set ss. mem s a)"
    and diff_ok: "ok s \<Longrightarrow> ok t \<Longrightarrow> ok (diff s t)"
    and diff_mem: "ok s \<Longrightarrow> ok t \<Longrightarrow> mem (diff s t) a \<longleftrightarrow> mem s a \<and> \<not> mem t a"
    and v4_ok: "ok s \<Longrightarrow> ok (v4 s)"
    and v4_mem: "ok s \<Longrightarrow> mem (v4 s) a \<longleftrightarrow> Is4 a \<and> mem s a"
    and v6_ok: "ok s \<Longrightarrow> ok (v6 s)"
    and v6_mem: "ok s \<Longrightarrow> mem (v6 s) a \<longleftrightarrow> Is6 a \<and> mem s a"
begin

text \<open>Include-union minus exclude-union, the effective membership of a policy.\<close>

lemma effective_ok:
  "\<forall>s\<in>set is \<union> set es. ok s \<Longrightarrow> ok (diff (union is) (union es))"
  by (simp add: diff_ok union_ok)

lemma effective_mem:
  "\<forall>s\<in>set is \<union> set es. ok s \<Longrightarrow>
     mem (diff (union is) (union es)) a \<longleftrightarrow> (\<exists>s\<in>set is. mem s a) \<and> \<not> (\<exists>s\<in>set es. mem s a)"
  by (simp add: diff_mem union_ok union_mem)

text \<open>A base set with holes, some of which are restored.\<close>

lemma restored_ok: "ok b \<Longrightarrow> ok e \<Longrightarrow> ok r \<Longrightarrow> ok (union [diff b e, r])"
  by (intro union_ok) (simp add: diff_ok)

lemma restored_mem:
  "ok b \<Longrightarrow> ok e \<Longrightarrow> ok r \<Longrightarrow> mem (union [diff b e, r]) a \<longleftrightarrow> mem b a \<and> \<not> mem e a \<or> mem r a"
  by (simp add: union_mem diff_ok diff_mem)

lemma union2_ok: "ok s \<Longrightarrow> ok t \<Longrightarrow> ok (union [s, t])"
  by (intro union_ok) simp

lemma union2_mem: "ok s \<Longrightarrow> ok t \<Longrightarrow> mem (union [s, t]) a \<longleftrightarrow> mem s a \<or> mem t a"
  by (simp add: union_mem)

end

interpretation prefix_sets: address_sets set_ok member set_Union set_Difference set_IPv4 set_IPv6
  by unfold_locales
    (simp_all add: set_Union_ok set_Difference_correct set_IPv4_ok set_IPv6_ok)

section \<open>Properties\<close>

text \<open>
  (C8) Whatever prefixes \<open>New\<close> accepts, the set it returns is well formed and contains
  exactly the addresses of the given prefixes.
\<close>

theorem New_exact:
  assumes "set_New values = Inr s"
  shows "set_ok s \<and> (\<forall>a. member s a \<longleftrightarrow> covers values a)"
  using set_New_ok [OF assms] set_New_member [OF assms] by blast

theorem New_exact_witness:
  "set_ok (fromCanonical [Prefix (IP4 0x0A000000) 9]) \<and>
   (\<forall>a. member (fromCanonical [Prefix (IP4 0x0A000000) 9]) a \<longleftrightarrow>
        covers [Prefix (IP4 0x0A000105) 25, Prefix (IP4 0x0A000001) 9] a)"
proof -
  have "set_New [Prefix (IP4 0x0A000105) 25, Prefix (IP4 0x0A000001) 9] =
      Inr (fromCanonical [Prefix (IP4 0x0A000000) 9])"
    by code_simp
  then show ?thesis by (rule New_exact)
qed

text \<open>
  \<open>New\<close> fails exactly when some prefix is invalid, and its error names the first
  invalid one: its index and the reason.
\<close>

theorem New_error:
  "set_New values = Inl (k, e) \<longleftrightarrow>
     k < length values \<and> prefix_validate (values ! k) = Some e \<and>
     (\<forall>j. j < k \<longrightarrow> prefix_validate (values ! j) = None)"
  using set_New_Inl by blast

theorem New_error_witness:
  "set_New [Prefix (IP4 1) 33, Prefix (IP4 1) 0] = Inl (1, Invalid_prefix_length (- 1))"
  unfolding New_error by code_simp

text \<open>
  (C7) The binary search of \<open>Contains\<close> decides membership: on a well-formed set it
  agrees with the linear scan of the prefixes, for every address, invalid and scoped ones
  included.
\<close>

theorem Contains_search:
  assumes "set_ok s"
  shows "set_Contains s a \<longleftrightarrow> (\<exists>p\<in>set (prefixes s). prefix_Contains p a)"
  using set_Contains_member [OF assms, of a] by (simp add: member_def covers_def)

theorem Contains_search_witness:
  "set_Contains (fromCanonical [Prefix (IP4 0x0A000000) 9, Prefix (IP4 0x0B000000) 33]) (IP4 0x0A010203)
   \<longleftrightarrow> (\<exists>p\<in>set (prefixes (fromCanonical [Prefix (IP4 0x0A000000) 9, Prefix (IP4 0x0B000000) 33])).
         prefix_Contains p (IP4 0x0A010203))"
proof -
  have "set_New [Prefix (IP4 0x0A000000) 9, Prefix (IP4 0x0B000000) 33] =
      Inr (fromCanonical [Prefix (IP4 0x0A000000) 9, Prefix (IP4 0x0B000000) 33])" by code_simp
  then show ?thesis by (intro Contains_search set_New_ok)
qed

text \<open>
  (C9) \<open>Union\<close> of well-formed sets is well formed and contains an address exactly when
  one of the sets does.
\<close>

theorem Union_exact:
  assumes "\<forall>s\<in>set sets. set_ok s"
  shows "set_ok (set_Union sets) \<and> (\<forall>a. member (set_Union sets) a \<longleftrightarrow> (\<exists>s\<in>set sets. member s a))"
  using prefix_sets.union_ok [OF assms] prefix_sets.union_mem [OF assms] by blast

theorem Union_exact_witness:
  "set_ok (set_Union [fromCanonical [Prefix (IP4 0) 2], empty_set]) \<and>
   (\<forall>a. member (set_Union [fromCanonical [Prefix (IP4 0) 2], empty_set]) a \<longleftrightarrow>
     (\<exists>s\<in>set [fromCanonical [Prefix (IP4 0) 2], empty_set]. member s a))"
proof -
  have "set_New [Prefix (IP4 0) 2] = Inr (fromCanonical [Prefix (IP4 0) 2])" by code_simp
  then have "\<forall>s\<in>set [fromCanonical [Prefix (IP4 0) 2], empty_set]. set_ok s"
    using set_New_ok by simp
  then show ?thesis by (rule Union_exact)
qed

text \<open>
  (C6) \<open>Difference\<close> is exact: the recursive subtraction returns a well-formed set that
  contains an address exactly when the include set does and the exclude set does not, in
  both families.
\<close>

theorem Difference_exact:
  assumes "set_ok include" "set_ok exclude"
  shows "set_ok (set_Difference include exclude) \<and>
    (\<forall>a. member (set_Difference include exclude) a \<longleftrightarrow> member include a \<and> \<not> member exclude a)"
  using prefix_sets.diff_ok [OF assms] prefix_sets.diff_mem [OF assms] by blast

theorem Difference_exact_witness:
  "set_Difference (fromCanonical [Prefix (IP4 8) 31]) (fromCanonical [Prefix (IP4 10) 33])
     = fromCanonical [Prefix (IP4 8) 32, Prefix (IP4 11) 33] \<and>
   set_ok (set_Difference (fromCanonical [Prefix (IP4 8) 31]) (fromCanonical [Prefix (IP4 10) 33])) \<and>
   (\<forall>a. member (set_Difference (fromCanonical [Prefix (IP4 8) 31]) (fromCanonical [Prefix (IP4 10) 33])) a
     \<longleftrightarrow> member (fromCanonical [Prefix (IP4 8) 31]) a \<and> \<not> member (fromCanonical [Prefix (IP4 10) 33]) a)"
proof -
  have "set_New [Prefix (IP4 8) 31] = Inr (fromCanonical [Prefix (IP4 8) 31])"
    "set_New [Prefix (IP4 10) 33] = Inr (fromCanonical [Prefix (IP4 10) 33])" by code_simp+
  then have "set_ok (fromCanonical [Prefix (IP4 8) 31])" "set_ok (fromCanonical [Prefix (IP4 10) 33])"
    using set_New_ok by blast+
  moreover have "set_Difference (fromCanonical [Prefix (IP4 8) 31]) (fromCanonical [Prefix (IP4 10) 33])
     = fromCanonical [Prefix (IP4 8) 32, Prefix (IP4 11) 33]" by code_simp
  ultimately show ?thesis using Difference_exact by blast
qed

end
