(* ===== verification/Prefix_Range.thy ===== *)
theory Prefix_Range
  imports Prefix_Set
begin

text \<open>
  \<open>internal/prefix/range.go\<close>: the minimal list of blocks for an inclusive address range.

  \<open>AppendRange\<close> is an endless loop with a return inside, and the loop that shrinks the
  block has no bound of its own, so both are \<open>partial_function (option)\<close>: not returning is
  \<open>None\<close>. The lemmas show that both return for every range the guard admits, that the
  byte arithmetic of \<open>rangeLast\<close> yields the last address of a block, that the two
  trailing-zero counts yield the alignment of an address, and that the blocks found are the
  maximal ones, which makes the cover exact and minimal.
\<close>

section \<open>The loop over aligned blocks\<close>

text \<open>\<open>math/bits.TrailingZeros64\<close>: 64 for the zero word.\<close>

definition TrailingZeros64 :: "64 word \<Rightarrow> nat" where
  "TrailingZeros64 w = length (takeWhile (\<lambda>i. \<not> bit w i) [0..<64])"

definition fill_bytes :: "nat \<Rightarrow> 8 word list \<Rightarrow> 8 word list" where
  "fill_bytes boundary bytes =
     (let (bytes, boundary) =
        (if boundary mod 8 \<noteq> 0
         then (bytes[boundary div 8 := bytes ! (boundary div 8) OR drop_bit (boundary mod 8) 0xff],
               boundary + (8 - boundary mod 8))
         else (bytes, boundary))
      in take (boundary div 8) bytes @ replicate (length bytes - boundary div 8) 0xff)"

definition rangeLast :: "prefix \<Rightarrow> addr" where
  "rangeLast p =
     (let offset = (if Is4 (pAddr p) then 96 else 0);
          bytes = fill_bytes (offset + nat (prefix_Bits p)) (As16 (pAddr p))
      in if Is4 (pAddr p) then AddrFrom4 (drop 12 bytes) else AddrFrom16 bytes)"

definition range_trailing :: "addr \<Rightarrow> nat" where
  "range_trailing start =
     (let raw = As16 start;
          low = TrailingZeros64 (be_word (drop 8 raw));
          trailing = (if low = 64 then low + TrailingZeros64 (be_word (take 8 raw)) else low)
      in min trailing (BitLen start))"

partial_function (option) range_shrink :: "addr \<Rightarrow> addr \<Rightarrow> int \<Rightarrow> prefix \<Rightarrow> addr \<Rightarrow> (prefix \<times> addr) option" where
  "range_shrink start end' length' block last' =
     (if addr_Compare last' end' > 0
      then let block = PrefixFrom start (length' + 1)
           in range_shrink start end' (length' + 1) block (rangeLast block)
      else Some (block, last'))"

partial_function (option) range_loop :: "prefix list \<Rightarrow> addr \<Rightarrow> addr \<Rightarrow> prefix list option" where
  "range_loop result start end' =
     (let length' = int (BitLen start) - int (range_trailing start);
          block = PrefixFrom start length'
      in Option.bind (range_shrink start end' length' block (rangeLast block))
           (\<lambda>r. let result = result @ [fst r] in
                if snd r = end' then Some result else range_loop result (Next (snd r)) end'))"

datatype range_error = Invalid_inclusive_range

text \<open>The outer \<open>option\<close> is None when the loop does not return.\<close>

definition AppendRange :: "prefix list \<Rightarrow> addr \<Rightarrow> addr \<Rightarrow> (range_error + prefix list) option" where
  "AppendRange result start end' =
     (if \<not> addr_IsValid start \<or> \<not> addr_IsValid end' \<or> Zone start \<noteq> '''' \<or> Zone end' \<noteq> '''' \<or>
         Is4In6 start \<or> Is4In6 end' \<or> BitLen start \<noteq> BitLen end' \<or> addr_Compare start end' > 0
      then Some (Inl Invalid_inclusive_range)
      else map_option Inr (range_loop result start end'))"

definition Range :: "addr \<Rightarrow> addr \<Rightarrow> (range_error + prefix list) option" where
  "Range start end' = AppendRange [] start end'"

declare range_shrink.simps [code] range_loop.simps [code]

section \<open>The last address of a block\<close>

lemma length_fill_bytes: "b \<le> 8 * length bs \<Longrightarrow> length (fill_bytes b bs) = length bs"
proof -
  assume b: "b \<le> 8 * length bs"
  obtain q r where qr: "b = 8 * q + r" "r < 8" by (metis mult_div_mod_eq mod_less_divisor zero_less_numeral)
  then have d: "b div 8 = q" "b mod 8 = r" by simp_all
  show ?thesis
  proof (cases "r = 0")
    case True
    then show ?thesis using b qr by (simp add: fill_bytes_def d)
  next
    case False
    have "b + (8 - r) = 8 * Suc q" using qr by simp
    then have e: "(b + (8 - r)) div 8 = Suc q" by (simp only: nonzero_mult_div_cancel_left)
    have "Suc q \<le> length bs" using b qr False by simp
    then show ?thesis using False by (simp add: fill_bytes_def d e)
  qed
qed

lemma bit_byte_ones: "bit (0xff :: 8 word) m \<longleftrightarrow> m < 8"
proof -
  have "(0xff :: 8 word) = mask 8" by (simp add: mask_eq_exp_minus_1)
  then show ?thesis by (simp only: bit_mask_iff) auto
qed

lemma bit_fill_bytes:
  assumes "b \<le> 8 * length bs" "j < length bs" "m < 8"
  shows "bit (fill_bytes b bs ! j) m \<longleftrightarrow> bit (bs ! j) m \<or> b \<le> 8 * j + (7 - m)"
proof -
  obtain q r where qr: "b = 8 * q + r" "r < 8" by (metis mult_div_mod_eq mod_less_divisor zero_less_numeral)
  then have d: "b div 8 = q" "b mod 8 = r" by simp_all
  show ?thesis
  proof (cases "r = 0")
    case True
    have "b \<le> 8 * j + (7 - m) \<longleftrightarrow> q \<le> j" using qr True by auto
    then show ?thesis
      using assms qr True bit_byte_ones [of m]
      by (cases "j < q") (simp_all add: fill_bytes_def d nth_append)
  next
    case False
    have "b + (8 - r) = 8 * Suc q" using qr by simp
    then have e: "(b + (8 - r)) div 8 = Suc q" by (simp only: nonzero_mult_div_cancel_left)
    have l: "Suc q \<le> length bs" using assms qr False by simp
    have f: "fill_bytes b bs = take (Suc q) (bs[q := bs ! q OR drop_bit r 0xff]) @ replicate (length bs - Suc q) 0xff"
      using False by (simp add: fill_bytes_def d e)
    consider "j < q" | "j = q" | "q < j" by linarith
    then show ?thesis
    proof cases
      case 1
      then have "\<not> b \<le> 8 * j + (7 - m)" using qr by linarith
      then show ?thesis using 1 l unfolding f by (simp add: nth_append)
    next
      case 2
      have "b \<le> 8 * j + (7 - m) \<longleftrightarrow> r + m < 8" using qr 2 assms(3) by auto
      then show ?thesis using 2 l bit_byte_ones [of "r + m"] unfolding f
        by (simp add: nth_append bit_or_iff bit_drop_bit_eq)
    next
      case 3
      then have "b \<le> 8 * j + (7 - m)" using qr by simp
      then show ?thesis using 3 assms l bit_byte_ones [of m] unfolding f by (simp add: nth_append)
    qed
  qed
qed

lemma byte_position:
  assumes "k < 8 * n"
  shows "n - Suc (k div 8) < n" "8 * (n - Suc (k div 8)) + (7 - k mod 8) = 8 * n - Suc k"
    "Suc (k div 8) \<le> n"
proof -
  obtain q r where qr: "k = 8 * q + r" "r < 8" by (metis mult_div_mod_eq mod_less_divisor zero_less_numeral)
  then have d: "k div 8 = q" "k mod 8 = r" by simp_all
  have "q < n" using assms qr by simp
  then obtain s where n: "n = Suc (q + s)" by (metis less_iff_Suc_add)
  show "n - Suc (k div 8) < n" "8 * (n - Suc (k div 8)) + (7 - k mod 8) = 8 * n - Suc k"
    "Suc (k div 8) \<le> n"
    unfolding d n using qr by simp_all
qed

lemma bit_be_word_fill:
  assumes "b \<le> 8 * length bs" "k < LENGTH('a::len)" "k < 8 * length bs"
  shows "bit (be_word (fill_bytes b bs) :: 'a word) k \<longleftrightarrow>
    bit (be_word bs :: 'a word) k \<or> k < 8 * length bs - b"
proof -
  note pos = byte_position [OF assms(3)]
  have "bit (be_word (fill_bytes b bs) :: 'a word) k \<longleftrightarrow>
      bit (fill_bytes b bs ! (length bs - Suc (k div 8))) (k mod 8)"
    using assms by (simp only: bit_be_word length_fill_bytes simp_thms)
  also have "\<dots> \<longleftrightarrow> bit (bs ! (length bs - Suc (k div 8))) (k mod 8) \<or> b \<le> 8 * length bs - Suc k"
    using bit_fill_bytes [OF assms(1) pos(1), of "k mod 8"] unfolding pos(2) by simp
  also have "\<dots> \<longleftrightarrow> bit (be_word bs :: 'a word) k \<or> b \<le> 8 * length bs - Suc k"
    using assms by (simp only: bit_be_word simp_thms)
  also have "b \<le> 8 * length bs - Suc k \<longleftrightarrow> k < 8 * length bs - b" using assms by linarith
  finally show ?thesis .
qed

lemma be_word_drop:
  assumes "length bs = m + n" "8 * n = LENGTH('a::len)"
  shows "be_word (drop m bs) = (be_word bs :: 'a word)"
proof (rule bit_eqI)
  fix k assume "possible_bit TYPE('a word) k"
  then have k: "k < 8 * n" "k < 8 * (m + n)" "k < LENGTH('a)" using assms by auto
  have "length (drop m bs) = n" using assms by simp
  moreover have "drop m bs ! (n - Suc (k div 8)) = bs ! (m + n - Suc (k div 8))"
    using byte_position(1,3) [OF k(1)] assms by (simp add: add_diff_assoc)
  ultimately show "bit (be_word (drop m bs) :: 'a word) k \<longleftrightarrow> bit (be_word bs :: 'a word) k"
    using k assms(1) by (simp only: bit_be_word simp_thms)
qed

lemma be_word_bytes_low:
  assumes "LENGTH('a::len) \<le> 8 * n" "8 * n = LENGTH('b::len)"
  shows "be_word (be_bytes n (w :: 'b word)) = (ucast w :: 'a word)"
proof (rule bit_eqI)
  fix k assume "possible_bit TYPE('a word) k"
  then have k: "k < LENGTH('a)" "k < LENGTH('b)" "k < 8 * n" using assms by auto
  have "bit (be_word (be_bytes n w) :: 'a word) k \<longleftrightarrow> bit (be_word (be_bytes n w) :: 'b word) k"
    using k by (simp only: bit_be_word length_be_bytes simp_thms)
  also have "\<dots> \<longleftrightarrow> bit w k" by (simp add: be_word_be_bytes assms(2))
  also have "\<dots> \<longleftrightarrow> bit (ucast w :: 'a word) k" using k by (simp add: bit_ucast_iff)
  finally show "bit (be_word (be_bytes n w) :: 'a word) k \<longleftrightarrow> bit (ucast w :: 'a word) k" .
qed

lemma ucast_mapped: "ucast (0xffff00000000 OR ucast v :: 128 word) = (v :: 32 word)"
proof (rule bit_eqI)
  fix k assume "possible_bit TYPE(32 word) k"
  then have k: "k < 32" by simp
  have "(0xffff00000000 :: 128 word) = push_bit 32 0xffff" by simp
  then show "bit (ucast (0xffff00000000 OR ucast v :: 128 word) :: 32 word) k \<longleftrightarrow> bit v k"
    using k by (simp only: bit_ucast_iff bit_or_iff bit_push_bit_iff) simp
qed

lemma fill_bytes_mask:
  assumes "b \<le> 8 * length bs" "8 * length bs = m + LENGTH('a::len)" "m \<le> b"
  shows "be_word (fill_bytes b bs) = (be_word bs OR mask (8 * length bs - b) :: 'a word)"
proof (rule bit_eqI)
  fix k assume "possible_bit TYPE('a word) k"
  then have "k < LENGTH('a)" "k < 8 * length bs" using assms by auto
  then show "bit (be_word (fill_bytes b bs) :: 'a word) k \<longleftrightarrow>
      bit (be_word bs OR mask (8 * length bs - b) :: 'a word) k"
    by (simp only: bit_be_word_fill [OF assms(1)] bit_or_iff bit_mask_iff possible_bit_word simp_thms)
qed

lemma rangeLast_correct:
  assumes "pfx_ok p"
  shows "addr_ok (rangeLast p)" and "BitLen (rangeLast p) = pfam p" and "aval (rangeLast p) = phi p"
proof -
  note ok = pfx_okD [OF assms]
  have b: "nat (prefix_Bits p) = plen p" using ok by simp
  have al: "2 ^ (pfam p - plen p) dvd aval (pAddr p)" using ok(6) by (simp add: psize_def plo_def)
  have "addr_ok (rangeLast p) \<and> BitLen (rangeLast p) = pfam p \<and> aval (rangeLast p) = phi p"
  proof (cases "pAddr p")
    case (IP4 v)
    then have l: "plen p \<le> 32" "2 ^ (32 - plen p) dvd unat v" using ok al by (auto simp: pfam_def)
    define bs where "bs = be_bytes 16 (0xffff00000000 OR ucast v :: 128 word)"
    have "be_word (drop 12 (fill_bytes (96 + plen p) bs)) = (be_word (fill_bytes (96 + plen p) bs) :: 32 word)"
      using l by (intro be_word_drop [where n = 4]) (simp_all add: length_fill_bytes bs_def)
    also have "\<dots> = be_word bs OR mask (32 - plen p)"
      using l fill_bytes_mask [of "96 + plen p" bs 96, where ?'a = 32] by (simp add: bs_def)
    also have "be_word bs = v" by (simp only: bs_def be_word_bytes_low ucast_mapped) (simp add: be_word_bytes_low ucast_mapped)
    finally show ?thesis
      using IP4 l unat_or_mask [of "32 - plen p" v]
      by (simp add: rangeLast_def Let_def b bs_def AddrFrom4_def addr_ok_def pfam_def phi_def plo_def psize_def)
  next
    case (IP6 v z)
    then have l: "plen p \<le> 128" "2 ^ (128 - plen p) dvd unat v" using ok al by (auto simp: pfam_def)
    have "be_word (fill_bytes (plen p) (be_bytes 16 v)) = v OR mask (128 - plen p)"
      using l fill_bytes_mask [of "plen p" "be_bytes 16 v" 0, where ?'a = 128] by (simp add: be_word_be_bytes)
    then show ?thesis
      using IP6 l unat_or_mask [of "128 - plen p" v]
      by (simp add: rangeLast_def Let_def b AddrFrom16_def addr_ok_def pfam_def phi_def plo_def psize_def)
  qed (use ok(2) in simp)
  then show "addr_ok (rangeLast p)" "BitLen (rangeLast p) = pfam p" "aval (rangeLast p) = phi p" by auto
qed

section \<open>The alignment of an address\<close>

definition first_bit :: "nat \<Rightarrow> 'a::len word \<Rightarrow> nat \<Rightarrow> bool" where
  "first_bit n w t = (t \<le> n \<and> (\<forall>i<t. \<not> bit w i) \<and> (t < n \<longrightarrow> bit w t))"

lemma TrailingZeros64_first: "first_bit 64 w (TrailingZeros64 w)"
proof -
  have le: "TrailingZeros64 w \<le> 64"
    using length_takeWhile_le [of _ "[0..<64]"] by (simp add: TrailingZeros64_def)
  have "\<not> bit w i" if "i < TrailingZeros64 w" for i
  proof -
    have "takeWhile (\<lambda>i. \<not> bit w i) [0..<64] ! i \<in> set (takeWhile (\<lambda>i. \<not> bit w i) [0..<64])"
      using that by (intro nth_mem) (simp add: TrailingZeros64_def)
    moreover have "takeWhile (\<lambda>i. \<not> bit w i) [0..<64] ! i = i"
      using that le by (subst takeWhile_nth) (simp_all add: TrailingZeros64_def)
    ultimately show ?thesis by (auto dest: set_takeWhileD)
  qed
  moreover have "bit w (TrailingZeros64 w)" if "TrailingZeros64 w < 64"
    using nth_length_takeWhile [of "\<lambda>i. \<not> bit w i" "[0..<64]"] that by (simp add: TrailingZeros64_def)
  ultimately show ?thesis using le by (simp add: first_bit_def)
qed

lemma dvd_unat_bits: "2 ^ k dvd unat (v :: 'a::len word) \<longleftrightarrow> (\<forall>i<k. \<not> bit v i)"
proof -
  have "2 ^ k dvd unat v \<longleftrightarrow> take_bit k (unat v) = 0"
    by (simp add: take_bit_eq_mod dvd_eq_mod_eq_0)
  also have "\<dots> \<longleftrightarrow> (\<forall>i. \<not> bit (take_bit k (unat v)) i)"
    by (metis bit_0_eq bit_eqI bot_apply bot_bool_def)
  also have "\<dots> \<longleftrightarrow> (\<forall>i<k. \<not> bit v i)"
    by (simp add: bit_take_bit_iff bit_unsigned_iff)
  finally show ?thesis .
qed

lemma first_bit_max: "first_bit n v t \<Longrightarrow> k \<le> n \<Longrightarrow> 2 ^ k dvd unat v \<Longrightarrow> k \<le> t"
  unfolding first_bit_def dvd_unat_bits by (meson leI less_le_trans)

lemma be_word_take:
  assumes "length bs = m + n" "8 * m = LENGTH('a::len)" "8 * (m + n) = LENGTH('b::len)"
  shows "be_word (take m bs) = (ucast (drop_bit (8 * n) (be_word bs :: 'b word)) :: 'a word)"
proof (rule bit_eqI)
  fix k assume "possible_bit TYPE('a word) k"
  then have k: "k < 8 * m" "8 * n + k < 8 * (m + n)" "k < LENGTH('a)" "8 * n + k < LENGTH('b)"
    using assms by auto
  have d: "(8 * n + k) div 8 = n + k div 8" "(8 * n + k) mod 8 = k mod 8" by simp_all
  have "length (take m bs) = m" using assms by simp
  moreover have "take m bs ! (m - Suc (k div 8)) = bs ! (m - Suc (k div 8))"
    using byte_position(1) [OF k(1)] by simp
  moreover have "m + n - Suc (n + k div 8) = m - Suc (k div 8)" by simp
  ultimately have "bit (be_word (take m bs) :: 'a word) k \<longleftrightarrow> bit (be_word bs :: 'b word) (8 * n + k)"
    using k assms(1) by (simp only: bit_be_word d simp_thms)
  then show "bit (be_word (take m bs) :: 'a word) k \<longleftrightarrow>
      bit (ucast (drop_bit (8 * n) (be_word bs :: 'b word)) :: 'a word) k"
    using k by (simp add: bit_ucast_iff bit_drop_bit_eq)
qed

lemma range_trailing_IP4: "first_bit 32 v (range_trailing (IP4 v))"
proof -
  define w :: "64 word" where "w = be_word (drop 8 (As16 (IP4 v)))"
  have "w = be_word (As16 (IP4 v))" unfolding w_def by (intro be_word_drop [where n = 8]) simp_all
  then have w: "w = ucast (0xffff00000000 OR ucast v :: 128 word)" by (simp add: be_word_bytes_low)
  have "(0xffff00000000 :: 128 word) = push_bit 32 0xffff" by simp
  then have bits: "bit w k \<longleftrightarrow> bit v k" if "k < 32" for k
    using that unfolding w by (simp only: bit_ucast_iff bit_or_iff bit_push_bit_iff) simp
  have "bit w 32" unfolding w by (simp add: bit_ucast_iff bit_or_iff bit_numeral_word_iff)
  moreover have f: "first_bit 64 w (TrailingZeros64 w)" by (rule TrailingZeros64_first)
  ultimately have le: "TrailingZeros64 w \<le> 32" by (auto simp: first_bit_def not_less [symmetric])
  then have "range_trailing (IP4 v) = TrailingZeros64 w"
    by (simp add: range_trailing_def Let_def w_def del: As16.simps)
  then show ?thesis using f le bits by (auto simp: first_bit_def)
qed

lemma range_trailing_IP6: "first_bit 128 v (range_trailing (IP6 v z))"
proof -
  define lo :: "64 word" where "lo = be_word (drop 8 (be_bytes 16 v))"
  define hi :: "64 word" where "hi = be_word (take 8 (be_bytes 16 v))"
  have lo: "lo = ucast v"
    unfolding lo_def by (subst be_word_drop [where n = 8]) (simp_all add: be_word_bytes_low)
  have hi: "hi = ucast (drop_bit 64 v)"
    unfolding hi_def by (subst be_word_take [where n = 8 and ?'b = 128]) (simp_all add: be_word_be_bytes)
  have bl: "bit lo k \<longleftrightarrow> bit v k" if "k < 64" for k using that by (simp add: lo bit_ucast_iff)
  have bh: "bit hi k \<longleftrightarrow> bit v (64 + k)" if "k < 64" for k
    using that by (simp add: hi bit_ucast_iff bit_drop_bit_eq)
  have fl: "first_bit 64 lo (TrailingZeros64 lo)" and fh: "first_bit 64 hi (TrailingZeros64 hi)"
    by (rule TrailingZeros64_first)+
  have t: "range_trailing (IP6 v z) =
      min (if TrailingZeros64 lo = 64 then 64 + TrailingZeros64 hi else TrailingZeros64 lo) 128"
    by (simp add: range_trailing_def Let_def lo_def hi_def)
  show ?thesis
  proof (cases "TrailingZeros64 lo = 64")
    case True
    then have t': "range_trailing (IP6 v z) = 64 + TrailingZeros64 hi"
      using fh unfolding t by (simp add: first_bit_def)
    have "\<not> bit v i" if "i < 64 + TrailingZeros64 hi" for i
    proof (cases "i < 64")
      case False
      then have "\<not> bit hi (i - 64)" "i - 64 < 64" using that fh by (auto simp: first_bit_def)
      then show ?thesis using bh [of "i - 64"] False by simp
    qed (use fl True bl in \<open>auto simp: first_bit_def\<close>)
    then show ?thesis using fh bh unfolding t' by (auto simp: first_bit_def)
  next
    case False
    then have "TrailingZeros64 lo < 64" using fl by (auto simp: first_bit_def)
    then show ?thesis using fl bl False unfolding t by (auto simp: first_bit_def)
  qed
qed

lemma range_trailing_correct:
  assumes "addr_IsValid a"
  shows "range_trailing a \<le> BitLen a" "2 ^ range_trailing a dvd aval a"
    "k \<le> BitLen a \<Longrightarrow> 2 ^ k dvd aval a \<Longrightarrow> k \<le> range_trailing a"
proof -
  show "range_trailing a \<le> BitLen a" "2 ^ range_trailing a dvd aval a"
    using assms range_trailing_IP4 range_trailing_IP6
    by (cases a; auto simp: first_bit_def dvd_unat_bits)+
  assume "k \<le> BitLen a" "2 ^ k dvd aval a"
  then show "k \<le> range_trailing a"
    using assms first_bit_max [OF range_trailing_IP4] first_bit_max [OF range_trailing_IP6]
    by (cases a) auto
qed

section \<open>Exactness and minimality of the cover\<close>

text \<open>The block of length \<open>l\<close> that starts at \<open>a\<close>.\<close>

lemma block_at:
  assumes "addr_ok a" "l \<le> BitLen a" "2 ^ (BitLen a - l) dvd aval a"
  defines "p \<equiv> PrefixFrom a (int l)"
  shows "pfx_ok p" "pfam p = BitLen a" "plen p = l" "plo p = aval a"
    "phi p = aval a + 2 ^ (BitLen a - l) - 1"
proof -
  have z: "withoutZone a = a" "addr_IsValid a" using assms(1) by (cases a; simp add: addr_ok_def)+
  then have p: "p = Prefix a (Suc l)" using assms(2) by (simp add: p_def PrefixFrom_def)
  show f: "pfam p = BitLen a" "plen p = l" "plo p = aval a" by (simp_all add: p pfam_def plen_def plo_def)
  then have s: "psize p = 2 ^ (BitLen a - l)" by (simp add: psize_def)
  show "pfx_ok p" unfolding pfx_ok_iff f s using assms(1-3) unfolding p by simp
  show "phi p = aval a + 2 ^ (BitLen a - l) - 1" by (simp add: phi_def f s)
qed

lemma range_shrink_returns:
  assumes a: "addr_ok a" and e: "addr_ok e" "BitLen e = BitLen a" "aval a \<le> aval e"
    and l: "l \<le> BitLen a" "2 ^ (BitLen a - l) dvd aval a"
  shows "\<exists>m. l \<le> m \<and> m \<le> BitLen a \<and>
    range_shrink a e (int l) (PrefixFrom a (int l)) (rangeLast (PrefixFrom a (int l))) =
      Some (PrefixFrom a (int m), rangeLast (PrefixFrom a (int m))) \<and>
    phi (PrefixFrom a (int m)) \<le> aval e \<and>
    (\<forall>k. l \<le> k \<longrightarrow> k < m \<longrightarrow> aval e < aval a + 2 ^ (BitLen a - k) - 1)"
  using l
proof (induction "BitLen a - l" arbitrary: l)
  case 0
  then have l: "l = BitLen a" by simp
  note b = block_at [OF a 0(2,3)]
  note r = rangeLast_correct [OF b(1)]
  have "\<not> 0 < addr_Compare (rangeLast (PrefixFrom a (int l))) e"
    using r b e l by (simp add: addr_Compare_simps)
  then show ?case using e b l by (intro exI [of _ l]) (simp add: range_shrink.simps)
next
  case (Suc n)
  note b = block_at [OF a Suc(3,4)]
  note r = rangeLast_correct [OF b(1)]
  show ?case
  proof (cases "phi (PrefixFrom a (int l)) \<le> aval e")
    case True
    then have "\<not> 0 < addr_Compare (rangeLast (PrefixFrom a (int l))) e"
      using r b e by (simp add: addr_Compare_simps)
    then show ?thesis using True Suc(3) by (intro exI [of _ l]) (simp add: range_shrink.simps)
  next
    case False
    then have gt: "0 < addr_Compare (rangeLast (PrefixFrom a (int l))) e"
      using r b e by (simp add: addr_Compare_simps)
    have l: "n = BitLen a - Suc l" "Suc l \<le> BitLen a" using Suc(2) by linarith+
    have "(2::nat) ^ (BitLen a - Suc l) dvd 2 ^ (BitLen a - l)" by (intro le_imp_power_dvd) simp
    then have "2 ^ (BitLen a - Suc l) dvd aval a" using Suc(4) by (rule dvd_trans)
    from Suc(1) [OF l this] obtain m where m: "Suc l \<le> m" "m \<le> BitLen a"
      "range_shrink a e (int (Suc l)) (PrefixFrom a (int (Suc l))) (rangeLast (PrefixFrom a (int (Suc l)))) =
        Some (PrefixFrom a (int m), rangeLast (PrefixFrom a (int m)))"
      "phi (PrefixFrom a (int m)) \<le> aval e"
      "\<forall>k. Suc l \<le> k \<longrightarrow> k < m \<longrightarrow> aval e < aval a + 2 ^ (BitLen a - k) - 1" by blast
    have "int (Suc l) = int l + 1" by simp
    then have "range_shrink a e (int l) (PrefixFrom a (int l)) (rangeLast (PrefixFrom a (int l))) =
        Some (PrefixFrom a (int m), rangeLast (PrefixFrom a (int m)))"
      using gt m(3) by (subst range_shrink.simps) (simp only: if_True Let_def)
    moreover have "\<forall>k. l \<le> k \<longrightarrow> k < m \<longrightarrow> aval e < aval a + 2 ^ (BitLen a - k) - 1"
    proof (intro allI impI)
      fix k assume k: "l \<le> k" "k < m"
      show "aval e < aval a + 2 ^ (BitLen a - k) - 1"
      proof (cases "k = l")
        case True
        then show ?thesis using False b(5) by simp
      qed (use k m(5) in simp)
    qed
    ultimately show ?thesis using m(1,2,4) by (intro exI [of _ m]) simp
  qed
qed

lemma range_block:
  assumes a: "addr_ok a" and e: "addr_ok e" "BitLen e = BitLen a" "aval a \<le> aval e"
  defines "l \<equiv> int (BitLen a) - int (range_trailing a)"
  shows "\<exists>p. range_shrink a e l (PrefixFrom a l) (rangeLast (PrefixFrom a l)) = Some (p, rangeLast p) \<and>
    pfx_ok p \<and> pfam p = BitLen a \<and> plo p = aval a \<and> phi p \<le> aval e \<and>
    (\<forall>q. pfx_ok q \<longrightarrow> pfam q = BitLen a \<longrightarrow> plo q = aval a \<longrightarrow> phi q \<le> aval e \<longrightarrow> phi q \<le> phi p)"
proof -
  have v: "addr_IsValid a" using a by (simp add: addr_ok_def)
  note t = range_trailing_correct [OF v]
  define k where "k = BitLen a - range_trailing a"
  have lk: "l = int k" and kf: "BitLen a - k = range_trailing a" "k \<le> BitLen a"
    using t(1) by (simp_all add: l_def k_def)
  have dv: "2 ^ (BitLen a - k) dvd aval a" using t(2) by (simp add: kf)
  obtain m where m: "k \<le> m" "m \<le> BitLen a"
    "range_shrink a e l (PrefixFrom a l) (rangeLast (PrefixFrom a l)) =
      Some (PrefixFrom a (int m), rangeLast (PrefixFrom a (int m)))"
    "phi (PrefixFrom a (int m)) \<le> aval e"
    "\<And>j. k \<le> j \<Longrightarrow> j < m \<Longrightarrow> aval e < aval a + 2 ^ (BitLen a - j) - 1"
    using range_shrink_returns [OF a e kf(2) dv] unfolding lk by blast
  have "(2::nat) ^ (BitLen a - m) dvd 2 ^ (BitLen a - k)" using m(1) by (intro le_imp_power_dvd) simp
  then have "2 ^ (BitLen a - m) dvd aval a" using dv by (rule dvd_trans)
  note b = block_at [OF a m(2) this]
  have "phi q \<le> phi (PrefixFrom a (int m))"
    if q: "pfx_ok q" "pfam q = BitLen a" "plo q = aval a" "phi q \<le> aval e" for q
  proof -
    note qok = pfx_okD [OF q(1)]
    have "2 ^ (BitLen a - plen q) dvd aval a" using qok(6) q by (simp add: psize_def)
    then have "BitLen a - plen q \<le> range_trailing a" by (intro t(3)) simp_all
    then have "k \<le> plen q" by (simp add: k_def)
    moreover have "phi q = aval a + 2 ^ (BitLen a - plen q) - 1" using q by (simp add: phi_def psize_def)
    ultimately have "m \<le> plen q" using m(5) [of "plen q"] q(4) by (cases "plen q < m") auto
    then show ?thesis using q b plo_le_phi [of "PrefixFrom a (int m)"] by (intro pfx_nested) simp_all
  qed
  then show ?thesis using m(3,4) b by blast
qed

text \<open>
  The maximal blocks inside an interval: disjoint and in order, inside the interval, covering
  it, and every block inside the interval lies inside one of them.
\<close>

definition block_cover :: "nat \<Rightarrow> nat \<Rightarrow> nat \<Rightarrow> prefix list \<Rightarrow> bool" where
  "block_cover f lo hi ps =
     (canonical ps \<and> (\<forall>p\<in>set ps. pfam p = f \<and> lo \<le> plo p \<and> phi p \<le> hi) \<and>
      (\<forall>x. lo \<le> x \<longrightarrow> x \<le> hi \<longrightarrow> (\<exists>p\<in>set ps. plo p \<le> x \<and> x \<le> phi p)) \<and>
      (\<forall>q. pfx_ok q \<longrightarrow> pfam q = f \<longrightarrow> lo \<le> plo q \<longrightarrow> phi q \<le> hi \<longrightarrow>
           (\<exists>p\<in>set ps. plo p \<le> plo q \<and> phi q \<le> phi p)))"

lemma block_cover_Cons:
  assumes p: "pfx_ok p" "phi p \<le> hi"
    and max: "\<forall>q. pfx_ok q \<longrightarrow> pfam q = pfam p \<longrightarrow> plo q = plo p \<longrightarrow> phi q \<le> hi \<longrightarrow> phi q \<le> phi p"
    and rest: "block_cover (pfam p) (Suc (phi p)) hi ps"
  shows "block_cover (pfam p) (plo p) hi (p # ps)"
proof -
  have pl: "plo p \<le> phi p" by (rule plo_le_phi)
  have "\<exists>p'\<in>set (p # ps). plo p' \<le> plo q \<and> phi q \<le> phi p'"
    if q: "pfx_ok q" "pfam q = pfam p" "plo p \<le> plo q" "phi q \<le> hi" for q
  proof (cases "plo q \<le> phi p")
    case True
    have "phi q \<le> phi p"
    proof (cases "plo q = plo p")
      case False
      then show ?thesis using pfx_nested_less(1) [OF p(1) q(1)] q True by simp
    qed (use max q in simp)
    then show ?thesis using q by auto
  next
    case False
    then show ?thesis using rest q by (auto simp: block_cover_def)
  qed
  moreover have "canonical (p # ps)"
    using rest p by (auto simp: block_cover_def canonical_Cons pbefore_def)
  moreover have "\<exists>p'\<in>set (p # ps). plo p' \<le> x \<and> x \<le> phi p'" if "plo p \<le> x" "x \<le> hi" for x
    using that rest by (cases "x \<le> phi p") (auto simp: block_cover_def not_le Suc_le_eq)
  moreover have "\<forall>p'\<in>set ps. plo p \<le> plo p'"
  proof
    fix p' assume "p' \<in> set ps"
    then have "Suc (phi p) \<le> plo p'" using rest by (simp add: block_cover_def)
    then show "plo p \<le> plo p'" using pl by linarith
  qed
  ultimately show ?thesis using rest p by (auto simp: block_cover_def)
qed

lemma block_cover_last:
  assumes p: "pfx_ok p"
    and max: "\<forall>q. pfx_ok q \<longrightarrow> pfam q = pfam p \<longrightarrow> plo q = plo p \<longrightarrow> phi q \<le> phi p \<longrightarrow> phi q \<le> phi p"
  shows "block_cover (pfam p) (plo p) (phi p) [p]"
  using p by (auto simp: block_cover_def canonical_Cons)

lemma Next_aval:
  assumes "addr_ok a" "addr_ok e" "BitLen e = BitLen a" "aval a < aval e"
  shows "addr_ok (Next a)" "BitLen (Next a) = BitLen a" "aval (Next a) = Suc (aval a)"
proof -
  have lt: "Suc (aval a) < 2 ^ BitLen a" using aval_less [of e] assms by simp
  then have "addr_ok (Next a) \<and> BitLen (Next a) = BitLen a \<and> aval (Next a) = Suc (aval a)"
  proof (cases a)
    case (IP4 v)
    then have "unat (v + 1) = Suc (unat v)" using lt by (simp add: unat_word_ariths)
    moreover from this have "v + 1 \<noteq> 0" by auto
    ultimately show ?thesis using IP4 assms(1) by (simp add: addr_ok_def)
  next
    case (IP6 v z)
    then have "unat (v + 1) = Suc (unat v)" using lt by (simp add: unat_word_ariths)
    moreover from this have "v + 1 \<noteq> 0" by auto
    ultimately show ?thesis using IP6 assms(1) by (simp add: addr_ok_def)
  qed (use assms(1) in \<open>simp add: addr_ok_def\<close>)
  then show "addr_ok (Next a)" "BitLen (Next a) = BitLen a" "aval (Next a) = Suc (aval a)" by auto
qed

lemma range_loop_correct:
  assumes "addr_ok a" "addr_ok e" "BitLen e = BitLen a" "aval a \<le> aval e"
  shows "\<exists>ps. range_loop result a e = Some (result @ ps) \<and> block_cover (BitLen a) (aval a) (aval e) ps"
  using assms
proof (induction "aval e - aval a" arbitrary: a result rule: less_induct)
  case less
  obtain p where p: "range_shrink a e (int (BitLen a) - int (range_trailing a))
        (PrefixFrom a (int (BitLen a) - int (range_trailing a)))
        (rangeLast (PrefixFrom a (int (BitLen a) - int (range_trailing a)))) = Some (p, rangeLast p)"
      "pfx_ok p" "pfam p = BitLen a" "plo p = aval a" "phi p \<le> aval e"
      "\<forall>q. pfx_ok q \<longrightarrow> pfam q = BitLen a \<longrightarrow> plo q = aval a \<longrightarrow> phi q \<le> aval e \<longrightarrow> phi q \<le> phi p"
    using range_block [OF less.prems] by blast
  note r = rangeLast_correct [OF p(2)]
  have step: "range_loop result a e =
      (if rangeLast p = e then Some (result @ [p]) else range_loop (result @ [p]) (Next (rangeLast p)) e)"
    by (subst range_loop.simps) (simp add: Let_def p(1))
  show ?case
  proof (cases "rangeLast p = e")
    case True
    then have "block_cover (BitLen a) (aval a) (aval e) [p]"
      using block_cover_last [OF p(2)] r(3) p by simp
    then show ?thesis using step True by auto
  next
    case False
    have "aval (rangeLast p) \<noteq> aval e"
      using False aval_inj [OF r(1) less.prems(2)] r(2) p(3) less.prems(3) by auto
    then have lt: "aval (rangeLast p) < aval e" using r(3) p(5) by simp
    have f: "BitLen e = BitLen (rangeLast p)" using r(2) p(3) less.prems(3) by simp
    note n = Next_aval [OF r(1) less.prems(2) f lt]
    have "aval e - aval (Next (rangeLast p)) < aval e - aval a"
      using n(3) r(3) lt plo_le_phi [of p] p(4) by linarith
    from less.hyps [OF this n(1) less.prems(2), of "result @ [p]"] obtain ps where ps:
      "range_loop (result @ [p]) (Next (rangeLast p)) e = Some ((result @ [p]) @ ps)"
      "block_cover (BitLen a) (Suc (phi p)) (aval e) ps"
      using n r lt f p(3) by auto
    then have "block_cover (BitLen a) (aval a) (aval e) (p # ps)"
      using block_cover_Cons [OF p(2,5)] p(3,4,6) by simp
    then show ?thesis using step False ps(1) by auto
  qed
qed

text \<open>Every exact cover of the interval by blocks has at least as many blocks.\<close>

lemma canonical_overlap:
  assumes "canonical ps" "p \<in> set ps" "q \<in> set ps" "pfam p = pfam q"
    "plo p \<le> x" "x \<le> phi p" "plo q \<le> x" "x \<le> phi q"
  shows "p = q"
proof -
  obtain i j where ij: "i < length ps" "j < length ps" "p = ps ! i" "q = ps ! j"
    using assms(2,3) by (auto simp: in_set_conv_nth)
  have "\<not> pbefore p q" "\<not> pbefore q p" using assms(4-) by (auto simp: pbefore_def)
  then show ?thesis
    using assms(1) ij sorted_wrt_nth_less [of pbefore ps] by (metis canonical_def linorder_neqE_nat)
qed

lemma block_cover_minimal:
  assumes c: "block_cover f lo hi ps"
    and qs: "\<forall>q\<in>set qs. pfx_ok q \<and> pfam q = f \<and> lo \<le> plo q \<and> phi q \<le> hi"
    and all: "\<forall>x. lo \<le> x \<longrightarrow> x \<le> hi \<longrightarrow> (\<exists>q\<in>set qs. plo q \<le> x \<and> x \<le> phi q)"
  shows "length ps \<le> length qs"
proof -
  have can: "canonical ps" using c by (simp add: block_cover_def)
  have ex: "\<exists>q\<in>set qs. plo q \<le> plo p \<and> plo p \<le> phi q" if "p \<in> set ps" for p
  proof -
    have "lo \<le> plo p" "phi p \<le> hi" using c that by (auto simp: block_cover_def)
    moreover have "plo p \<le> hi" using plo_le_phi [of p] \<open>phi p \<le> hi\<close> by (rule le_trans)
    ultimately show ?thesis using all by simp
  qed
  define g where "g p = (SOME q. q \<in> set qs \<and> plo q \<le> plo p \<and> plo p \<le> phi q)" for p
  have g: "g p \<in> set qs" "plo (g p) \<le> plo p" "plo p \<le> phi (g p)" if "p \<in> set ps" for p
    using someI_ex [of "\<lambda>q. q \<in> set qs \<and> plo q \<le> plo p \<and> plo p \<le> phi q"] ex [OF that]
    by (auto simp: g_def)
  have host: "p' = p"
    if "p \<in> set ps" "p' \<in> set ps" "plo p' \<le> plo (g p)" "phi (g p) \<le> phi p'" for p p'
  proof -
    have fam: "pfam p' = pfam p" using c that(1,2) by (simp add: block_cover_def)
    have "plo p' \<le> plo p" "plo p \<le> phi p'" using g [OF that(1)] that(3,4) by linarith+
    then show ?thesis using canonical_overlap [OF can that(2,1) fam] plo_le_phi [of p] by blast
  qed
  have "inj_on g (set ps)"
  proof (rule inj_onI)
    fix p r assume pr: "p \<in> set ps" "r \<in> set ps" "g p = g r"
    have "g p \<in> set qs" using g pr by blast
    then have "\<exists>p'\<in>set ps. plo p' \<le> plo (g p) \<and> phi (g p) \<le> phi p'"
      using c qs by (auto simp: block_cover_def)
    then obtain p' where "p' \<in> set ps" "plo p' \<le> plo (g p)" "phi (g p) \<le> phi p'" by blast
    then show "p = r" using host [OF pr(1)] host [OF pr(2)] pr(3) by metis
  qed
  moreover have "distinct ps"
  proof -
    have "\<not> pbefore p p" for p using plo_le_phi [of p] by (simp add: pbefore_def not_less)
    then show ?thesis
      using can sorted_wrt_nth_less [of pbefore ps]
      by (metis canonical_def distinct_conv_nth linorder_neqE_nat)
  qed
  ultimately have "length ps = card (g ` set ps)" by (simp add: card_image distinct_card)
  also have "\<dots> \<le> card (set qs)" using g by (intro card_mono) auto
  also have "\<dots> \<le> length qs" by (rule card_length)
  finally show ?thesis .
qed

definition range_ok :: "addr \<Rightarrow> addr \<Rightarrow> bool" where
  "range_ok start end' = (addr_ok start \<and> addr_ok end' \<and> \<not> Is4In6 start \<and> \<not> Is4In6 end' \<and>
     BitLen start = BitLen end' \<and> aval start \<le> aval end')"

lemma AppendRange_cases:
  "if range_ok start end'
   then \<exists>ps. AppendRange result start end' = Some (Inr (result @ ps)) \<and>
          block_cover (BitLen start) (aval start) (aval end') ps
   else AppendRange result start end' = Some (Inl Invalid_inclusive_range)"
proof (cases "range_ok start end'")
  case True
  then obtain ps where ps: "range_loop result start end' = Some (result @ ps)"
      "block_cover (BitLen start) (aval start) (aval end') ps"
    using range_loop_correct [of start end' result] by (auto simp: range_ok_def)
  moreover have "\<not> addr_Compare start end' > 0"
    using True by (auto simp: range_ok_def addr_Compare_simps)
  ultimately have "AppendRange result start end' = Some (Inr (result @ ps))"
    using True by (simp add: AppendRange_def range_ok_def addr_ok_def)
  then show ?thesis using True ps by simp
next
  case False
  then show ?thesis
    by (auto simp: AppendRange_def range_ok_def addr_ok_def addr_Compare_simps)
qed

lemma addr_with_value:
  assumes "x < 2 ^ BitLen b" "addr_ok b"
  shows "\<exists>a. addr_ok a \<and> BitLen a = BitLen b \<and> aval a = x"
proof (cases b)
  case (IP4 v)
  then have "unat (of_nat x :: 32 word) = x" using assms(1) by (simp add: unat_of_nat)
  then show ?thesis using IP4 by (intro exI [of _ "IP4 (of_nat x)"]) (simp add: addr_ok_def)
next
  case (IP6 v z)
  then have "unat (of_nat x :: 128 word) = x" using assms(1) by (simp add: unat_of_nat)
  then show ?thesis using IP6 by (intro exI [of _ "IP6 (of_nat x) ''''"]) (simp add: addr_ok_def)
qed (use assms in \<open>simp add: addr_ok_def\<close>)

definition in_range :: "addr \<Rightarrow> addr \<Rightarrow> addr \<Rightarrow> bool" where
  "in_range start end' a = (addr_ok a \<and> BitLen a = BitLen start \<and> aval start \<le> aval a \<and> aval a \<le> aval end')"

lemma block_cover_covers:
  assumes "block_cover (BitLen s) (aval s) (aval e) ps"
  shows "covers ps a \<longleftrightarrow> in_range s e a"
proof
  assume "covers ps a"
  then obtain p where p: "p \<in> set ps" "prefix_Contains p a" by (auto simp: covers_def)
  then have "pfx_ok p" "pfam p = BitLen s" "aval s \<le> plo p" "phi p \<le> aval e"
    using assms by (auto simp: block_cover_def canonical_def)
  then show "in_range s e a" using p(2) by (auto simp: in_range_def prefix_Contains_iff)
next
  assume a: "in_range s e a"
  then obtain p where p: "p \<in> set ps" "plo p \<le> aval a" "aval a \<le> phi p"
    using assms by (auto simp: block_cover_def in_range_def)
  then have "pfx_ok p" "pfam p = BitLen s" using assms by (auto simp: block_cover_def canonical_def)
  then have "prefix_Contains p a" using p a by (simp add: in_range_def prefix_Contains_iff)
  then show "covers ps a" using p(1) by (auto simp: covers_def)
qed

lemma cover_at_least:
  assumes c: "block_cover (BitLen s) (aval s) (aval e) ps" and s: "addr_ok s" "addr_ok e" "BitLen e = BitLen s"
    and q: "\<forall>q\<in>set qs. pfx_ok q" "\<forall>a. covers qs a \<longleftrightarrow> in_range s e a"
  shows "length ps \<le> length qs"
proof (rule block_cover_minimal [OF c])
  show "\<forall>q\<in>set qs. pfx_ok q \<and> pfam q = BitLen s \<and> aval s \<le> plo q \<and> phi q \<le> aval e"
  proof
    fix q' assume q': "q' \<in> set qs"
    then have ok: "pfx_ok q'" using q(1) by blast
    note en = prefixEnd_end [OF ok]
    have "prefix_Contains q' (pAddr q')" "prefix_Contains q' (prefixEnd q')"
      using en pfx_okD [OF ok] plo_le_phi [of q'] ok by (auto simp: prefix_Contains_iff plo_def pfam_def)
    then have "covers qs (pAddr q')" "covers qs (prefixEnd q')" using q' by (auto simp: covers_def)
    then have "in_range s e (pAddr q')" "in_range s e (prefixEnd q')" using q(2) by blast+
    then show "pfx_ok q' \<and> pfam q' = BitLen s \<and> aval s \<le> plo q' \<and> phi q' \<le> aval e"
      using ok en by (simp add: in_range_def pfam_def plo_def)
  qed
  show "\<forall>x. aval s \<le> x \<longrightarrow> x \<le> aval e \<longrightarrow> (\<exists>q\<in>set qs. plo q \<le> x \<and> x \<le> phi q)"
  proof (intro allI impI)
    fix x assume x: "aval s \<le> x" "x \<le> aval e"
    then have "x < 2 ^ BitLen s" using aval_less [of e] s(3) by simp
    then obtain a where a: "addr_ok a" "BitLen a = BitLen s" "aval a = x"
      using addr_with_value [OF _ s(1)] by blast
    then have "covers qs a" using q(2) x by (simp add: in_range_def)
    then obtain q' where "q' \<in> set qs" "prefix_Contains q' a" by (auto simp: covers_def)
    then show "\<exists>q\<in>set qs. plo q \<le> x \<and> x \<le> phi q" using q(1) a by (auto simp: prefix_Contains_iff)
  qed
qed

section \<open>Properties\<close>

text \<open>
  (C10) For a valid inclusive range \<open>AppendRange\<close> returns: it appends a list of disjoint
  masked blocks, in ascending order, that covers exactly the addresses of the range.
\<close>

theorem AppendRange_exact:
  assumes "range_ok start end'"
  shows "\<exists>ps. AppendRange result start end' = Some (Inr (result @ ps)) \<and> canonical ps \<and>
    (\<forall>a. covers ps a \<longleftrightarrow> in_range start end' a)"
proof -
  obtain ps where "AppendRange result start end' = Some (Inr (result @ ps))"
      "block_cover (BitLen start) (aval start) (aval end') ps"
    using AppendRange_cases [of start end' result] assms by auto
  then show ?thesis using block_cover_covers by (auto simp: block_cover_def)
qed

theorem AppendRange_exact_witness:
  "AppendRange [] (IP4 1) (IP4 6) =
     Some (Inr [Prefix (IP4 1) 33, Prefix (IP4 2) 32, Prefix (IP4 4) 32, Prefix (IP4 6) 33]) \<and>
   (\<exists>ps. AppendRange [] (IP4 1) (IP4 6) = Some (Inr ([] @ ps)) \<and> canonical ps \<and>
     (\<forall>a. covers ps a \<longleftrightarrow> in_range (IP4 1) (IP4 6) a))"
proof
  show "AppendRange [] (IP4 1) (IP4 6) =
     Some (Inr [Prefix (IP4 1) 33, Prefix (IP4 2) 32, Prefix (IP4 4) 32, Prefix (IP4 6) 33])"
    by code_simp
  have "range_ok (IP4 1) (IP4 6)" by code_simp
  then show "\<exists>ps. AppendRange [] (IP4 1) (IP4 6) = Some (Inr ([] @ ps)) \<and> canonical ps \<and>
     (\<forall>a. covers ps a \<longleftrightarrow> in_range (IP4 1) (IP4 6) a)"
    by (rule AppendRange_exact)
qed

text \<open>
  (C11) The cover is minimal: no list of masked prefixes with the same addresses is shorter
  than the one \<open>Range\<close> returns.
\<close>

theorem Range_minimal:
  assumes "Range start end' = Some (Inr ps)"
    and "\<forall>q\<in>set qs. pfx_ok q" "\<forall>a. covers qs a \<longleftrightarrow> covers ps a"
  shows "length ps \<le> length qs"
proof -
  have r: "range_ok start end'" and c: "block_cover (BitLen start) (aval start) (aval end') ps"
    using AppendRange_cases [of start end' "[]"] assms(1) by (auto simp: Range_def split: if_splits)
  have "\<forall>a. covers qs a \<longleftrightarrow> in_range start end' a" using assms(3) block_cover_covers [OF c] by simp
  then show ?thesis using r by (intro cover_at_least [OF c _ _ _ assms(2)]) (auto simp: range_ok_def)
qed

theorem Range_minimal_witness:
  "Range (IP4 8) (IP4 11) = Some (Inr [Prefix (IP4 8) 31]) \<and>
   length [Prefix (IP4 8) 31] \<le> length [Prefix (IP4 8) 31, Prefix (IP4 8) 31]"
proof
  show r: "Range (IP4 8) (IP4 11) = Some (Inr [Prefix (IP4 8) 31])" by code_simp
  have "pfx_ok (Prefix (IP4 8) 31)" by code_simp
  then show "length [Prefix (IP4 8) 31] \<le> length [Prefix (IP4 8) 31, Prefix (IP4 8) 31]"
    by (intro Range_minimal [OF r]) auto
qed


end
