(* ===== verification/Netip_Text.thy ===== *)
theory Netip_Text
  imports Netip
begin

text \<open>
  The textual side of the Go package \<open>net/netip\<close> as the sources use it: \<open>ParseAddr\<close>
  and \<open>ParsePrefix\<close>, with the same case distinctions as the library: dotted IPv4 without
  leading zeros, IPv6 groups with one \<open>::\<close>, an embedded IPv4 tail and a zone. \<open>None\<close>
  is a parse error.
\<close>

section \<open>Digits\<close>

definition is_digit :: "char \<Rightarrow> bool" where
  "is_digit c = (CHR ''0'' \<le> c \<and> c \<le> CHR ''9'')"

definition digit_value :: "char \<Rightarrow> nat" where
  "digit_value c = of_char c - 48"

definition digits_value :: "string \<Rightarrow> nat" where
  "digits_value ds = foldl (\<lambda>n c. 10 * n + digit_value c) 0 ds"

definition hex_value :: "char \<Rightarrow> nat option" where
  "hex_value c =
     (if is_digit c then Some (digit_value c)
      else if CHR ''a'' \<le> c \<and> c \<le> CHR ''f'' then Some (of_char c - 87)
      else if CHR ''A'' \<le> c \<and> c \<le> CHR ''F'' then Some (of_char c - 55)
      else None)"

section \<open>IPv4\<close>

text \<open>
  The octet loop: the octets read so far, the value and the number of digits of the current
  one. A dot needs a digit before and a character behind it.
\<close>

fun parse_octets :: "nat list \<Rightarrow> nat \<Rightarrow> nat \<Rightarrow> string \<Rightarrow> nat list option" where
  "parse_octets fields val digLen [] = (if length fields < 3 then None else Some (fields @ [val]))"
| "parse_octets fields val digLen (c # cs) =
     (if is_digit c then
        if digLen = 1 \<and> val = 0 then None
        else if 255 < val * 10 + digit_value c then None
        else parse_octets fields (val * 10 + digit_value c) (Suc digLen) cs
      else if c = CHR ''.'' then
        if digLen = 0 \<or> cs = [] then None
        else if length fields = 3 then None
        else parse_octets (fields @ [val]) 0 0 cs
      else None)"

definition parseIPv4Fields :: "string \<Rightarrow> 8 word list option" where
  "parseIPv4Fields s = map_option (map of_nat) (parse_octets [] 0 0 s)"

definition parseIPv4 :: "string \<Rightarrow> addr option" where
  "parseIPv4 s = map_option AddrFrom4 (parseIPv4Fields s)"

section \<open>IPv6\<close>

text \<open>
  One round of the group loop per call: \<open>ip\<close> holds the bytes written so far and
  \<open>ellipsis\<close> the byte position of \<open>::\<close>.
\<close>

function parse_groups :: "string \<Rightarrow> 8 word list \<Rightarrow> nat option \<Rightarrow> (string \<times> 8 word list \<times> nat option) option" where
  "parse_groups s ip ellipsis =
     (if 16 \<le> length ip then Some (s, ip, ellipsis)
      else
        let digits = takeWhile (\<lambda>c. hex_value c \<noteq> None) s;
            rest = drop (length digits) s;
            acc = foldl (\<lambda>n c. push_bit 4 n + of_nat (the (hex_value c))) (0 :: 32 word) digits
        in
        if 4 < length digits \<or> digits = [] then None
        else if rest \<noteq> [] \<and> hd rest = CHR ''.'' then
          if ellipsis = None \<and> length ip \<noteq> 12 then None
          else if 16 < length ip + 4 then None
          else map_option (\<lambda>fields. ([], ip @ fields, ellipsis)) (parseIPv4Fields s)
        else
          let ip = ip @ [ucast (drop_bit 8 acc), ucast acc] in
          (case rest of
             [] \<Rightarrow> Some ([], ip, ellipsis)
           | c # cs \<Rightarrow>
               if c \<noteq> CHR '':'' \<or> cs = [] then None
               else if hd cs = CHR '':'' then
                 if ellipsis \<noteq> None then None
                 else if tl cs = [] then Some ([], ip, Some (length ip))
                 else parse_groups (tl cs) ip (Some (length ip))
               else parse_groups cs ip ellipsis))"
  by pat_completeness auto
termination
  by (relation "measure (\<lambda>(_, ip, _). 16 - length ip)") auto

declare parse_groups.simps [simp del]

definition expand_ellipsis :: "8 word list \<Rightarrow> nat option \<Rightarrow> 8 word list option" where
  "expand_ellipsis ip ellipsis =
     (if length ip < 16
      then map_option (\<lambda>e. take e ip @ replicate (16 - length ip) 0 @ drop e ip) ellipsis
      else if ellipsis \<noteq> None then None else Some ip)"

fun WithZone :: "addr \<Rightarrow> string \<Rightarrow> addr" where
  "WithZone (IP6 v _) z = IP6 v z"
| "WithZone a z = a"

definition parseIPv6 :: "string \<Rightarrow> addr option" where
  "parseIPv6 in' =
     (let s = takeWhile (\<lambda>c. c \<noteq> CHR ''%'') in'; zone = drop (Suc (length s)) in' in
      if length s < length in' \<and> zone = [] then None
      else
        let leading = (take 2 s = ''::''); s = (if leading then drop 2 s else s);
            ellipsis = (if leading then Some 0 else None)
        in
        if leading \<and> s = [] then Some (IP6 0 zone)
        else
          Option.bind (parse_groups s [] ellipsis) (\<lambda>(s, ip, ellipsis).
            if s \<noteq> [] then None
            else map_option (\<lambda>ip. WithZone (AddrFrom16 ip) zone) (expand_ellipsis ip ellipsis)))"

fun parse_scan :: "string \<Rightarrow> string \<Rightarrow> addr option" where
  "parse_scan s [] = None"
| "parse_scan s (c # cs) =
     (if c = CHR ''.'' then parseIPv4 s
      else if c = CHR '':'' then parseIPv6 s
      else if c = CHR ''%'' then None
      else parse_scan s cs)"

definition ParseAddr :: "string \<Rightarrow> addr option" where
  "ParseAddr s = parse_scan s s"

section \<open>Prefixes\<close>

definition last_slash :: "string \<Rightarrow> (string \<times> string) option" where
  "last_slash s =
     (if CHR ''/'' \<in> set s
      then let tail = rev (takeWhile (\<lambda>c. c \<noteq> CHR ''/'') (rev s))
           in Some (take (length s - Suc (length tail)) s, tail)
      else None)"

definition parse_bits :: "string \<Rightarrow> nat option" where
  "parse_bits s =
     (if 1 < length s \<and> (hd s < CHR ''1'' \<or> CHR ''9'' < hd s) then None
      else if s = [] \<or> (\<exists>c\<in>set s. \<not> is_digit c) then None
      else Some (digits_value s))"

definition ParsePrefix :: "string \<Rightarrow> prefix option" where
  "ParsePrefix s =
     Option.bind (last_slash s) (\<lambda>(a, b).
     Option.bind (ParseAddr a) (\<lambda>ip.
       if Is6 ip \<and> Zone ip \<noteq> '''' then None
       else Option.bind (parse_bits b) (\<lambda>bits.
         if (if Is6 ip then 128 else 32) < bits then None else Some (PrefixFrom ip (int bits)))))"

section \<open>What the parsers return\<close>

lemma parse_scan_valid: "parse_scan s t = Some a \<Longrightarrow> addr_IsValid a"
  by (induction s t rule: parse_scan.induct)
    (auto simp: parseIPv4_def parseIPv6_def AddrFrom4_def AddrFrom16_def Let_def
      split: if_splits bind_splits option.splits)

lemma ParseAddr_valid: "ParseAddr s = Some a \<Longrightarrow> addr_IsValid a"
  by (simp add: ParseAddr_def parse_scan_valid)

lemma ParsePrefix_valid:
  assumes "ParsePrefix s = Some p"
  shows "prefix_IsValid p \<and> addr_ok (pAddr p) \<and> plen p \<le> pfam p"
proof -
  obtain a b ip bits where p: "ParseAddr a = Some ip" "\<not> (Is6 ip \<and> Zone ip \<noteq> '''')"
      "p = PrefixFrom ip (int bits)" "bits \<le> (if Is6 ip then 128 else 32)"
    using assms by (auto simp: ParsePrefix_def split: bind_splits if_splits)
  have "addr_IsValid ip" using ParseAddr_valid [OF p(1)] .
  then show ?thesis
    using p(2-) by (cases ip) (auto simp: PrefixFrom_def prefix_IsValid_def addr_ok_def plen_def pfam_def)
qed

lemma ParsePrefix_Masked_ok: "ParsePrefix s = Some p \<Longrightarrow> pfx_ok (prefix_Masked p)"
  using ParsePrefix_valid [of s p] prefix_Masked_pfx_ok [of p] by (auto simp: addr_ok_def)

end
