(* ===== verification/Config.thy ===== *)
theory Config
  imports Netip_Text
begin

text \<open>
  \<open>internal/config/config.go\<close>: the normalized configuration, and the identifier syntax
  of \<open>internal/config/normalize.go\<close> that the selector code shares.

  Every Go struct is a record with the same fields; the field names carry the initials of
  their struct, since record fields share one name space. Durations are \<open>time.Duration\<close>
  nanosecond counts, and \<open>float64\<close> values their IEEE 754 bit patterns.
\<close>

type_synonym duration = int
type_synonym float64 = "64 word"

record TransportConfig =
  tc_Type :: string
  tc_Identity :: string
  tc_Service :: string

definition transport_IsZero :: "TransportConfig \<Rightarrow> bool" where
  "transport_IsZero t = (tc_Type t = '''' \<and> tc_Identity t = '''' \<and> tc_Service t = '''')"

record OpenZitiIdentityConfig =
  oi_IdentityFile :: string

record OpenZitiConfig =
  oz_Identities :: "string \<rightharpoonup> OpenZitiIdentityConfig"

record CSVFilterConfig =
  cf_Column :: int
  cf_Op :: string
  cf_Value :: float64

record CSVConfig =
  cv_Delimiter :: string
  cv_Header :: bool
  cv_IPColumn :: int
  cv_Filter :: CSVFilterConfig

record IPListConfig =
  il_URL :: string
  il_RefreshInterval :: duration
  il_RequestTimeout :: duration
  il_Transport :: TransportConfig
  il_CSV :: CSVConfig

record LoggingConfig =
  lg_Level :: string
  lg_Format :: string

record MetricsConfig =
  mt_Listen :: string

record GlobalConfig =
  gl_Allowlist :: "prefix list"
  gl_Blocklist :: "prefix list"

record NftablesConfig =
  nf_Table :: string
  nf_Priority :: "32 word"

record Attachment =
  at_Chain :: string
  at_Direction :: string
  at_InputInterfaces :: "string list"
  at_OutputInterfaces :: "string list"
  at_OriginalDestination :: bool

record IPTablesConfig =
  it_Attachments :: "Attachment list"

record FirewallConfig =
  fw_Backend :: string
  fw_DenyAction :: string
  fw_IPv4 :: bool
  fw_IPv6 :: bool
  fw_Nftables :: NftablesConfig
  fw_IPTables :: IPTablesConfig

record GeoConfig =
  ge_CountryProvider :: string
  ge_RefreshInterval :: duration
  ge_RequestTimeout :: duration
  ge_RefreshJitter :: duration

definition CountryProviderDBIPLite :: string where
  "CountryProviderDBIPLite = ''dbip-lite''"

definition CountryProviderRIPEstat :: string where
  "CountryProviderRIPEstat = ''ripestat''"

definition EffectiveCountryProvider :: "GeoConfig \<Rightarrow> string" where
  "EffectiveCountryProvider c =
     (if ge_CountryProvider c = '''' then CountryProviderRIPEstat else ge_CountryProvider c)"

record ProvidersConfig =
  pv_RefreshInterval :: duration
  pv_RequestTimeout :: duration

record CrowdSecConfig =
  cs_Enabled :: bool
  cs_LAPIURL :: string
  cs_APIKeyFile :: string
  cs_UpdateFrequency :: duration
  cs_Transport :: TransportConfig

record PortRange =
  pr_Start :: "16 word"
  pr_End :: "16 word"

record TrafficScope =
  ts_TCP :: "PortRange list"
  ts_UDP :: "PortRange list"
  ts_ICMP :: bool
  ts_ICMPv6 :: bool
  ts_Any :: bool

text \<open>\<open>config.Selector\<close>: the selector categories of one side of a policy.\<close>

record Selection =
  se_Countries :: "string list"
  se_RIRs :: "string list"
  se_Groups :: "string list"
  se_ASNs :: "string list"
  se_IPLists :: "string list"
  se_Providers :: "string list"
  se_ExpandedCountries :: "string list"

text \<open>\<open>config.Policy\<close>; the priority is an \<open>int64\<close> that is only compared.\<close>

record Policy =
  po_Name :: string
  po_Priority :: int
  po_Direction :: string
  po_Mode :: string
  po_Traffic :: TrafficScope
  po_Include :: Selection
  po_Exclude :: Selection

record Config =
  cg_Version :: int
  cg_Logging :: LoggingConfig
  cg_Metrics :: MetricsConfig
  cg_Global :: GlobalConfig
  cg_Firewall :: FirewallConfig
  cg_Geo :: GeoConfig
  cg_Providers :: ProvidersConfig
  cg_OpenZiti :: OpenZitiConfig
  cg_IPLists :: "string \<rightharpoonup> IPListConfig"
  cg_Groups :: "string \<rightharpoonup> string list"
  cg_Policies :: "Policy list"
  cg_CrowdSec :: CrowdSecConfig

section \<open>Identifier syntax\<close>

definition lower_alnum :: "char \<Rightarrow> bool" where
  "lower_alnum c = (CHR ''a'' \<le> c \<and> c \<le> CHR ''z'' \<or> is_digit c)"

text \<open>The pattern \<open>^[a-z0-9](?:[a-z0-9-]*[a-z0-9])?$\<close>.\<close>

definition ValidName :: "string \<Rightarrow> bool" where
  "ValidName name =
     (name \<noteq> [] \<and> lower_alnum (hd name) \<and> lower_alnum (last name) \<and>
      (\<forall>c\<in>set name. lower_alnum c \<or> c = CHR ''-''))"

text \<open>The pattern \<open>^[a-z0-9_-]+$\<close>.\<close>

definition ValidProviderID :: "string \<Rightarrow> bool" where
  "ValidProviderID name =
     (name \<noteq> [] \<and> (\<forall>c\<in>set name. lower_alnum c \<or> c = CHR ''_'' \<or> c = CHR ''-''))"

section \<open>Upper case\<close>

text \<open>
  \<open>strings.ToUpper\<close> on UTF-8 text. Besides the ASCII letters, the two runes U+0131 and
  U+017F are the only ones whose upper case is ASCII; every other rune outside ASCII keeps
  a form outside ASCII, which no name of the catalogue contains, and is left as it is.
\<close>

fun ToUpper :: "string \<Rightarrow> string" where
  "ToUpper [] = []"
| "ToUpper [c] = [if CHR ''a'' \<le> c \<and> c \<le> CHR ''z'' then char_of (of_char c - 32 :: nat) else c]"
| "ToUpper (c # d # cs) =
     (if CHR ''a'' \<le> c \<and> c \<le> CHR ''z'' then char_of (of_char c - 32 :: nat) # ToUpper (d # cs)
      else if c = CHR 0xC4 \<and> d = CHR 0xB1 then CHR ''I'' # ToUpper cs
      else if c = CHR 0xC5 \<and> d = CHR 0xBF then CHR ''S'' # ToUpper cs
      else c # ToUpper (d # cs))"

section \<open>Zero values\<close>

text \<open>The Go zero values of the structs, from which concrete configurations are built.\<close>

definition zero_selection :: Selection where
  "zero_selection = \<lparr>se_Countries = [], se_RIRs = [], se_Groups = [], se_ASNs = [], se_IPLists = [],
     se_Providers = [], se_ExpandedCountries = []\<rparr>"

definition zero_traffic :: TrafficScope where
  "zero_traffic = \<lparr>ts_TCP = [], ts_UDP = [], ts_ICMP = False, ts_ICMPv6 = False, ts_Any = False\<rparr>"

definition zero_policy :: Policy where
  "zero_policy = \<lparr>po_Name = '''', po_Priority = 0, po_Direction = '''', po_Mode = '''',
     po_Traffic = zero_traffic, po_Include = zero_selection, po_Exclude = zero_selection\<rparr>"

definition zero_transport :: TransportConfig where
  "zero_transport = \<lparr>tc_Type = '''', tc_Identity = '''', tc_Service = ''''\<rparr>"

definition zero_config :: Config where
  "zero_config = \<lparr>cg_Version = 0, cg_Logging = \<lparr>lg_Level = '''', lg_Format = ''''\<rparr>,
     cg_Metrics = \<lparr>mt_Listen = ''''\<rparr>, cg_Global = \<lparr>gl_Allowlist = [], gl_Blocklist = []\<rparr>,
     cg_Firewall = \<lparr>fw_Backend = '''', fw_DenyAction = '''', fw_IPv4 = False, fw_IPv6 = False,
       fw_Nftables = \<lparr>nf_Table = '''', nf_Priority = 0\<rparr>, fw_IPTables = \<lparr>it_Attachments = []\<rparr>\<rparr>,
     cg_Geo = \<lparr>ge_CountryProvider = '''', ge_RefreshInterval = 0, ge_RequestTimeout = 0, ge_RefreshJitter = 0\<rparr>,
     cg_Providers = \<lparr>pv_RefreshInterval = 0, pv_RequestTimeout = 0\<rparr>,
     cg_OpenZiti = \<lparr>oz_Identities = Map.empty\<rparr>, cg_IPLists = Map.empty, cg_Groups = Map.empty,
     cg_Policies = [],
     cg_CrowdSec = \<lparr>cs_Enabled = False, cs_LAPIURL = '''', cs_APIKeyFile = '''', cs_UpdateFrequency = 0,
       cs_Transport = zero_transport\<rparr>\<rparr>"

definition any_traffic :: TrafficScope where
  "any_traffic = zero_traffic\<lparr>ts_Any := True\<rparr>"

end
