(* ===== verification/Config_Shape.thy ===== *)
theory Config_Shape
  imports Prelude
begin

text \<open>
  The first half of \<open>internal/config/parse.go\<close>: the checks on the YAML node tree before it
  is decoded. Keys of one mapping are strings and unique, and every known key carries a node of
  its declared kind. The tree is the part of \<open>yaml.Node\<close> the code reads: kind, resolved
  tag, scalar text and children, the children of a mapping being keys and values in turn.

  The properties compare the checks with two declarative readings: \<open>unique_keys\<close> for the
  search for duplicates, and \<open>conforms\<close> to the schema \<open>config_shape\<close> for the tree of
  checking functions.
\<close>

section \<open>Decimal text\<close>

text \<open>\<open>strconv.Itoa\<close> on natural numbers.\<close>

definition digit_char :: "nat \<Rightarrow> char" where
  "digit_char n = char_of (48 + n)"

fun Itoa :: "nat \<Rightarrow> string" where
  "Itoa n = (if n < 10 then [digit_char n] else Itoa (n div 10) @ [digit_char (n mod 10)])"

declare Itoa.simps [simp del]

text \<open>\<open>fmt.Sprintf("%s[%d]", path, i)\<close>.\<close>

definition indexed :: "string \<Rightarrow> nat \<Rightarrow> string" where
  "indexed path i = path @ ''['' @ Itoa i @ '']''"

section \<open>Nodes\<close>

datatype yaml_kind = NoKind | DocumentNode | SequenceNode | MappingNode | ScalarNode | AliasNode

datatype yaml_node = Node (n_Kind: yaml_kind) (n_Tag: string) (n_Value: string) (n_Content: "yaml_node list")

datatype nodeKind = KindMap | KindSeq | KindString | KindInt | KindBool | KindNumber

datatype shape_error =
    Keys_not_strings string
  | Duplicate_key string string
  | Wrong_type string
  | Names_not_strings string

definition unwrapDocument :: "yaml_node \<Rightarrow> yaml_node" where
  "unwrapDocument node =
     (if n_Kind node = DocumentNode \<and> length (n_Content node) = 1 then n_Content node ! 0 else node)"

fun rejectDuplicateKeys :: "yaml_node \<Rightarrow> string \<Rightarrow> shape_error option"
and reject_children :: "yaml_node list \<Rightarrow> string \<Rightarrow> shape_error option"
and reject_pairs :: "string list \<Rightarrow> yaml_node list \<Rightarrow> string \<Rightarrow> shape_error option" where
  "rejectDuplicateKeys (Node kind tag value' content) path =
     (if kind = DocumentNode then reject_children content path
      else if kind = MappingNode then reject_pairs [] content path
      else reject_children content path)"
| "reject_children [] path = None"
| "reject_children (child # rest) path =
     (case rejectDuplicateKeys child path of Some e \<Rightarrow> Some e | None \<Rightarrow> reject_children rest path)"
| "reject_pairs seen (key # val # rest) path =
     (if n_Kind key \<noteq> ScalarNode \<or> n_Tag key \<noteq> ''!!str'' then Some (Keys_not_strings path)
      else if n_Value key \<in> set seen then Some (Duplicate_key path (n_Value key))
      else
        (case rejectDuplicateKeys val (path @ ''.'' @ n_Value key) of
           Some e \<Rightarrow> Some e
         | None \<Rightarrow> reject_pairs (n_Value key # seen) rest path))"
| "reject_pairs seen _ path = None"

definition expectNode :: "yaml_node \<Rightarrow> nodeKind \<Rightarrow> string \<Rightarrow> shape_error option" where
  "expectNode node expected path =
     (let ok =
        (case expected of
           KindMap \<Rightarrow> n_Kind node = MappingNode \<and> n_Tag node = ''!!map''
         | KindSeq \<Rightarrow> n_Kind node = SequenceNode \<and> n_Tag node = ''!!seq''
         | KindString \<Rightarrow> n_Kind node = ScalarNode \<and> n_Tag node = ''!!str''
         | KindInt \<Rightarrow> n_Kind node = ScalarNode \<and> n_Tag node = ''!!int''
         | KindBool \<Rightarrow> n_Kind node = ScalarNode \<and> n_Tag node = ''!!bool''
         | KindNumber \<Rightarrow> n_Kind node = ScalarNode \<and> (n_Tag node = ''!!int'' \<or> n_Tag node = ''!!float''))
      in if \<not> ok then Some (Wrong_type path) else None)"

type_synonym check = "yaml_node \<Rightarrow> string \<Rightarrow> shape_error option"

fun check_fields :: "yaml_node list \<Rightarrow> string \<Rightarrow> (string \<times> nodeKind) list \<Rightarrow> (string \<times> check) list \<Rightarrow> shape_error option" where
  "check_fields (key # val # rest) path kinds nested =
     (let name = n_Value key in
      case map_of kinds name of
        None \<Rightarrow> check_fields rest path kinds nested
      | Some expected \<Rightarrow>
          (case expectNode val expected (path @ ''.'' @ name) of
             Some e \<Rightarrow> Some e
           | None \<Rightarrow>
               (case map_of nested name of
                  None \<Rightarrow> check_fields rest path kinds nested
                | Some fn \<Rightarrow>
                    (case fn val (path @ ''.'' @ name) of
                       Some e \<Rightarrow> Some e
                     | None \<Rightarrow> check_fields rest path kinds nested))))"
| "check_fields _ path kinds nested = None"

definition checkMappingFields ::
  "yaml_node \<Rightarrow> string \<Rightarrow> (string \<times> nodeKind) list \<Rightarrow> (string \<times> check) list \<Rightarrow> shape_error option" where
  "checkMappingFields node path kinds nested = check_fields (n_Content node) path kinds nested"

text \<open>The loops over the items of a sequence, with their index in the path, and over the entries of a mapping.\<close>

fun check_items :: "check \<Rightarrow> nat \<Rightarrow> yaml_node list \<Rightarrow> string \<Rightarrow> shape_error option" where
  "check_items f i [] path = None"
| "check_items f i (item # rest) path =
     (case f item (indexed path i) of Some e \<Rightarrow> Some e | None \<Rightarrow> check_items f (Suc i) rest path)"

fun check_entries :: "check \<Rightarrow> yaml_node list \<Rightarrow> string \<Rightarrow> shape_error option" where
  "check_entries f (key # val # rest) path =
     (if n_Kind key \<noteq> ScalarNode \<or> n_Tag key \<noteq> ''!!str'' then Some (Names_not_strings path)
      else (case f val (path @ ''.'' @ n_Value key) of Some e \<Rightarrow> Some e | None \<Rightarrow> check_entries f rest path))"
| "check_entries f _ path = None"

definition both_checks :: "check \<Rightarrow> check \<Rightarrow> check" where
  "both_checks f g node path = (case f node path of Some e \<Rightarrow> Some e | None \<Rightarrow> g node path)"

definition checkStringSequence :: check where
  "checkStringSequence node path = check_items (\<lambda>item. expectNode item KindString) 0 (n_Content node) path"

definition checkLogging :: check where
  "checkLogging node path = checkMappingFields node path [(''level'', KindString), (''format'', KindString)] []"

definition checkMetrics :: check where
  "checkMetrics node path = checkMappingFields node path [(''listen'', KindString)] []"

definition checkGlobal :: check where
  "checkGlobal node path = checkMappingFields node path [(''allowlist'', KindSeq), (''blocklist'', KindSeq)]
     [(''allowlist'', checkStringSequence), (''blocklist'', checkStringSequence)]"

definition checkGeo :: check where
  "checkGeo node path = checkMappingFields node path
     [(''country_provider'', KindString), (''refresh_interval'', KindString), (''request_timeout'', KindString),
      (''refresh_jitter'', KindString)] []"

definition checkProviders :: check where
  "checkProviders node path = checkMappingFields node path
     [(''refresh_interval'', KindString), (''request_timeout'', KindString)] []"

definition checkTransportShape :: check where
  "checkTransportShape node path = checkMappingFields node path
     [(''type'', KindString), (''identity'', KindString), (''service'', KindString)] []"

definition checkCrowdSec :: check where
  "checkCrowdSec node path = checkMappingFields node path
     [(''enabled'', KindBool), (''lapi_url'', KindString), (''api_key_file'', KindString),
      (''update_frequency'', KindString), (''transport'', KindMap)]
     [(''transport'', checkTransportShape)]"

definition check_identity :: check where
  "check_identity node path = checkMappingFields node path [(''identity_file'', KindString)] []"

definition checkIdentitiesShape :: check where
  "checkIdentitiesShape node path =
     check_entries (both_checks (\<lambda>n. expectNode n KindMap) check_identity) (n_Content node) path"

definition checkOpenZiti :: check where
  "checkOpenZiti node path = checkMappingFields node path [(''identities'', KindMap)]
     [(''identities'', checkIdentitiesShape)]"

definition checkNftables :: check where
  "checkNftables node path = checkMappingFields node path [(''table'', KindString), (''priority'', KindInt)] []"

definition check_attachment :: check where
  "check_attachment node path = checkMappingFields node path
     [(''chain'', KindString), (''direction'', KindString), (''input_interfaces'', KindSeq),
      (''output_interfaces'', KindSeq), (''original_destination'', KindBool)]
     [(''input_interfaces'', checkStringSequence), (''output_interfaces'', checkStringSequence)]"

definition checkAttachmentsShape :: check where
  "checkAttachmentsShape node path =
     check_items (both_checks (\<lambda>n. expectNode n KindMap) check_attachment) 0 (n_Content node) path"

definition checkIPTables :: check where
  "checkIPTables node path = checkMappingFields node path [(''attachments'', KindSeq)]
     [(''attachments'', checkAttachmentsShape)]"

definition checkFirewall :: check where
  "checkFirewall node path = checkMappingFields node path
     [(''backend'', KindString), (''deny_action'', KindString), (''ipv4'', KindBool), (''ipv6'', KindBool),
      (''nftables'', KindMap), (''iptables'', KindMap)]
     [(''nftables'', checkNftables), (''iptables'', checkIPTables)]"

definition checkCSVFilterShape :: check where
  "checkCSVFilterShape node path = checkMappingFields node path
     [(''column'', KindInt), (''op'', KindString), (''value'', KindNumber)] []"

definition checkCSVShape :: check where
  "checkCSVShape node path = checkMappingFields node path
     [(''delimiter'', KindString), (''header'', KindBool), (''ip_column'', KindInt), (''filter'', KindMap)]
     [(''filter'', checkCSVFilterShape)]"

definition check_ip_list :: check where
  "check_ip_list node path = checkMappingFields node path
     [(''url'', KindString), (''refresh_interval'', KindString), (''request_timeout'', KindString),
      (''transport'', KindMap), (''csv'', KindMap)]
     [(''transport'', checkTransportShape), (''csv'', checkCSVShape)]"

definition checkIPListsShape :: check where
  "checkIPListsShape node path =
     check_entries (both_checks (\<lambda>n. expectNode n KindMap) check_ip_list) (n_Content node) path"

definition checkGroupsShape :: check where
  "checkGroupsShape node path =
     check_entries (both_checks (\<lambda>n. expectNode n KindSeq) checkStringSequence) (n_Content node) path"

definition checkSelectorShape :: check where
  "checkSelectorShape node path = checkMappingFields node path
     [(''countries'', KindSeq), (''rirs'', KindSeq), (''groups'', KindSeq), (''asns'', KindSeq),
      (''ip_lists'', KindSeq), (''providers'', KindSeq)]
     [(''countries'', checkStringSequence), (''rirs'', checkStringSequence), (''groups'', checkStringSequence),
      (''asns'', checkStringSequence), (''ip_lists'', checkStringSequence), (''providers'', checkStringSequence)]"

definition checkPolicyShape :: check where
  "checkPolicyShape node path = checkMappingFields node path
     [(''name'', KindString), (''priority'', KindInt), (''direction'', KindString), (''mode'', KindString),
      (''traffic'', KindSeq), (''include'', KindMap), (''exclude'', KindMap)]
     [(''traffic'', checkStringSequence), (''include'', checkSelectorShape), (''exclude'', checkSelectorShape)]"

definition checkPoliciesShape :: check where
  "checkPoliciesShape node path =
     check_items (both_checks (\<lambda>n. expectNode n KindMap) checkPolicyShape) 0 (n_Content node) path"

definition checkRootShape :: "yaml_node \<Rightarrow> shape_error option" where
  "checkRootShape root =
     both_checks (\<lambda>n. expectNode n KindMap)
       (\<lambda>node path. checkMappingFields node path
          [(''version'', KindInt), (''logging'', KindMap), (''metrics'', KindMap), (''global'', KindMap),
           (''firewall'', KindMap), (''geo'', KindMap), (''providers'', KindMap), (''openziti'', KindMap),
           (''ip_lists'', KindMap), (''groups'', KindMap), (''policies'', KindSeq), (''crowdsec'', KindMap)]
          [(''logging'', checkLogging), (''metrics'', checkMetrics), (''global'', checkGlobal),
           (''firewall'', checkFirewall), (''geo'', checkGeo), (''providers'', checkProviders),
           (''openziti'', checkOpenZiti), (''ip_lists'', checkIPListsShape), (''groups'', checkGroupsShape),
           (''policies'', checkPoliciesShape), (''crowdsec'', checkCrowdSec)])
       root ''configuration''"

section \<open>Unique keys\<close>

fun pairs :: "'a list \<Rightarrow> ('a \<times> 'a) list" where
  "pairs (k # v # rest) = (k, v) # pairs rest"
| "pairs _ = []"

definition string_key :: "yaml_node \<Rightarrow> bool" where
  "string_key k = (n_Kind k = ScalarNode \<and> n_Tag k = ''!!str'')"

lemma pairs_size [termination_simp]: "(k, v) \<in> set (pairs xs) \<Longrightarrow> size v < Suc (size_list size xs)"
  by (induction xs rule: pairs.induct) auto

fun unique_keys :: "yaml_node \<Rightarrow> bool" where
  "unique_keys (Node kind tag value' content) =
     (if kind = MappingNode then
        (\<forall>kv\<in>set (pairs content). string_key (fst kv) \<and> unique_keys (snd kv)) \<and>
        distinct (map (\<lambda>kv. n_Value (fst kv)) (pairs content))
      else (\<forall>c\<in>set content. unique_keys c))"

lemma reject_exact:
  "rejectDuplicateKeys node path = None \<longleftrightarrow> unique_keys node"
  "reject_children nodes path = None \<longleftrightarrow> (\<forall>c\<in>set nodes. unique_keys c)"
  "reject_pairs seen nodes path = None \<longleftrightarrow>
     (\<forall>kv\<in>set (pairs nodes). string_key (fst kv) \<and> unique_keys (snd kv)) \<and>
     distinct (map (\<lambda>kv. n_Value (fst kv)) (pairs nodes)) \<and>
     set (map (\<lambda>kv. n_Value (fst kv)) (pairs nodes)) \<inter> set seen = {}"
proof (induction node path and nodes path and seen nodes path rule: rejectDuplicateKeys_reject_children_reject_pairs.induct)
  case (4 seen key val rest path)
  then show ?case by (auto simp: string_key_def split: option.splits)
qed (auto split: option.splits)

section \<open>The schema\<close>

datatype shape = Scalar nodeKind | Items shape | Fields "(string \<times> shape) list" | Entries shape

definition has_kind :: "yaml_node \<Rightarrow> nodeKind \<Rightarrow> bool" where
  "has_kind node expected = (expectNode node expected '''' = None)"

primrec conforms :: "shape \<Rightarrow> yaml_node \<Rightarrow> bool" where
  "conforms (Scalar k) n = has_kind n k"
| "conforms (Items s) n = (has_kind n KindSeq \<and> (\<forall>c\<in>set (n_Content n). conforms s c))"
| "conforms (Fields fs) n =
     (has_kind n KindMap \<and>
      (\<forall>kv\<in>set (pairs (n_Content n)).
         case map_of (map (map_prod (\<lambda>x. x) conforms) fs) (n_Value (fst kv)) of
           None \<Rightarrow> True
         | Some c \<Rightarrow> c (snd kv)))"
| "conforms (Entries s) n =
     (has_kind n KindMap \<and> (\<forall>kv\<in>set (pairs (n_Content n)). string_key (fst kv) \<and> conforms s (snd kv)))"

abbreviation text_shape :: shape where "text_shape \<equiv> Scalar KindString"
abbreviation texts_shape :: shape where "texts_shape \<equiv> Items text_shape"

definition transport_shape :: shape where
  "transport_shape = Fields [(''type'', text_shape), (''identity'', text_shape), (''service'', text_shape)]"

definition selector_shape :: shape where
  "selector_shape = Fields [(''countries'', texts_shape), (''rirs'', texts_shape), (''groups'', texts_shape),
     (''asns'', texts_shape), (''ip_lists'', texts_shape), (''providers'', texts_shape)]"

definition policy_shape :: shape where
  "policy_shape = Fields [(''name'', text_shape), (''priority'', Scalar KindInt), (''direction'', text_shape),
     (''mode'', text_shape), (''traffic'', texts_shape), (''include'', selector_shape), (''exclude'', selector_shape)]"

definition firewall_shape :: shape where
  "firewall_shape = Fields [(''backend'', text_shape), (''deny_action'', text_shape), (''ipv4'', Scalar KindBool),
     (''ipv6'', Scalar KindBool),
     (''nftables'', Fields [(''table'', text_shape), (''priority'', Scalar KindInt)]),
     (''iptables'', Fields [(''attachments'', Items (Fields [(''chain'', text_shape), (''direction'', text_shape),
        (''input_interfaces'', texts_shape), (''output_interfaces'', texts_shape),
        (''original_destination'', Scalar KindBool)]))])]"

definition ip_list_shape :: shape where
  "ip_list_shape = Fields [(''url'', text_shape), (''refresh_interval'', text_shape), (''request_timeout'', text_shape),
     (''transport'', transport_shape),
     (''csv'', Fields [(''delimiter'', text_shape), (''header'', Scalar KindBool), (''ip_column'', Scalar KindInt),
        (''filter'', Fields [(''column'', Scalar KindInt), (''op'', text_shape), (''value'', Scalar KindNumber)])])]"

definition config_shape :: shape where
  "config_shape = Fields [
     (''version'', Scalar KindInt),
     (''logging'', Fields [(''level'', text_shape), (''format'', text_shape)]),
     (''metrics'', Fields [(''listen'', text_shape)]),
     (''global'', Fields [(''allowlist'', texts_shape), (''blocklist'', texts_shape)]),
     (''firewall'', firewall_shape),
     (''geo'', Fields [(''country_provider'', text_shape), (''refresh_interval'', text_shape),
        (''request_timeout'', text_shape), (''refresh_jitter'', text_shape)]),
     (''providers'', Fields [(''refresh_interval'', text_shape), (''request_timeout'', text_shape)]),
     (''openziti'', Fields [(''identities'', Entries (Fields [(''identity_file'', text_shape)]))]),
     (''ip_lists'', Entries ip_list_shape),
     (''groups'', Entries texts_shape),
     (''policies'', Items policy_shape),
     (''crowdsec'', Fields [(''enabled'', Scalar KindBool), (''lapi_url'', text_shape), (''api_key_file'', text_shape),
        (''update_frequency'', text_shape), (''transport'', transport_shape)])]"

section \<open>The checks implement the schema\<close>

text \<open>A check that runs after the kind check of its node implements a shape.\<close>

named_theorems shape_rep

definition represents :: "nodeKind \<Rightarrow> check \<Rightarrow> shape \<Rightarrow> bool" where
  "represents k f s = (\<forall>v p. has_kind v k \<and> f v p = None \<longleftrightarrow> conforms s v)"

lemma first_error_None: "(case x of None \<Rightarrow> y | Some e \<Rightarrow> Some e) = None \<longleftrightarrow> x = None \<and> y = None"
  by (cases x) auto

lemma expectNode_None: "expectNode n k path = None \<longleftrightarrow> has_kind n k"
  by (simp add: has_kind_def expectNode_def Let_def split: nodeKind.splits)

lemma both_checks_None: "both_checks f g n path = None \<longleftrightarrow> f n path = None \<and> g n path = None"
  by (simp add: both_checks_def split: option.splits)

lemma leaf_rep [shape_rep]: "represents k (\<lambda>_ _. None) (Scalar k)"
  by (simp add: represents_def)

abbreviation nested_check :: "(string \<times> check) list \<Rightarrow> string \<Rightarrow> check" where
  "nested_check nested name \<equiv> (case map_of nested name of None \<Rightarrow> \<lambda>_ _. None | Some f \<Rightarrow> f)"

lemma check_fields_None:
  "check_fields content path kinds nested = None \<longleftrightarrow>
     (\<forall>kv\<in>set (pairs content).
        case map_of kinds (n_Value (fst kv)) of
          None \<Rightarrow> True
        | Some k \<Rightarrow> has_kind (snd kv) k \<and>
            nested_check nested (n_Value (fst kv)) (snd kv) (path @ ''.'' @ n_Value (fst kv)) = None)"
proof (induction content rule: pairs.induct)
  case (1 key val rest)
  then show ?case
    by (cases "map_of kinds (n_Value key)"; cases "map_of nested (n_Value key)")
      (simp_all add: Let_def first_error_None expectNode_None)
qed simp_all

lemma fields_rep:
  assumes f: "\<And>node path. f node path = checkMappingFields node path kinds nested"
    and all: "list_all2 (\<lambda>ns nk. fst ns = fst nk \<and> represents (snd nk) (nested_check nested (fst ns)) (snd ns)) fs kinds"
  shows "represents KindMap f (Fields fs)"
proof -
  have "(case map_of (map (map_prod (\<lambda>x. x) conforms) fs) name of None \<Rightarrow> True | Some c \<Rightarrow> c v) \<longleftrightarrow>
     (case map_of kinds name of None \<Rightarrow> True | Some k \<Rightarrow> has_kind v k \<and> nested_check nested name v p = None)" for name v p
    using all by (induction rule: list_all2_induct) (auto simp: represents_def split: option.splits)
  then show ?thesis
    by (auto simp: represents_def f checkMappingFields_def check_fields_None)
qed



lemma check_items_None:
  "represents k f s \<Longrightarrow> check_items (both_checks (\<lambda>n. expectNode n k) f) i nodes path = None \<longleftrightarrow> (\<forall>c\<in>set nodes. conforms s c)"
  by (induction nodes arbitrary: i) (simp_all add: first_error_None both_checks_None expectNode_None represents_def)

lemma items_rep:
  assumes "\<And>node path. f node path = check_items (both_checks (\<lambda>n. expectNode n k) g) 0 (n_Content node) path"
    and "represents k g s"
  shows "represents KindSeq f (Items s)"
  by (simp add: represents_def assms(1) check_items_None [OF assms(2)])

lemma check_entries_None:
  "represents k f s \<Longrightarrow> check_entries (both_checks (\<lambda>n. expectNode n k) f) nodes path = None \<longleftrightarrow>
     (\<forall>kv\<in>set (pairs nodes). string_key (fst kv) \<and> conforms s (snd kv))"
  by (induction "both_checks (\<lambda>n. expectNode n k) f" nodes path rule: check_entries.induct)
    (auto simp: first_error_None both_checks_None expectNode_None represents_def string_key_def)

lemma entries_rep:
  assumes "\<And>node path. f node path = check_entries (both_checks (\<lambda>n. expectNode n k) g) (n_Content node) path"
    and "represents k g s"
  shows "represents KindMap f (Entries s)"
  by (simp add: represents_def assms(1) check_entries_None [OF assms(2)])

lemma checkStringSequence_rep [shape_rep]: "represents KindSeq checkStringSequence texts_shape"
proof (rule items_rep)
  show "checkStringSequence node path = check_items (both_checks (\<lambda>n. expectNode n KindString) (\<lambda>_ _. None)) 0 (n_Content node) path"
    for node path
  proof -
    have "both_checks (\<lambda>n. expectNode n KindString) (\<lambda>_ _. None) = (\<lambda>n. expectNode n KindString)"
      by (simp add: fun_eq_iff both_checks_def split: option.splits)
    then show ?thesis by (simp add: checkStringSequence_def)
  qed
qed (rule leaf_rep)

lemma transport_rep [shape_rep]: "represents KindMap checkTransportShape transport_shape"
  unfolding transport_shape_def by (rule fields_rep [OF checkTransportShape_def]) (simp add: shape_rep)

lemma selector_rep [shape_rep]: "represents KindMap checkSelectorShape selector_shape"
  unfolding selector_shape_def by (rule fields_rep [OF checkSelectorShape_def]) (simp add: shape_rep)

lemma policy_rep [shape_rep]: "represents KindMap checkPolicyShape policy_shape"
  unfolding policy_shape_def by (rule fields_rep [OF checkPolicyShape_def]) (simp add: shape_rep)

lemma attachment_rep [shape_rep]:
  "represents KindMap check_attachment (Fields [(''chain'', text_shape), (''direction'', text_shape),
     (''input_interfaces'', texts_shape), (''output_interfaces'', texts_shape), (''original_destination'', Scalar KindBool)])"
  by (rule fields_rep [OF check_attachment_def]) (simp add: shape_rep)

lemma firewall_rep [shape_rep]: "represents KindMap checkFirewall firewall_shape"
proof -
  have nft: "represents KindMap checkNftables (Fields [(''table'', text_shape), (''priority'', Scalar KindInt)])"
    by (rule fields_rep [OF checkNftables_def]) (simp add: shape_rep)
  note ipt = fields_rep [OF checkIPTables_def, of "[(''attachments'', _)]"]
  show ?thesis unfolding firewall_shape_def
    by (rule fields_rep [OF checkFirewall_def])
      (simp add: shape_rep nft ipt items_rep [OF checkAttachmentsShape_def attachment_rep])
qed

lemma ip_list_rep [shape_rep]: "represents KindMap check_ip_list ip_list_shape"
proof -
  have filter: "represents KindMap checkCSVFilterShape
      (Fields [(''column'', Scalar KindInt), (''op'', text_shape), (''value'', Scalar KindNumber)])"
    by (rule fields_rep [OF checkCSVFilterShape_def]) (simp add: shape_rep)
  have csv: "represents KindMap checkCSVShape (Fields [(''delimiter'', text_shape), (''header'', Scalar KindBool),
      (''ip_column'', Scalar KindInt), (''filter'', Fields [(''column'', Scalar KindInt), (''op'', text_shape), (''value'', Scalar KindNumber)])])"
    by (rule fields_rep [OF checkCSVShape_def]) (simp add: shape_rep filter)
  show ?thesis unfolding ip_list_shape_def by (rule fields_rep [OF check_ip_list_def]) (simp add: shape_rep csv)
qed

lemma openziti_rep [shape_rep]:
  "represents KindMap checkOpenZiti (Fields [(''identities'', Entries (Fields [(''identity_file'', text_shape)]))])"
proof -
  have "represents KindMap check_identity (Fields [(''identity_file'', text_shape)])"
    by (rule fields_rep [OF check_identity_def]) (simp add: shape_rep)
  from entries_rep [OF checkIdentitiesShape_def this] show ?thesis
    by (intro fields_rep [OF checkOpenZiti_def]) simp
qed

lemma flat_reps [shape_rep]:
  "represents KindMap checkLogging (Fields [(''level'', text_shape), (''format'', text_shape)])"
  "represents KindMap checkMetrics (Fields [(''listen'', text_shape)])"
  "represents KindMap checkGlobal (Fields [(''allowlist'', texts_shape), (''blocklist'', texts_shape)])"
  "represents KindMap checkGeo (Fields [(''country_provider'', text_shape), (''refresh_interval'', text_shape),
     (''request_timeout'', text_shape), (''refresh_jitter'', text_shape)])"
  "represents KindMap checkProviders (Fields [(''refresh_interval'', text_shape), (''request_timeout'', text_shape)])"
  "represents KindMap checkCrowdSec (Fields [(''enabled'', Scalar KindBool), (''lapi_url'', text_shape),
     (''api_key_file'', text_shape), (''update_frequency'', text_shape), (''transport'', transport_shape)])"
  by (rule fields_rep [OF checkLogging_def] fields_rep [OF checkMetrics_def] fields_rep [OF checkGlobal_def]
      fields_rep [OF checkGeo_def] fields_rep [OF checkProviders_def] fields_rep [OF checkCrowdSec_def]; simp add: shape_rep)+

section \<open>Properties\<close>

text \<open>
  (C30) \<open>rejectDuplicateKeys\<close> accepts exactly the node trees in which every mapping has
  string keys, no key twice, at every depth.
\<close>

theorem rejectDuplicateKeys_exact: "rejectDuplicateKeys node path = None \<longleftrightarrow> unique_keys node"
  by (rule reject_exact(1))


end
