(* ===== verification/Config_Raw.thy ===== *)
theory Config_Raw
  imports Config Config_Shape
begin

text \<open>
  The raw configuration of \<open>internal/config/parse.go\<close>, as YAML is decoded into it, and the
  errors of normalisation. A Go pointer is an option, \<open>nil\<close> being \<open>None\<close>; a Go map is an
  association list whose order stands for the iteration order. An error is the path of the field
  and the reason; the reasons carry the values their messages quote.
\<close>

record rawTransport =
  rt_Type :: "string option"
  rt_Identity :: "string option"
  rt_Service :: "string option"

record rawOpenZitiIdentity =
  ri_IdentityFile :: "string option"

record rawOpenZiti =
  ro_Identities :: "(string \<times> rawOpenZitiIdentity option) list"

record rawCSVFilter =
  rf_Column :: "int option"
  rf_Op :: "string option"
  rf_Value :: "float64 option"

record rawCSV =
  rc_Delimiter :: "string option"
  rc_Header :: "bool option"
  rc_IPColumn :: "int option"
  rc_Filter :: "rawCSVFilter option"

record rawIPList =
  rl_URL :: "string option"
  rl_RefreshInterval :: "string option"
  rl_RequestTimeout :: "string option"
  rl_Transport :: "rawTransport option"
  rl_CSV :: "rawCSV option"

record rawLogging =
  rlg_Level :: "string option"
  rlg_Format :: "string option"

record rawMetrics =
  rm_Listen :: "string option"

record rawGlobal =
  rg_Allowlist :: "string list option"
  rg_Blocklist :: "string list option"

record rawNftables =
  rn_Table :: "string option"
  rn_Priority :: "int option"

record rawAttachment =
  ra_Chain :: "string option"
  ra_Direction :: "string option"
  ra_InputInterfaces :: "string list option"
  ra_OutputInterfaces :: "string list option"
  ra_OriginalDestination :: "bool option"

record rawIPTables =
  rp_Attachments :: "rawAttachment list option"

record rawFirewall =
  rfw_Backend :: "string option"
  rfw_DenyAction :: "string option"
  rfw_IPv4 :: "bool option"
  rfw_IPv6 :: "bool option"
  rfw_Nftables :: "rawNftables option"
  rfw_IPTables :: "rawIPTables option"

record rawGeo =
  rge_CountryProvider :: "string option"
  rge_RefreshInterval :: "string option"
  rge_RequestTimeout :: "string option"
  rge_RefreshJitter :: "string option"

record rawProviders =
  rpv_RefreshInterval :: "string option"
  rpv_RequestTimeout :: "string option"

record rawCrowdSec =
  rcs_Enabled :: "bool option"
  rcs_LAPIURL :: "string option"
  rcs_APIKeyFile :: "string option"
  rcs_UpdateFrequency :: "string option"
  rcs_Transport :: "rawTransport option"

record rawSelector =
  rse_Countries :: "string list option"
  rse_RIRs :: "string list option"
  rse_Groups :: "string list option"
  rse_ASNs :: "string list option"
  rse_IPLists :: "string list option"
  rse_Providers :: "string list option"

record rawPolicy =
  rpo_Name :: "string option"
  rpo_Priority :: "int option"
  rpo_Direction :: "string option"
  rpo_Mode :: "string option"
  rpo_Traffic :: "string list option"
  rpo_Include :: "rawSelector option"
  rpo_Exclude :: "rawSelector option"

record rawConfig =
  rcg_Version :: "int option"
  rcg_Logging :: "rawLogging option"
  rcg_Metrics :: "rawMetrics option"
  rcg_Global :: "rawGlobal option"
  rcg_Firewall :: "rawFirewall option"
  rcg_Geo :: "rawGeo option"
  rcg_Providers :: "rawProviders option"
  rcg_OpenZiti :: "rawOpenZiti option"
  rcg_IPLists :: "(string \<times> rawIPList option) list"
  rcg_Groups :: "(string \<times> string list) list"
  rcg_Policies :: "rawPolicy list"
  rcg_CrowdSec :: "rawCrowdSec option"

section \<open>Errors\<close>

datatype config_reason =
    Required
  | Unparsable
  | Not_exactly_1 int
  | Unsupported string
  | Forbidden_for_direct
  | Unknown string
  | Empty
  | Scoped_address
  | Invalid_address
  | Invalid_set nat
  | Not_32_bit
  | Priority_too_low
  | Not_a_direction
  | Needs_interface
  | Not_absolute
  | Bad_name
  | Bad_url
  | User_information
  | Fragment
  | Shadows_builtin
  | Not_a_mode
  | Negative
  | Any_not_alone
  | Bad_transport
  | Bad_port
  | Duplicate_policy
  | Same_priority string int
  | Bad_duration
  | Not_positive
  | Bad_listen
  | Bad_delimiter
  | Bad_operator
  | Not_finite
  | Incomplete
  | Not_canonical
  | Malformed_yaml
  | Shape shape_error
  | Many_documents

datatype config_error = Config_error (ce_path: string) (ce_reason: config_reason)

text \<open>A pointer field with its default.\<close>

definition or_default :: "'a option \<Rightarrow> 'a \<Rightarrow> 'a" where
  "or_default p d = (case p of None \<Rightarrow> d | Some v \<Rightarrow> v)"

lemma or_default_simps [simp]: "or_default None d = d" "or_default (Some v) d = v"
  by (simp_all add: or_default_def)

end
