(* ===== verification/Config_Traffic.thy ===== *)
theory Config_Traffic
  imports Config_Raw
begin

text \<open>
  The traffic scopes of \<open>internal/config/normalize.go\<close>: parsing of ports and port ranges,
  and the merge that makes the ranges of a scope disjoint. Ports keep their 16 bits; the test
  for adjacency is carried out on \<open>int\<close>, so it does not wrap at the last port.
\<close>

fun strings_Split :: "char \<Rightarrow> string \<Rightarrow> string list" where
  "strings_Split c [] = [[]]"
| "strings_Split c (x # xs) =
     (if x = c then [] # strings_Split c xs
      else (case strings_Split c xs of p # ps \<Rightarrow> (x # p) # ps | [] \<Rightarrow> [[x]]))"

definition decimalDigits :: "string \<Rightarrow> bool" where
  "decimalDigits v = (if v = '''' then False else (\<forall>r\<in>set v. is_digit r))"

text \<open>\<open>strconv.ParseUint(value, 10, 16)\<close> fails on digits exactly when the value exceeds 16 bits.\<close>

definition decimalPort :: "string \<Rightarrow> 16 word option" where
  "decimalPort v =
     (if v = '''' then None
      else if \<exists>r\<in>set v. \<not> is_digit r then None
      else if 65535 < digits_value v \<or> digits_value v = 0 then None
      else Some (of_nat (digits_value v)))"

definition parsePortRange :: "string \<Rightarrow> (16 word \<times> 16 word) option" where
  "parsePortRange v =
     (if v = '''' then None
      else
        (let parts = strings_Split (CHR ''-'') v in
         if 2 < length parts \<or> parts ! 0 = '''' then None
         else
           (case decimalPort (parts ! 0) of
              None \<Rightarrow> None
            | Some start \<Rightarrow>
                (if length parts = 2 then
                   (if parts ! 1 = '''' then None
                    else
                      (case decimalPort (parts ! 1) of
                         None \<Rightarrow> None
                       | Some end' \<Rightarrow> if end' < start then None else Some (start, end')))
                 else if start < start then None
                 else Some (start, start)))))"

definition port_range_less :: "PortRange \<Rightarrow> PortRange \<Rightarrow> bool" where
  "port_range_less a b =
     (if pr_Start a \<noteq> pr_Start b then pr_Start a < pr_Start b else pr_End a < pr_End b)"

fun merge_loop :: "PortRange list \<Rightarrow> PortRange list \<Rightarrow> PortRange list" where
  "merge_loop merged [] = merged"
| "merge_loop merged (next # rest) =
     (let last' = last merged in
      if int (unat (pr_Start next)) \<le> int (unat (pr_End last')) + 1 then
        merge_loop
          (if pr_End last' < pr_End next then butlast merged @ [last'\<lparr>pr_End := pr_End next\<rparr>] else merged) rest
      else merge_loop (merged @ [next]) rest)"

definition mergePortRanges :: "PortRange list \<Rightarrow> PortRange list" where
  "mergePortRanges vs =
     (if length vs = 0 then []
      else (let out = sort_slice port_range_less vs in merge_loop (take 1 out) (drop 1 out)))"

definition traffic_entry :: "nat \<Rightarrow> string \<Rightarrow> string \<Rightarrow> TrafficScope \<Rightarrow> config_error + TrafficScope" where
  "traffic_entry entries field v scope =
     (if v = ''any'' then
        (if entries \<noteq> 1 then Inl (Config_error field Any_not_alone) else Inr (scope\<lparr>ts_Any := True\<rparr>))
      else if v = ''icmp'' then Inr (scope\<lparr>ts_ICMP := True\<rparr>)
      else if v = ''icmpv6'' then Inr (scope\<lparr>ts_ICMPv6 := True\<rparr>)
      else
        (let parts = strings_Split (CHR ''/'') v in
         if CHR ''/'' \<in> set v \<and> (length parts \<noteq> 2 \<or> (parts ! 1 \<noteq> ''tcp'' \<and> parts ! 1 \<noteq> ''udp''))
         then Inl (Config_error field Bad_transport)
         else
           (let transport = (if CHR ''/'' \<in> set v then parts ! 1 else ''tcp'');
                portText = (if CHR ''/'' \<in> set v then parts ! 0 else v) in
            case parsePortRange portText of
              None \<Rightarrow> Inl (Config_error field Bad_port)
            | Some (start, end') \<Rightarrow>
                (let r = \<lparr>pr_Start = start, pr_End = end'\<rparr> in
                 if transport = ''tcp'' then Inr (scope\<lparr>ts_TCP := ts_TCP scope @ [r]\<rparr>)
                 else Inr (scope\<lparr>ts_UDP := ts_UDP scope @ [r]\<rparr>)))))"

fun traffic_loop :: "nat \<Rightarrow> string \<Rightarrow> nat \<Rightarrow> TrafficScope \<Rightarrow> string list \<Rightarrow> config_error + TrafficScope" where
  "traffic_loop entries policy i scope [] = Inr scope"
| "traffic_loop entries policy i scope (v # rest) =
     result_bind (traffic_entry entries (indexed (''policy '' @ policy @ ''.traffic'') i) v scope)
       (\<lambda>scope'. traffic_loop entries policy (Suc i) scope' rest)"

definition normalizeTraffic :: "string list \<Rightarrow> string \<Rightarrow> config_error + TrafficScope" where
  "normalizeTraffic vs policy =
     result_bind (traffic_loop (length vs) policy 0 zero_traffic vs) (\<lambda>scope.
       Inr (scope\<lparr>ts_TCP := mergePortRanges (ts_TCP scope), ts_UDP := mergePortRanges (ts_UDP scope)\<rparr>))"

section \<open>Merging\<close>

definition port_in :: "PortRange list \<Rightarrow> 16 word \<Rightarrow> bool" where
  "port_in rs p = (\<exists>r\<in>set rs. pr_Start r \<le> p \<and> p \<le> pr_End r)"

definition ports_ok :: "PortRange list \<Rightarrow> bool" where
  "ports_ok rs = (\<forall>r\<in>set rs. pr_Start r \<le> pr_End r)"

text \<open>Disjoint ascending ranges with at least one port between neighbours.\<close>

definition separated :: "PortRange list \<Rightarrow> bool" where
  "separated rs = (ports_ok rs \<and> sorted_wrt (\<lambda>r s. unat (pr_End r) + 1 < unat (pr_Start s)) rs)"

lemma port_in_append [simp]: "port_in (xs @ ys) p \<longleftrightarrow> port_in xs p \<or> port_in ys p"
  by (auto simp: port_in_def)

lemma merge_loop_correct:
  assumes "merged \<noteq> []" "separated merged" "ports_ok rest"
    "sorted_wrt (\<lambda>r s. pr_Start r \<le> pr_Start s) (last merged # rest)"
  shows "separated (merge_loop merged rest) \<and> (\<forall>p. port_in (merge_loop merged rest) p \<longleftrightarrow> port_in merged p \<or> port_in rest p)"
  using assms
proof (induction rest arbitrary: merged)
  case Nil
  then show ?case by (simp add: port_in_def)
next
  case (Cons r rest)
  define front l where "front = butlast merged" and "l = last merged"
  have m: "merged = front @ [l]" using Cons.prems(1) by (simp add: front_def l_def)
  have l: "pr_Start l \<le> pr_End l" "pr_Start r \<le> pr_End r" "pr_Start l \<le> pr_Start r"
    using Cons.prems by (auto simp: separated_def ports_ok_def m)
  have rest: "ports_ok rest" using Cons.prems(3) by (simp add: ports_ok_def)
  show ?case
  proof (cases "int (unat (pr_Start r)) \<le> int (unat (pr_End l)) + 1")
    case True
    define l' where "l' = (if pr_End l < pr_End r then l\<lparr>pr_End := pr_End r\<rparr> else l)"
    have step: "merge_loop merged (r # rest) = merge_loop (front @ [l']) rest"
      using True by (simp add: m l'_def Let_def)
    have start: "pr_Start l' = pr_Start l" by (simp add: l'_def)
    have in': "pr_Start l' \<le> p \<and> p \<le> pr_End l' \<longleftrightarrow> pr_Start l \<le> p \<and> p \<le> pr_End l \<or> pr_Start r \<le> p \<and> p \<le> pr_End r" for p
    proof -
      have "unat (pr_Start r) \<le> unat (pr_End l) + 1" using True by linarith
      then show ?thesis using l by (auto simp: l'_def word_le_nat_alt word_less_nat_alt)
    qed
    have sep: "separated (front @ [l'])"
      using Cons.prems(2) l by (auto simp: separated_def ports_ok_def m sorted_wrt_append l'_def)
    have srt: "sorted_wrt (\<lambda>r s. pr_Start r \<le> pr_Start s) (last (front @ [l']) # rest)"
      using Cons.prems(4) by (simp add: m start)
    show ?thesis
      unfolding step using Cons.IH [OF _ sep rest srt] in' by (auto simp: m port_in_def)
  next
    case False
    have step: "merge_loop merged (r # rest) = merge_loop (merged @ [r]) rest" using False by (simp add: m Let_def)
    have "unat (pr_End s) + 1 < unat (pr_Start r)" if "s \<in> set merged" for s
    proof (cases "s = l")
      case True
      show ?thesis using False unfolding True by linarith
    next
      case False
      then have "unat (pr_End s) + 1 < unat (pr_Start l)"
        using Cons.prems(2) that by (auto simp: separated_def m sorted_wrt_append)
      then show ?thesis using l(3) by (simp add: word_le_nat_alt)
    qed
    then have sep: "separated (merged @ [r])"
      using Cons.prems(2) l(2) by (auto simp: separated_def ports_ok_def sorted_wrt_append)
    have srt: "sorted_wrt (\<lambda>r s. pr_Start r \<le> pr_Start s) (last (merged @ [r]) # rest)" using Cons.prems(4) by simp
    show ?thesis unfolding step using Cons.IH [OF _ sep rest srt] by (auto simp: port_in_def)
  qed
qed

lemma strict_weak_ports: "strict_weak port_range_less"
proof -
  have "port_range_less a b \<longleftrightarrow> (pr_Start a, pr_End a) < (pr_Start b, pr_End b)" for a b
    by (auto simp: port_range_less_def)
  then show ?thesis by (rule strict_weak_key)
qed

lemma mergePortRanges_correct:
  assumes "ports_ok vs"
  shows "separated (mergePortRanges vs)" "port_in (mergePortRanges vs) p \<longleftrightarrow> port_in vs p"
proof -
  let ?out = "sort_slice port_range_less vs"
  have "separated (mergePortRanges vs) \<and> (\<forall>p. port_in (mergePortRanges vs) p \<longleftrightarrow> port_in vs p)"
  proof (cases ?out)
    case Nil
    then show ?thesis by (simp add: mergePortRanges_def separated_def ports_ok_def port_in_def)
  next
    case (Cons r rest)
    have "sorted_wrt (\<lambda>x y. \<not> port_range_less y x) ?out" by (rule strict_weak.sorted_sort_slice [OF strict_weak_ports])
    then have "sorted_wrt (\<lambda>x y. pr_Start x \<le> pr_Start y) ?out"
      by (rule sorted_wrt_mono_rel [rotated]) (auto simp: port_range_less_def split: if_splits)
    moreover have ok: "ports_ok ?out" using assms by (simp add: ports_ok_def)
    ultimately have "separated (merge_loop [r] rest) \<and> (\<forall>p. port_in (merge_loop [r] rest) p \<longleftrightarrow> port_in [r] p \<or> port_in rest p)"
      using Cons by (intro merge_loop_correct) (auto simp: separated_def ports_ok_def)
    moreover have "port_in vs p \<longleftrightarrow> port_in [r] p \<or> port_in rest p" for p
    proof -
      have "port_in vs p \<longleftrightarrow> port_in ?out p" by (simp add: port_in_def)
      then show ?thesis by (simp add: Cons port_in_def)
    qed
    moreover have "mergePortRanges vs = merge_loop [r] rest" using Cons by (auto simp: mergePortRanges_def Let_def)
    ultimately show ?thesis by simp
  qed
  then show "separated (mergePortRanges vs)" "port_in (mergePortRanges vs) p \<longleftrightarrow> port_in vs p" by blast+
qed

section \<open>Parsing\<close>

lemma decimalPort_pos: "decimalPort v = Some p \<Longrightarrow> unat p = digits_value v \<and> 0 < digits_value v"
  by (auto simp: decimalPort_def unat_of_nat split: if_splits)

lemma parsePortRange_ok: "parsePortRange v = Some (s, e) \<Longrightarrow> 0 < s \<and> s \<le> e"
  by (auto simp: parsePortRange_def Let_def word_gt_0 not_less dest!: decimalPort_pos split: if_splits option.splits)

lemma traffic_entry_ok:
  assumes "traffic_entry entries field v scope = Inr scope'" "ports_ok (ts_TCP scope)" "ports_ok (ts_UDP scope)"
  shows "ports_ok (ts_TCP scope') \<and> ports_ok (ts_UDP scope')"
  using assms
  by (auto simp: traffic_entry_def Let_def ports_ok_def dest!: parsePortRange_ok split: if_splits option.splits prod.splits)

lemma traffic_loop_ok:
  "traffic_loop entries policy i scope vs = Inr scope' \<Longrightarrow> ports_ok (ts_TCP scope) \<Longrightarrow> ports_ok (ts_UDP scope) \<Longrightarrow>
     ports_ok (ts_TCP scope') \<and> ports_ok (ts_UDP scope')"
  by (induction vs arbitrary: i scope) (auto dest: traffic_entry_ok)

text \<open>What one entry of the list stands for, for TCP or UDP ports.\<close>

definition entry_ports :: "string \<Rightarrow> string \<Rightarrow> (16 word \<times> 16 word) option" where
  "entry_ports transport v =
     (if v = ''any'' \<or> v = ''icmp'' \<or> v = ''icmpv6'' then None
      else if CHR ''/'' \<in> set v then
        (if strings_Split (CHR ''/'') v ! 1 = transport then parsePortRange (strings_Split (CHR ''/'') v ! 0) else None)
      else if transport = ''tcp'' then parsePortRange v else None)"

lemma traffic_entry_ports:
  assumes "traffic_entry entries field v scope = Inr scope'"
  shows "port_in (ts_TCP scope') p \<longleftrightarrow> port_in (ts_TCP scope) p \<or> (\<exists>s e. entry_ports ''tcp'' v = Some (s, e) \<and> s \<le> p \<and> p \<le> e)"
    "port_in (ts_UDP scope') p \<longleftrightarrow> port_in (ts_UDP scope) p \<or> (\<exists>s e. entry_ports ''udp'' v = Some (s, e) \<and> s \<le> p \<and> p \<le> e)"
  using assms
  by (auto simp: traffic_entry_def entry_ports_def Let_def port_in_def split: if_splits option.splits prod.splits)

lemma traffic_loop_ports:
  assumes "traffic_loop entries policy i scope vs = Inr scope'"
  shows "(port_in (ts_TCP scope') p \<longleftrightarrow> port_in (ts_TCP scope) p \<or>
      (\<exists>v\<in>set vs. \<exists>s e. entry_ports ''tcp'' v = Some (s, e) \<and> s \<le> p \<and> p \<le> e)) \<and>
    (port_in (ts_UDP scope') p \<longleftrightarrow> port_in (ts_UDP scope) p \<or>
      (\<exists>v\<in>set vs. \<exists>s e. entry_ports ''udp'' v = Some (s, e) \<and> s \<le> p \<and> p \<le> e))"
  using assms
proof (induction vs arbitrary: i scope)
  case (Cons v vs)
  from Cons.prems obtain sc where sc: "traffic_entry entries (indexed (''policy '' @ policy @ ''.traffic'') i) v scope = Inr sc"
    "traffic_loop entries policy (Suc i) sc vs = Inr scope'" by (auto simp: result_bind_Inr)
  from Cons.IH [OF sc(2)] show ?case
    unfolding traffic_entry_ports [OF sc(1)] by auto
qed simp

section \<open>Properties\<close>

text \<open>
  (C31) A normalized traffic scope admits exactly the TCP and UDP ports of the entries it was
  written as, and its ranges are disjoint, in order and never adjacent, up to port 65535.
\<close>

theorem normalizeTraffic_exact:
  assumes "normalizeTraffic vs policy = Inr scope"
  shows "(port_in (ts_TCP scope) p \<longleftrightarrow> (\<exists>v\<in>set vs. \<exists>s e. entry_ports ''tcp'' v = Some (s, e) \<and> s \<le> p \<and> p \<le> e))
    \<and> (port_in (ts_UDP scope) p \<longleftrightarrow> (\<exists>v\<in>set vs. \<exists>s e. entry_ports ''udp'' v = Some (s, e) \<and> s \<le> p \<and> p \<le> e))
    \<and> separated (ts_TCP scope) \<and> separated (ts_UDP scope)"
proof -
  from assms obtain sc where sc: "traffic_loop (length vs) policy 0 zero_traffic vs = Inr sc"
    "scope = sc\<lparr>ts_TCP := mergePortRanges (ts_TCP sc), ts_UDP := mergePortRanges (ts_UDP sc)\<rparr>"
    by (auto simp: normalizeTraffic_def result_bind_Inr)
  have ok: "ports_ok (ts_TCP sc)" "ports_ok (ts_UDP sc)"
    using traffic_loop_ok [OF sc(1)] by (auto simp: zero_traffic_def ports_ok_def)
  show ?thesis
    using traffic_loop_ports [OF sc(1), of p] mergePortRanges_correct [OF ok(1)] mergePortRanges_correct [OF ok(2)]
    by (simp add: sc(2) zero_traffic_def port_in_def)
qed

theorem normalizeTraffic_exact_witness:
  "\<exists>scope. normalizeTraffic [''7-8'', ''9/tcp'', ''icmp''] ''p'' = Inr scope \<and> separated (ts_TCP scope) \<and>
     ts_TCP scope = [\<lparr>pr_Start = 7, pr_End = 9\<rparr>]"
proof -
  have "normalizeTraffic [''7-8'', ''9/tcp'', ''icmp''] ''p'' =
    Inr (zero_traffic\<lparr>ts_TCP := [\<lparr>pr_Start = 7, pr_End = 9\<rparr>], ts_ICMP := True\<rparr>)"
    by (simp add: normalizeTraffic_def traffic_entry_def parsePortRange_def decimalPort_def is_digit_def digits_value_def
        digit_value_def zero_traffic_def mergePortRanges_def sort_slice_def port_range_less_def Let_def)
  from this normalizeTraffic_exact [OF this] show ?thesis by auto
qed

end
