(* ===== verification/Config_CSV.thy ===== *)
theory Config_CSV
  imports Config_Traffic
begin

text \<open>
  \<open>internal/config/csv.go\<close>: the CSV options of an IP list, and their canonical text form,
  under which a persisted list is found again. A \<open>float64\<close> is its bit pattern; printing and
  parsing one (\<open>strconv.FormatFloat(v, 'g', -1, 64)\<close> and \<open>strconv.ParseFloat\<close>) are
  arguments, and the round trip rests on their documented inverse law for finite values.
\<close>

section \<open>Runes and numbers\<close>

text \<open>
  \<open>utf8.DecodeRuneInString\<close>: the first rune and its size; an invalid encoding is
  \<open>RuneError\<close> with size 1, and no rune has size 0.
\<close>

definition RuneError :: nat where
  "RuneError = 0xFFFD"

definition continuation :: "nat \<Rightarrow> bool" where
  "continuation b = (0x80 \<le> b \<and> b \<le> 0xBF)"

definition DecodeRune :: "string \<Rightarrow> nat \<times> nat" where
  "DecodeRune s =
     (let bs = map of_char s; n = length s; b0 = bs ! 0; b1 = bs ! 1; b2 = bs ! 2; b3 = bs ! 3 in
      if n = 0 then (RuneError, 0)
      else if b0 < 0x80 then (b0, 1)
      else if 0xC2 \<le> b0 \<and> b0 \<le> 0xDF \<and> 2 \<le> n \<and> continuation b1 then ((b0 - 0xC0) * 64 + (b1 - 0x80), 2)
      else if 0xE0 \<le> b0 \<and> b0 \<le> 0xEF \<and> 3 \<le> n \<and> continuation b1 \<and> continuation b2 \<and>
              (b0 = 0xE0 \<longrightarrow> 0xA0 \<le> b1) \<and> (b0 = 0xED \<longrightarrow> b1 \<le> 0x9F)
      then ((b0 - 0xE0) * 4096 + (b1 - 0x80) * 64 + (b2 - 0x80), 3)
      else if 0xF0 \<le> b0 \<and> b0 \<le> 0xF4 \<and> 4 \<le> n \<and> continuation b1 \<and> continuation b2 \<and> continuation b3 \<and>
              (b0 = 0xF0 \<longrightarrow> 0x90 \<le> b1) \<and> (b0 = 0xF4 \<longrightarrow> b1 \<le> 0x8F)
      then ((b0 - 0xF0) * 262144 + (b1 - 0x80) * 4096 + (b2 - 0x80) * 64 + (b3 - 0x80), 4)
      else (RuneError, 1))"

lemma DecodeRune_size: "s \<noteq> [] \<Longrightarrow> 0 < snd (DecodeRune s)"
proof -
  have split: "0 < snd x \<Longrightarrow> 0 < snd y \<Longrightarrow> 0 < snd (if c then x else y)" for c and x y :: "nat \<times> nat" by simp
  assume "s \<noteq> []"
  then have "\<not> length s = 0" by simp
  then show ?thesis
    unfolding DecodeRune_def Let_def by (simp only: if_False) (intro split; simp only: snd_conv zero_less_one zero_less_numeral)
qed

function ValidUTF8 :: "string \<Rightarrow> bool" where
  "ValidUTF8 s =
     (if s = [] then True
      else
        (let (r, size) = DecodeRune s in
         if r = RuneError \<and> size = 1 then False else ValidUTF8 (drop size s)))"
  by pat_completeness auto

termination
proof (relation "measure length", goal_cases)
  case (2 s x r n)
  then have "0 < n" using DecodeRune_size [of s] by (metis snd_conv)
  then show ?case using 2(1) by (simp add: length_greater_0_conv [symmetric] del: length_greater_0_conv)
qed simp

declare ValidUTF8.simps [simp del]

definition float_exponent :: "float64 \<Rightarrow> 64 word" where
  "float_exponent v = drop_bit 52 v AND 0x7FF"

definition IsNaN_or_Inf :: "float64 \<Rightarrow> bool" where
  "IsNaN_or_Inf v = (float_exponent v = 0x7FF)"

text \<open>\<open>v == 0\<close> for either sign.\<close>

definition float_is_zero :: "float64 \<Rightarrow> bool" where
  "float_is_zero v = (v = 0 \<or> v = 0x8000000000000000)"

section \<open>Normalisation\<close>

definition zero_filter :: CSVFilterConfig where
  "zero_filter = \<lparr>cf_Column = 0, cf_Op = '''', cf_Value = 0\<rparr>"

definition zero_csv :: CSVConfig where
  "zero_csv = \<lparr>cv_Delimiter = '''', cv_Header = False, cv_IPColumn = 0, cv_Filter = zero_filter\<rparr>"

text \<open>\<open>CSVFilterConfig.IsZero\<close> compares with the zero struct, where \<open>-0.0\<close> equals 0.\<close>

definition filter_IsZero :: "CSVFilterConfig \<Rightarrow> bool" where
  "filter_IsZero f = (cf_Column f = 0 \<and> cf_Op f = '''' \<and> float_is_zero (cf_Value f))"

definition delimiter_ok :: "string \<Rightarrow> bool" where
  "delimiter_ok d =
     (let (r, size) = DecodeRune d in
      \<not> (\<not> ValidUTF8 d \<or> size \<noteq> length d \<or> r = RuneError \<or> r = 0 \<or> r = 0x0D \<or> r = 0x0A \<or> r = 0x22 \<or> r = 0x23))"

definition normalizeCSV :: "CSVConfig \<Rightarrow> string \<Rightarrow> bool \<Rightarrow> config_error + CSVConfig" where
  "normalizeCSV c0 path filterPresent =
     (let c = (if cv_Delimiter c0 = '''' then c0\<lparr>cv_Delimiter := '',''\<rparr> else c0) in
      if \<not> delimiter_ok (cv_Delimiter c) then Inl (Config_error (path @ ''.delimiter'') Bad_delimiter)
      else if cv_IPColumn c \<le> 0 then Inl (Config_error (path @ ''.ip_column'') Not_positive)
      else if \<not> filterPresent then Inr c
      else
        (let f = cv_Filter c in
         if cf_Column f \<le> 0 then Inl (Config_error (path @ ''.filter.column'') Not_positive)
         else if cf_Op f \<notin> {''=='', ''!='', ''<'', ''<='', ''>'', ''>=''}
         then Inl (Config_error (path @ ''.filter.op'') Bad_operator)
         else if IsNaN_or_Inf (cf_Value f) then Inl (Config_error (path @ ''.filter.value'') Not_finite)
         else if float_is_zero (cf_Value f) then Inr (c\<lparr>cv_Filter := f\<lparr>cf_Value := 0\<rparr>\<rparr>)
         else Inr c))"

definition normalizeRawCSV :: "rawCSV \<Rightarrow> string \<Rightarrow> config_error + CSVConfig" where
  "normalizeRawCSV raw path =
     (case rc_IPColumn raw of
        None \<Rightarrow> Inl (Config_error (path @ ''.ip_column'') Required)
      | Some column \<Rightarrow>
          if rc_Delimiter raw = Some '''' then Inl (Config_error (path @ ''.delimiter'') Bad_delimiter)
          else
            (let c = \<lparr>cv_Delimiter = or_default (rc_Delimiter raw) '','', cv_Header = or_default (rc_Header raw) False,
                      cv_IPColumn = column, cv_Filter = zero_filter\<rparr> in
             case rc_Filter raw of
               None \<Rightarrow> normalizeCSV c path False
             | Some f \<Rightarrow>
                 (case rf_Column f of
                    None \<Rightarrow> Inl (Config_error (path @ ''.filter.column'') Required)
                  | Some col \<Rightarrow>
                      (case rf_Op f of
                         None \<Rightarrow> Inl (Config_error (path @ ''.filter.op'') Required)
                       | Some op \<Rightarrow>
                           (case rf_Value f of
                              None \<Rightarrow> Inl (Config_error (path @ ''.filter.value'') Required)
                            | Some v \<Rightarrow>
                                normalizeCSV (c\<lparr>cv_Filter := \<lparr>cf_Column = col, cf_Op = op, cf_Value = v\<rparr>\<rparr>) path True)))))"

section \<open>Persisted parameters\<close>

definition FormatBool :: "bool \<Rightarrow> string" where
  "FormatBool b = (if b then ''true'' else ''false'')"

text \<open>\<open>strconv.ParseBool\<close>.\<close>

definition ParseBool :: "string \<Rightarrow> bool option" where
  "ParseBool s =
     (if s \<in> {''1'', ''t'', ''T'', ''true'', ''TRUE'', ''True''} then Some True
      else if s \<in> {''0'', ''f'', ''F'', ''false'', ''FALSE'', ''False''} then Some False
      else None)"

text \<open>\<open>strconv.Itoa\<close> and \<open>strconv.Atoi\<close> on 64-bit integers.\<close>

definition Itoa_int :: "int \<Rightarrow> string" where
  "Itoa_int n = (if n < 0 then ''-'' @ Itoa (nat (- n)) else Itoa (nat n))"

definition Atoi :: "string \<Rightarrow> int option" where
  "Atoi s =
     (let neg = take 1 s = ''-''; digits = (if take 1 s = ''-'' \<or> take 1 s = ''+'' then drop 1 s else s) in
      if \<not> decimalDigits digits then None
      else
        (let v = (if neg then - int (digits_value digits) else int (digits_value digits)) in
         if v < - (2 ^ 63) \<or> 2 ^ 63 \<le> v then None else Some v))"

definition csv_Parameters :: "(float64 \<Rightarrow> string) \<Rightarrow> CSVConfig \<Rightarrow> config_error + (string \<times> string) list" where
  "csv_Parameters FormatFloat c0 =
     result_bind (normalizeCSV c0 ''csv'' (\<not> filter_IsZero (cv_Filter c0))) (\<lambda>c.
       let parameters = [(''delimiter'', cv_Delimiter c), (''header'', FormatBool (cv_Header c)),
                         (''ip_column'', Itoa_int (cv_IPColumn c))] in
       if \<not> filter_IsZero (cv_Filter c) then
         Inr (parameters @ [(''filter_column'', Itoa_int (cf_Column (cv_Filter c))), (''filter_op'', cf_Op (cv_Filter c)),
                            (''filter_value'', FormatFloat (cf_Value (cv_Filter c)))])
       else Inr parameters)"

definition CSVConfigFromParameters ::
  "(float64 \<Rightarrow> string) \<Rightarrow> (string \<Rightarrow> float64 option) \<Rightarrow> (string \<times> string) list \<Rightarrow> config_error + CSVConfig" where
  "CSVConfigFromParameters FormatFloat ParseFloat parameters =
     (let text = (\<lambda>key. or_default (map_of parameters key) '''') in
      case ParseBool (text ''header'') of
        None \<Rightarrow> Inl (Config_error ''csv.header'' Unparsable)
      | Some header \<Rightarrow>
          (case Atoi (text ''ip_column'') of
             None \<Rightarrow> Inl (Config_error ''csv.ip_column'' Unparsable)
           | Some column \<Rightarrow>
               (let hasColumn = map_of parameters ''filter_column'' \<noteq> None; hasOp = map_of parameters ''filter_op'' \<noteq> None;
                    hasValue = map_of parameters ''filter_value'' \<noteq> None;
                    c = \<lparr>cv_Delimiter = text ''delimiter'', cv_Header = header, cv_IPColumn = column, cv_Filter = zero_filter\<rparr>;
                    filtered =
                      (if hasColumn \<or> hasOp \<or> hasValue then
                         (if \<not> hasColumn \<or> \<not> hasOp \<or> \<not> hasValue then Inl (Config_error ''csv.filter'' Incomplete)
                          else
                            (case Atoi (text ''filter_column'') of
                               None \<Rightarrow> Inl (Config_error ''csv.filter.column'' Unparsable)
                             | Some fc \<Rightarrow>
                                 (case ParseFloat (text ''filter_value'') of
                                    None \<Rightarrow> Inl (Config_error ''csv.filter.value'' Unparsable)
                                  | Some v \<Rightarrow>
                                      Inr (c\<lparr>cv_Filter := \<lparr>cf_Column = fc, cf_Op = text ''filter_op'', cf_Value = v\<rparr>\<rparr>))))
                       else Inr c) in
                result_bind filtered (\<lambda>c1.
                result_bind (normalizeCSV c1 ''csv'' (hasColumn \<or> hasOp \<or> hasValue)) (\<lambda>c2.
                result_bind (csv_Parameters FormatFloat c2) (\<lambda>canonical.
                  if length parameters \<noteq> length canonical then Inl (Config_error ''csv'' Incomplete)
                  else
                    (case find (\<lambda>(key, v). map_of parameters key \<noteq> Some v) canonical of
                       Some (key, _) \<Rightarrow> Inl (Config_error (''csv.'' @ key) Not_canonical)
                     | None \<Rightarrow> Inr c2)))))))"

section \<open>Decimal text\<close>

lemma digit_char_digit:
  assumes "n < 10"
  shows "is_digit (digit_char n)" "digit_value (digit_char n) = n"
proof -
  have "n \<in> {0, 1, 2, 3, 4, 5, 6, 7, 8, 9}" using assms by auto
  then have "is_digit (digit_char n) \<and> digit_value (digit_char n) = n"
    by (elim insertE emptyE; simp; code_simp)
  then show "is_digit (digit_char n)" "digit_value (digit_char n) = n" by simp_all
qed

lemma digits_value_snoc: "digits_value (ds @ [c]) = 10 * digits_value ds + digit_value c"
  by (simp add: digits_value_def)

lemma Itoa_digits: "Itoa n \<noteq> [] \<and> (\<forall>c\<in>set (Itoa n). is_digit c) \<and> digits_value (Itoa n) = n"
proof (induction n rule: Itoa.induct)
  case (1 n)
  show ?case
  proof (cases "n < 10")
    case True
    then have "Itoa n = [digit_char n]" by (subst Itoa.simps) simp
    then show ?thesis using digit_char_digit [OF True] by (simp add: digits_value_def)
  next
    case False
    have m: "n mod 10 < 10" by simp
    have e: "Itoa n = Itoa (n div 10) @ [digit_char (n mod 10)]" using False by (subst Itoa.simps) simp
    show ?thesis using 1 [OF False] digit_char_digit [OF m] unfolding e digits_value_snoc by auto
  qed
qed

lemma not_sign: "is_digit c \<Longrightarrow> c \<noteq> CHR ''-'' \<and> c \<noteq> CHR ''+''"
  by (auto simp: is_digit_def)

lemma Atoi_Itoa_int:
  assumes "0 \<le> n" "n < 2 ^ 63"
  shows "Atoi (Itoa_int n) = Some n"
proof -
  note d = Itoa_digits [of "nat n"]
  obtain c cs where c: "Itoa (nat n) = c # cs" using d by (cases "Itoa (nat n)") auto
  then have "c \<noteq> CHR ''-''" "c \<noteq> CHR ''+''" using d not_sign [of c] by auto
  then show ?thesis using assms d by (simp add: Atoi_def Itoa_int_def decimalDigits_def c)
qed

section \<open>Properties\<close>

text \<open>A CSV configuration as normalisation leaves it.\<close>

definition csv_ok :: "CSVConfig \<Rightarrow> bool" where
  "csv_ok c =
     (delimiter_ok (cv_Delimiter c) \<and> cv_Delimiter c \<noteq> '''' \<and> 0 < cv_IPColumn c \<and>
      (cv_Filter c = zero_filter \<or>
       0 < cf_Column (cv_Filter c) \<and> cf_Op (cv_Filter c) \<in> {''=='', ''!='', ''<'', ''<='', ''>'', ''>=''} \<and>
       \<not> IsNaN_or_Inf (cf_Value (cv_Filter c)) \<and> cf_Value (cv_Filter c) \<noteq> 0x8000000000000000))"

lemma IsNaN_or_Inf_0: "\<not> IsNaN_or_Inf 0"
  by (simp add: IsNaN_or_Inf_def float_exponent_def)

lemma normalizeCSV_ok:
  assumes "normalizeCSV c path present = Inr c'" "\<not> present \<Longrightarrow> cv_Filter c = zero_filter"
  shows "csv_ok c'"
  using assms
  by (cases present)
    (auto simp: normalizeCSV_def Let_def csv_ok_def float_is_zero_def IsNaN_or_Inf_0 simp del: insert_iff split: if_splits)

lemma csv_ok_normalized:
  assumes "csv_ok c"
  shows "normalizeCSV c path (\<not> filter_IsZero (cv_Filter c)) = Inr c"
    "filter_IsZero (cv_Filter c) \<longleftrightarrow> cv_Filter c = zero_filter"
  using assms
  by (auto simp: normalizeCSV_def Let_def csv_ok_def float_is_zero_def filter_IsZero_def zero_filter_def simp del: insert_iff)

lemma normalizeRawCSV_ok: "normalizeRawCSV raw path = Inr c \<Longrightarrow> csv_ok c"
  by (auto simp: normalizeRawCSV_def Let_def split: option.splits if_splits dest!: normalizeCSV_ok)

lemma ParseBool_FormatBool: "ParseBool (FormatBool b) = Some b"
  by (simp add: ParseBool_def FormatBool_def)

text \<open>
  (C32) CSV options survive persistence: the parameters written for options accepted from the
  configuration are read back as the same options. Printing a finite number and parsing it again
  gives the number back, which \<open>strconv\<close> documents for the shortest format.
\<close>

theorem CSV_parameters_roundtrip:
  assumes float: "\<And>v. \<not> IsNaN_or_Inf v \<Longrightarrow> ParseFloat (FormatFloat v) = Some v"
    and raw: "normalizeRawCSV raw path = Inr c"
    and int64: "cv_IPColumn c < 2 ^ 63" "cf_Column (cv_Filter c) < 2 ^ 63"
  shows "\<exists>ps. csv_Parameters FormatFloat c = Inr ps \<and> CSVConfigFromParameters FormatFloat ParseFloat ps = Inr c"
proof -
  have ok: "csv_ok c" by (rule normalizeRawCSV_ok [OF raw])
  note n = csv_ok_normalized [OF ok]
  have ip: "Atoi (Itoa_int (cv_IPColumn c)) = Some (cv_IPColumn c)"
    using ok int64 by (intro Atoi_Itoa_int) (auto simp: csv_ok_def)
  let ?base = "[(''delimiter'', cv_Delimiter c), (''header'', FormatBool (cv_Header c)), (''ip_column'', Itoa_int (cv_IPColumn c))]"
  show ?thesis
  proof (cases "cv_Filter c = zero_filter")
    case True
    have p: "csv_Parameters FormatFloat c = Inr ?base" using n True by (simp add: csv_Parameters_def)
    have nz: "normalizeCSV c ''csv'' False = Inr c" using n True by simp
    have "c = \<lparr>cv_Delimiter = cv_Delimiter c, cv_Header = cv_Header c, cv_IPColumn = cv_IPColumn c, cv_Filter = zero_filter\<rparr>"
      using True by (cases c) simp
    then have "CSVConfigFromParameters FormatFloat ParseFloat ?base = Inr c"
      using nz p by (simp add: CSVConfigFromParameters_def Let_def ip ParseBool_FormatBool)
    then show ?thesis using p by blast
  next
    case False
    let ?f = "cv_Filter c"
    let ?ps = "?base @ [(''filter_column'', Itoa_int (cf_Column ?f)), (''filter_op'', cf_Op ?f), (''filter_value'', FormatFloat (cf_Value ?f))]"
    have fc: "Atoi (Itoa_int (cf_Column ?f)) = Some (cf_Column ?f)" and fv: "ParseFloat (FormatFloat (cf_Value ?f)) = Some (cf_Value ?f)"
      using ok int64 False float by (auto simp: csv_ok_def intro: Atoi_Itoa_int)
    have p: "csv_Parameters FormatFloat c = Inr ?ps" using n False by (simp add: csv_Parameters_def)
    have nz: "normalizeCSV c ''csv'' True = Inr c" using n False by simp
    have rec: "\<lparr>cv_Delimiter = cv_Delimiter c, cv_Header = cv_Header c, cv_IPColumn = cv_IPColumn c,
        cv_Filter = \<lparr>cf_Column = cf_Column ?f, cf_Op = cf_Op ?f, cf_Value = cf_Value ?f\<rparr>\<rparr> = c" by simp
    have "CSVConfigFromParameters FormatFloat ParseFloat ?ps = Inr c"
      using nz p by (simp add: CSVConfigFromParameters_def Let_def ip fc fv ParseBool_FormatBool rec)
    then show ?thesis using p by blast
  qed
qed

text \<open>For the concrete instance, numbers are printed as their 64 bits.\<close>

definition bits_text :: "float64 \<Rightarrow> string" where
  "bits_text v = map (\<lambda>i. if bit v i then CHR ''1'' else CHR ''0'') [0..<64]"

definition bits_parse :: "string \<Rightarrow> float64 option" where
  "bits_parse s = Some (horner_sum of_bool 2 (map (\<lambda>c. c = CHR ''1'') s))"

lemma bits_parse_text: "bits_parse (bits_text v) = Some v"
proof -
  have "horner_sum of_bool 2 (map (bit v) [0..<64]) = take_bit 64 v" by (rule horner_sum_bit_eq_take_bit)
  then have "horner_sum of_bool 2 (map (bit v) [0..<64]) = v" by (simp add: take_bit_word_eq_self)
  moreover have "map (\<lambda>c. c = CHR ''1'') (bits_text v) = map (bit v) [0..<64]" by (simp add: bits_text_def o_def)
  ultimately show ?thesis by (simp only: bits_parse_def)
qed

definition sample_csv :: rawCSV where
  "sample_csv = \<lparr>rc_Delimiter = None, rc_Header = Some True, rc_IPColumn = Some 2, rc_Filter = None\<rparr>"

theorem CSV_parameters_roundtrip_witness:
  "\<exists>c ps. normalizeRawCSV sample_csv ''csv'' = Inr c \<and> csv_Parameters bits_text c = Inr ps \<and>
     CSVConfigFromParameters bits_text bits_parse ps = Inr c"
proof -
  define c where "c = \<lparr>cv_Delimiter = '','', cv_Header = True, cv_IPColumn = 2, cv_Filter = zero_filter\<rparr>"
  have d: "DecodeRune '','' = (44, 1)" by (simp add: DecodeRune_def)
  have "ValidUTF8 '',''" by (subst ValidUTF8.simps) (simp add: d ValidUTF8.simps [of "[]"] RuneError_def)
  then have "delimiter_ok '',''" by (simp add: delimiter_ok_def d RuneError_def)
  then have raw: "normalizeRawCSV sample_csv ''csv'' = Inr c"
    by (simp add: normalizeRawCSV_def sample_csv_def normalizeCSV_def c_def)
  from CSV_parameters_roundtrip [OF bits_parse_text raw] have "\<exists>ps. csv_Parameters bits_text c = Inr ps \<and>
      CSVConfigFromParameters bits_text bits_parse ps = Inr c" by (simp add: c_def zero_filter_def)
  then show ?thesis using raw by blast
qed

end
