(* ===== verification/Catalog.thy ===== *)
theory Catalog
  imports Config
begin

text \<open>
  \<open>internal/config/catalog/catalog.go\<close>: the compiled-in country codes, country groups
  and registry service regions, and the validity tests for selector values.

  The Go maps \<open>regionalGroups\<close>, \<open>rirServiceRegions\<close> and \<open>groups\<close> are association
  lists; the program only looks names up in them.
\<close>

section \<open>The tables\<close>

definition countryCodes :: "string list" where
  "countryCodes =
    [''AD'', ''AE'', ''AF'', ''AG'', ''AI'', ''AL'', ''AM'', ''AO'', ''AQ'', ''AR'', ''AS'', ''AT'',
     ''AU'', ''AW'', ''AX'', ''AZ'', ''BA'', ''BB'', ''BD'', ''BE'', ''BF'', ''BG'', ''BH'', ''BI'',
     ''BJ'', ''BL'', ''BM'', ''BN'', ''BO'', ''BQ'', ''BR'', ''BS'', ''BT'', ''BV'', ''BW'', ''BY'',
     ''BZ'', ''CA'', ''CC'', ''CD'', ''CF'', ''CG'', ''CH'', ''CI'', ''CK'', ''CL'', ''CM'', ''CN'',
     ''CO'', ''CR'', ''CU'', ''CV'', ''CW'', ''CX'', ''CY'', ''CZ'', ''DE'', ''DJ'', ''DK'', ''DM'',
     ''DO'', ''DZ'', ''EC'', ''EE'', ''EG'', ''EH'', ''ER'', ''ES'', ''ET'', ''FI'', ''FJ'', ''FK'',
     ''FM'', ''FO'', ''FR'', ''GA'', ''GB'', ''GD'', ''GE'', ''GF'', ''GG'', ''GH'', ''GI'', ''GL'',
     ''GM'', ''GN'', ''GP'', ''GQ'', ''GR'', ''GS'', ''GT'', ''GU'', ''GW'', ''GY'', ''HK'', ''HM'',
     ''HN'', ''HR'', ''HT'', ''HU'', ''ID'', ''IE'', ''IL'', ''IM'', ''IN'', ''IO'', ''IQ'', ''IR'',
     ''IS'', ''IT'', ''JE'', ''JM'', ''JO'', ''JP'', ''KE'', ''KG'', ''KH'', ''KI'', ''KM'', ''KN'',
     ''KP'', ''KR'', ''KW'', ''KY'', ''KZ'', ''LA'', ''LB'', ''LC'', ''LI'', ''LK'', ''LR'', ''LS'',
     ''LT'', ''LU'', ''LV'', ''LY'', ''MA'', ''MC'', ''MD'', ''ME'', ''MF'', ''MG'', ''MH'', ''MK'',
     ''ML'', ''MM'', ''MN'', ''MO'', ''MP'', ''MQ'', ''MR'', ''MS'', ''MT'', ''MU'', ''MV'', ''MW'',
     ''MX'', ''MY'', ''MZ'', ''NA'', ''NC'', ''NE'', ''NF'', ''NG'', ''NI'', ''NL'', ''NO'', ''NP'',
     ''NR'', ''NU'', ''NZ'', ''OM'', ''PA'', ''PE'', ''PF'', ''PG'', ''PH'', ''PK'', ''PL'', ''PM'',
     ''PN'', ''PR'', ''PS'', ''PT'', ''PW'', ''PY'', ''QA'', ''RE'', ''RO'', ''RS'', ''RU'', ''RW'',
     ''SA'', ''SB'', ''SC'', ''SD'', ''SE'', ''SG'', ''SH'', ''SI'', ''SJ'', ''SK'', ''SL'', ''SM'',
     ''SN'', ''SO'', ''SR'', ''SS'', ''ST'', ''SV'', ''SX'', ''SY'', ''SZ'', ''TC'', ''TD'', ''TF'',
     ''TG'', ''TH'', ''TJ'', ''TK'', ''TL'', ''TM'', ''TN'', ''TO'', ''TR'', ''TT'', ''TV'', ''TW'',
     ''TZ'', ''UA'', ''UG'', ''UM'', ''US'', ''UY'', ''UZ'', ''VA'', ''VC'', ''VE'', ''VG'', ''VI'',
     ''VN'', ''VU'', ''WF'', ''WS'', ''YE'', ''YT'', ''ZA'', ''ZM'', ''ZW'']"

definition regionalGroups :: "(string \<times> string list) list" where
  "regionalGroups =
    [(''africa'',
       [''AO'', ''BF'', ''BI'', ''BJ'', ''BW'', ''CD'', ''CF'', ''CG'', ''CI'', ''CM'', ''CV'', ''DJ'',
        ''DZ'', ''EG'', ''EH'', ''ER'', ''ET'', ''GA'', ''GH'', ''GM'', ''GN'', ''GQ'', ''GW'', ''IO'',
        ''KE'', ''KM'', ''LR'', ''LS'', ''LY'', ''MA'', ''MG'', ''ML'', ''MR'', ''MU'', ''MW'', ''MZ'',
        ''NA'', ''NE'', ''NG'', ''RE'', ''RW'', ''SC'', ''SD'', ''SH'', ''SL'', ''SN'', ''SO'', ''SS'',
        ''ST'', ''SZ'', ''TD'', ''TF'', ''TG'', ''TN'', ''TZ'', ''UG'', ''YT'', ''ZA'', ''ZM'', ''ZW'']),
     (''asia'',
       [''AE'', ''AF'', ''AM'', ''AZ'', ''BD'', ''BH'', ''BN'', ''BT'', ''CN'', ''CY'', ''GE'', ''HK'',
        ''ID'', ''IL'', ''IN'', ''IQ'', ''IR'', ''JO'', ''JP'', ''KG'', ''KH'', ''KP'', ''KR'', ''KW'',
        ''KZ'', ''LA'', ''LB'', ''LK'', ''MM'', ''MN'', ''MO'', ''MV'', ''MY'', ''NP'', ''OM'', ''PH'',
        ''PK'', ''PS'', ''QA'', ''SA'', ''SG'', ''SY'', ''TH'', ''TJ'', ''TL'', ''TM'', ''TR'', ''UZ'',
        ''VN'', ''YE'']),
     (''europe'',
       [''AD'', ''AL'', ''AT'', ''AX'', ''BA'', ''BE'', ''BG'', ''BY'', ''CH'', ''CZ'', ''DE'', ''DK'',
        ''EE'', ''ES'', ''FI'', ''FO'', ''FR'', ''GB'', ''GG'', ''GI'', ''GR'', ''HR'', ''HU'', ''IE'',
        ''IM'', ''IS'', ''IT'', ''JE'', ''LI'', ''LT'', ''LU'', ''LV'', ''MC'', ''MD'', ''ME'', ''MK'',
        ''MT'', ''NL'', ''NO'', ''PL'', ''PT'', ''RO'', ''RS'', ''RU'', ''SE'', ''SI'', ''SJ'', ''SK'',
        ''SM'', ''UA'', ''VA'']),
     (''oceania'',
       [''AS'', ''AU'', ''CC'', ''CK'', ''CX'', ''FJ'', ''FM'', ''GU'', ''HM'', ''KI'', ''MH'', ''MP'',
        ''NC'', ''NF'', ''NR'', ''NU'', ''NZ'', ''PF'', ''PG'', ''PN'', ''PW'', ''SB'', ''TK'', ''TO'',
        ''TV'', ''UM'', ''VU'', ''WF'', ''WS'']),
     (''northern-america'',
       [''BM'', ''CA'', ''GL'', ''PM'', ''US'']),
     (''latin-america-caribbean'',
       [''AG'', ''AI'', ''AR'', ''AW'', ''BB'', ''BL'', ''BO'', ''BQ'', ''BR'', ''BS'', ''BV'', ''BZ'',
        ''CL'', ''CO'', ''CR'', ''CU'', ''CW'', ''DM'', ''DO'', ''EC'', ''FK'', ''GD'', ''GF'', ''GP'',
        ''GS'', ''GT'', ''GY'', ''HN'', ''HT'', ''JM'', ''KN'', ''KY'', ''LC'', ''MF'', ''MQ'', ''MS'',
        ''MX'', ''NI'', ''PA'', ''PE'', ''PR'', ''PY'', ''SR'', ''SV'', ''SX'', ''TC'', ''TT'', ''UY'',
        ''VC'', ''VE'', ''VG'', ''VI''])]"

definition rirServiceRegions :: "(string \<times> string list) list" where
  "rirServiceRegions =
    [(''AFRINIC'',
       [''AO'', ''BF'', ''BI'', ''BJ'', ''BW'', ''CD'', ''CF'', ''CG'', ''CI'', ''CM'', ''CV'', ''DJ'',
        ''DZ'', ''EG'', ''EH'', ''ER'', ''ET'', ''GA'', ''GH'', ''GM'', ''GN'', ''GQ'', ''GW'', ''KE'',
        ''KM'', ''LR'', ''LS'', ''LY'', ''MA'', ''MG'', ''ML'', ''MR'', ''MU'', ''MW'', ''MZ'', ''NA'',
        ''NE'', ''NG'', ''RE'', ''RW'', ''SC'', ''SD'', ''SL'', ''SN'', ''SO'', ''SS'', ''ST'', ''SZ'',
        ''TD'', ''TG'', ''TN'', ''TZ'', ''UG'', ''YT'', ''ZA'', ''ZM'', ''ZW'']),
     (''APNIC'',
       [''AF'', ''AS'', ''AU'', ''BD'', ''BN'', ''BT'', ''CC'', ''CK'', ''CN'', ''CX'', ''FJ'', ''FM'',
        ''GU'', ''HK'', ''ID'', ''IN'', ''IO'', ''JP'', ''KH'', ''KI'', ''KP'', ''KR'', ''LA'', ''LK'',
        ''MH'', ''MM'', ''MN'', ''MO'', ''MP'', ''MV'', ''MY'', ''NC'', ''NF'', ''NP'', ''NR'', ''NU'',
        ''NZ'', ''PF'', ''PG'', ''PH'', ''PK'', ''PN'', ''PW'', ''SB'', ''SG'', ''TF'', ''TH'', ''TK'',
        ''TL'', ''TO'', ''TV'', ''TW'', ''VN'', ''VU'', ''WF'', ''WS'']),
     (''ARIN'',
       [''AG'', ''AI'', ''AQ'', ''BB'', ''BL'', ''BM'', ''BS'', ''BV'', ''CA'', ''DM'', ''GD'', ''GP'',
        ''HM'', ''JM'', ''KN'', ''KY'', ''LC'', ''MF'', ''MQ'', ''MS'', ''PM'', ''PR'', ''SH'', ''TC'',
        ''UM'', ''US'', ''VC'', ''VG'', ''VI'']),
     (''LACNIC'',
       [''AR'', ''AW'', ''BO'', ''BQ'', ''BR'', ''BZ'', ''CL'', ''CO'', ''CR'', ''CU'', ''CW'', ''DO'',
        ''EC'', ''FK'', ''GF'', ''GS'', ''GT'', ''GY'', ''HN'', ''HT'', ''MX'', ''NI'', ''PA'', ''PE'',
        ''PY'', ''SR'', ''SV'', ''SX'', ''TT'', ''UY'', ''VE'']),
     (''RIPE'',
       [''AD'', ''AE'', ''AL'', ''AM'', ''AT'', ''AX'', ''AZ'', ''BA'', ''BE'', ''BG'', ''BH'', ''BY'',
        ''CH'', ''CY'', ''CZ'', ''DE'', ''DK'', ''EE'', ''ES'', ''FI'', ''FO'', ''FR'', ''GB'', ''GE'',
        ''GG'', ''GI'', ''GL'', ''GR'', ''HR'', ''HU'', ''IE'', ''IL'', ''IM'', ''IQ'', ''IR'', ''IS'',
        ''IT'', ''JE'', ''JO'', ''KG'', ''KW'', ''KZ'', ''LB'', ''LI'', ''LT'', ''LU'', ''LV'', ''MC'',
        ''MD'', ''ME'', ''MK'', ''MT'', ''NL'', ''NO'', ''OM'', ''PL'', ''PS'', ''PT'', ''QA'', ''RO'',
        ''RS'', ''RU'', ''SA'', ''SE'', ''SI'', ''SJ'', ''SK'', ''SM'', ''SY'', ''TJ'', ''TM'', ''TR'',
        ''UA'', ''UZ'', ''VA'', ''YE''])]"

definition euMembers :: "string list" where
  "euMembers =
    [''AT'', ''BE'', ''BG'', ''CY'', ''CZ'', ''DE'', ''DK'', ''EE'', ''ES'', ''FI'', ''FR'', ''GR'',
     ''HR'', ''HU'', ''IE'', ''IT'', ''LT'', ''LU'', ''LV'', ''MT'', ''NL'', ''PL'', ''PT'', ''RO'',
     ''SE'', ''SI'', ''SK'']"

definition schengenMembers :: "string list" where
  "schengenMembers =
    [''AT'', ''BE'', ''BG'', ''CH'', ''CZ'', ''DE'', ''DK'', ''EE'', ''ES'', ''FI'', ''FR'', ''GR'',
     ''HR'', ''HU'', ''IS'', ''IT'', ''LI'', ''LT'', ''LU'', ''LV'', ''MT'', ''NL'', ''NO'', ''PL'',
     ''PT'', ''RO'', ''SE'', ''SI'', ''SK'']"

definition natoMembers :: "string list" where
  "natoMembers =
    [''AL'', ''BE'', ''BG'', ''CA'', ''CZ'', ''DE'', ''DK'', ''EE'', ''ES'', ''FI'', ''FR'', ''GB'',
     ''GR'', ''HR'', ''HU'', ''IS'', ''IT'', ''LT'', ''LU'', ''LV'', ''ME'', ''MK'', ''NL'', ''NO'',
     ''PL'', ''PT'', ''RO'', ''SE'', ''SI'', ''SK'', ''TR'', ''US'']"

section \<open>Lookups\<close>

text \<open>A Go set of strings collected into a sorted slice.\<close>

definition catalog_union :: "string list list \<Rightarrow> string list" where
  "catalog_union groups = sort_slice (<) (remdups (concat groups))"

definition makeGroups :: "(string \<times> string list) list" where
  "makeGroups =
     regionalGroups @
     [(''european-union'', euMembers), (''schengen-area'', schengenMembers), (''nato'', natoMembers),
      (''euro-atlantic'', catalog_union [euMembers, schengenMembers, natoMembers])]"

definition ValidCountry :: "string \<Rightarrow> bool" where
  "ValidCountry code = (code \<in> set countryCodes)"

definition ValidRIR :: "string \<Rightarrow> bool" where
  "ValidRIR name = (map_of rirServiceRegions name \<noteq> None)"

definition RIRCountries :: "string \<Rightarrow> string list" where
  "RIRCountries name = (case map_of rirServiceRegions name of None \<Rightarrow> [] | Some members \<Rightarrow> members)"

definition Countries :: "string \<Rightarrow> string list option" where
  "Countries name = map_of makeGroups name"

text \<open>
  \<open>strconv.ParseUint(digits, 10, 32)\<close> on a string of digits fails exactly when the value
  does not fit 32 bits.
\<close>

definition ValidASN :: "string \<Rightarrow> bool" where
  "ValidASN value =
     (if length value \<le> 2 \<or> take 2 value \<noteq> ''AS'' then False
      else let digits = drop 2 value in
        if hd digits = CHR ''0'' \<and> length digits > 1 then False
        else if \<exists>c\<in>set digits. \<not> is_digit c then False
        else digits_value digits < 4294967296)"

section \<open>Properties of the tables\<close>

text \<open>
  A list dealt out in order over several piles: every element is the head of some pile when
  its turn comes.
\<close>

fun deal_one :: "'a \<Rightarrow> 'a list list \<Rightarrow> 'a list list option" where
  "deal_one c [] = None"
| "deal_one c ([] # ps) = map_option ((#) []) (deal_one c ps)"
| "deal_one c ((x # xs) # ps) = (if x = c then Some (xs # ps) else map_option ((#) (x # xs)) (deal_one c ps))"

fun deal :: "'a list \<Rightarrow> 'a list list \<Rightarrow> bool" where
  "deal [] ps = (\<forall>p\<in>set ps. p = [])"
| "deal (c # cs) ps = (case deal_one c ps of None \<Rightarrow> False | Some ps' \<Rightarrow> deal cs ps')"

lemma deal_one_mset: "deal_one c ps = Some ps' \<Longrightarrow> mset (concat ps) = add_mset c (mset (concat ps'))"
  by (induction c ps arbitrary: ps' rule: deal_one.induct) (auto split: if_splits)

lemma deal_mset: "deal cs ps \<Longrightarrow> mset (concat ps) = mset cs"
proof (induction cs arbitrary: ps)
  case Nil
  then have "concat ps = []" by simp
  then show ?case by simp
qed (auto dest: deal_one_mset split: option.splits)

lemma distinct_successively: "successively (<) (xs :: 'a::linorder list) \<Longrightarrow> distinct xs"
  by (simp add: successively_conv_sorted_wrt strict_sorted_iff)

lemma countryCodes_deal: "deal countryCodes (map snd rirServiceRegions)"
  by code_simp

lemma countryCodes_ascending: "successively (<) countryCodes"
  by code_simp

lemma RIR_names: "distinct (map fst rirServiceRegions)"
  by code_simp

lemma distinct_regions: "distinct (concat (map snd rirServiceRegions))"
  using deal_mset [OF countryCodes_deal] distinct_successively [OF countryCodes_ascending]
  by (metis mset_eq_imp_distinct_iff)

lemma set_regions: "set (concat (map snd rirServiceRegions)) = set countryCodes"
  using deal_mset [OF countryCodes_deal] by (metis set_mset_mset)

lemma distinct_concat_snd:
  assumes "distinct (concat (map snd rs))" "(r, xs) \<in> set rs" "(r', ys) \<in> set rs" "c \<in> set xs" "c \<in> set ys"
  shows "r = r'"
  using assms by (induction rs) fastforce+

lemma RIRCountries_iff: "c \<in> set (RIRCountries r) \<longleftrightarrow> (\<exists>xs. (r, xs) \<in> set rirServiceRegions \<and> c \<in> set xs)"
  using RIR_names by (auto simp: RIRCountries_def split: option.splits dest: map_of_SomeD)

text \<open>A table whose entries appear in order among the country codes.\<close>

fun sub_check :: "'a list \<Rightarrow> 'a list \<Rightarrow> bool" where
  "sub_check [] ys = True"
| "sub_check (x # xs) [] = False"
| "sub_check (x # xs) (y # ys) = (if x = y then sub_check xs ys else sub_check (x # xs) ys)"

lemma sub_check_set: "sub_check xs ys \<Longrightarrow> set xs \<subseteq> set ys"
  by (induction xs ys rule: sub_check.induct) (auto split: if_splits)

lemma sub_check_sorted: "sub_check xs ys \<Longrightarrow> sorted_wrt R ys \<Longrightarrow> sorted_wrt R xs"
  by (induction xs ys rule: sub_check.induct) (auto split: if_splits dest: sub_check_set)

lemma tables_in_countryCodes:
  "\<forall>ms\<in>set (map snd regionalGroups). sub_check ms countryCodes"
  "sub_check euMembers countryCodes" "sub_check schengenMembers countryCodes"
  "sub_check natoMembers countryCodes"
  by code_simp+

lemma countryCodes_strict: "sorted_wrt (<) countryCodes"
  using countryCodes_ascending by (simp add: successively_conv_sorted_wrt)

definition ascii_upper :: "char \<Rightarrow> bool" where
  "ascii_upper c = (CHR ''A'' \<le> c \<and> c \<le> CHR ''Z'')"

lemma ToUpper_upper: "list_all ascii_upper s \<Longrightarrow> ToUpper s = s"
proof (induction s rule: ToUpper.induct)
  case (3 c d cs)
  then have "ascii_upper c" "ascii_upper d" by auto
  then have "\<not> (CHR ''a'' \<le> c)" "c \<noteq> CHR 0xC4" "c \<noteq> CHR 0xC5"
    by (auto simp: ascii_upper_def less_eq_char_def)
  then show ?case using 3 by simp
qed (auto simp: ascii_upper_def less_eq_char_def)

lemma catalogue_upper:
  "list_all (list_all ascii_upper) countryCodes" "list_all (list_all ascii_upper) (map fst rirServiceRegions)"
  by code_simp+

lemma ToUpper_catalogue:
  "ValidCountry s \<Longrightarrow> ToUpper s = s" "ValidRIR s \<Longrightarrow> ToUpper s = s"
proof -
  show "ValidCountry s \<Longrightarrow> ToUpper s = s"
    using catalogue_upper(1) by (intro ToUpper_upper) (simp add: ValidCountry_def list_all_iff)
  assume "ValidRIR s"
  then obtain v where "map_of rirServiceRegions s = Some v" by (auto simp: ValidRIR_def)
  then have "s \<in> fst ` set rirServiceRegions" by (metis domI dom_map_of_conv_image_fst)
  then show "ToUpper s = s" using catalogue_upper(2) by (intro ToUpper_upper) (auto simp: list_all_iff)
qed

lemma Countries_valid:
  assumes "Countries name = Some members"
  shows "(\<forall>c\<in>set members. ValidCountry c) \<and> sorted_wrt (<) members"
proof -
  have sub: "(\<forall>c\<in>set ms. ValidCountry c) \<and> sorted_wrt (<) ms" if "sub_check ms countryCodes" for ms
    using sub_check_set [OF that] sub_check_sorted [OF that countryCodes_strict]
    by (auto simp: ValidCountry_def)
  have union: "(\<forall>c\<in>set (catalog_union gs). ValidCountry c) \<and> sorted_wrt (<) (catalog_union gs)"
    if "\<forall>g\<in>set gs. \<forall>c\<in>set g. ValidCountry c" for gs
    using that string_order.sort_slice_strict [of "remdups (concat gs)"] by (auto simp: catalog_union_def)
  have "(name, members) \<in> set makeGroups" using assms by (auto simp: Countries_def dest: map_of_SomeD)
  then consider "members \<in> set (map snd regionalGroups)" | "members \<in> {euMembers, schengenMembers, natoMembers}"
    | "members = catalog_union [euMembers, schengenMembers, natoMembers]"
    by (force simp: makeGroups_def)
  then show ?thesis
  proof cases
    case 1
    then show ?thesis using tables_in_countryCodes(1) sub by blast
  next
    case 2
    then show ?thesis using tables_in_countryCodes(2-4) sub by blast
  next
    case 3
    have "\<forall>g\<in>set [euMembers, schengenMembers, natoMembers]. \<forall>c\<in>set g. ValidCountry c"
      using tables_in_countryCodes(2-4) sub by simp
    then show ?thesis unfolding 3 by (rule union)
  qed
qed

lemma builtin_nonempty: "Countries g = Some members \<Longrightarrow> members \<noteq> []"
proof -
  have "list_all (\<lambda>(_, ms). ms \<noteq> []) makeGroups" by code_simp
  moreover assume "Countries g = Some members"
  then have "(g, members) \<in> set makeGroups" by (auto simp: Countries_def dest: map_of_SomeD)
  ultimately show ?thesis by (auto simp: list_all_iff)
qed

section \<open>Properties\<close>

text \<open>
  (C22) The registry service regions partition the country codes: a string is a valid
  country exactly when it lies in the region of exactly one registry name.
\<close>

theorem RIR_regions_partition: "ValidCountry c \<longleftrightarrow> (\<exists>!r. c \<in> set (RIRCountries r))"
proof
  assume "ValidCountry c"
  then obtain r xs where r: "(r, xs) \<in> set rirServiceRegions" "c \<in> set xs"
    using set_regions by (fastforce simp: ValidCountry_def)
  show "\<exists>!r. c \<in> set (RIRCountries r)"
    using r distinct_concat_snd [OF distinct_regions] unfolding RIRCountries_iff by blast
next
  assume "\<exists>!r. c \<in> set (RIRCountries r)"
  then obtain r xs where "(r, xs) \<in> set rirServiceRegions" "c \<in> set xs" by (auto simp: RIRCountries_iff)
  then have "c \<in> set (concat (map snd rirServiceRegions))" by force
  then show "ValidCountry c" unfolding ValidCountry_def set_regions .
qed

text \<open>
  Every built-in country group holds valid country codes only, in strictly ascending
  order.
\<close>

theorem builtin_groups_valid:
  assumes "Countries name = Some members"
  shows "(\<forall>c\<in>set members. ValidCountry c) \<and> sorted_wrt (<) members"
  by (rule Countries_valid [OF assms])

theorem builtin_groups_valid_witness:
  "Countries ''northern-america'' = Some [''BM'', ''CA'', ''GL'', ''PM'', ''US''] \<and>
   ValidCountry ''GL'' \<and> sorted_wrt (<) [''BM'', ''CA'', ''GL'', ''PM'', ''US'']"
proof -
  have c: "Countries ''northern-america'' = Some [''BM'', ''CA'', ''GL'', ''PM'', ''US'']"
    by (simp add: Countries_def makeGroups_def regionalGroups_def)
  from builtin_groups_valid [OF c] have "ValidCountry ''GL''" "sorted_wrt (<) [''BM'', ''CA'', ''GL'', ''PM'', ''US'']"
    by (simp_all only: list.set insert_iff ball_simps simp_thms)
  then show ?thesis using c by blast
qed

end
