(* ===== verification/Config_Normalize.thy ===== *)
theory Config_Normalize
  imports Config_Traffic Config_CSV Prefix_Set Catalog
begin

text \<open>
  \<open>internal/config/normalize.go\<close>: from the raw configuration to the normalized one, with every default and every rejection.

  Five functions of Go's standard library are fields of the record \<open>golib\<close>, an argument of
  the definitions that call them: duration and URL parsing and printing, host and port splitting,
  and lower case. Nothing is assumed of them. A parsed URL is the four parts the code looks at
  and the unread remainder.
\<close>

record url =
  ur_Scheme :: string
  ur_User :: bool
  ur_Host :: string
  ur_Hostname :: string
  ur_Rest :: string

record golib =
  lb_ParseDuration :: "string \<Rightarrow> duration option"
  lb_SplitHostPort :: "string \<Rightarrow> (string \<times> string) option"
  lb_URLParse :: "string \<Rightarrow> url option"
  lb_URLString :: "url \<Rightarrow> string"
  lb_ToLower :: "string \<Rightarrow> string"

section \<open>Small checks\<close>

definition validateName :: "string \<Rightarrow> string \<Rightarrow> config_error + unit" where
  "validateName name field = guard_error (\<not> ValidName name) (Config_error field Bad_name)"

text \<open>The keys of a set-like map, in order.\<close>

definition sortedKeys :: "string list \<Rightarrow> string list" where
  "sortedKeys keys = sort_slice (<) (remdups keys)"

definition positiveDuration :: "golib \<Rightarrow> string \<Rightarrow> string \<Rightarrow> config_error + duration" where
  "positiveDuration lib v field =
     (case lb_ParseDuration lib v of
        None \<Rightarrow> Inl (Config_error field Bad_duration)
      | Some d \<Rightarrow> if d \<le> 0 then Inl (Config_error field Not_positive) else Inr d)"

definition optionalDuration :: "golib \<Rightarrow> string option \<Rightarrow> duration \<Rightarrow> string \<Rightarrow> config_error + duration" where
  "optionalDuration lib v d field = (case v of None \<Rightarrow> Inr d | Some s \<Rightarrow> positiveDuration lib s field)"

definition has_newline :: "string \<Rightarrow> bool" where
  "has_newline v = (CHR 0x0D \<in> set v \<or> CHR 0x0A \<in> set v)"

definition validateListen :: "golib \<Rightarrow> string \<Rightarrow> config_error + unit" where
  "validateListen lib v =
     (if v = '''' then Inr ()
      else
        (case lb_SplitHostPort lib v of
           None \<Rightarrow> Inl (Config_error ''metrics.listen'' Bad_listen)
         | Some (host, port) \<Rightarrow>
             if \<not> decimalDigits port then Inl (Config_error ''metrics.listen'' Bad_port)
             else if 65535 < digits_value port then Inl (Config_error ''metrics.listen'' Bad_port)
             else if has_newline host then Inl (Config_error ''metrics.listen'' Bad_listen)
             else Inr ()))"

definition validateURL :: "golib \<Rightarrow> string \<Rightarrow> string \<Rightarrow> config_error + unit" where
  "validateURL lib v field =
     (case lb_URLParse lib v of
        None \<Rightarrow> Inl (Config_error field Bad_url)
      | Some parsed \<Rightarrow>
          if ur_Scheme parsed = '''' \<or> ur_Host parsed = '''' \<or> ur_Hostname parsed = '''' \<or>
             (ur_Scheme parsed \<noteq> ''http'' \<and> ur_Scheme parsed \<noteq> ''https'')
          then Inl (Config_error field Bad_url)
          else if has_newline v then Inl (Config_error field Bad_url)
          else Inr ())"

definition NormalizeIPListURL :: "golib \<Rightarrow> string \<Rightarrow> config_reason + string" where
  "NormalizeIPListURL lib v =
     (if has_newline v then Inl Bad_url
      else
        (case lb_URLParse lib v of
           None \<Rightarrow> Inl Bad_url
         | Some parsed \<Rightarrow>
             if ur_Host parsed = '''' \<or> ur_Hostname parsed = '''' then Inl Bad_url
             else if ur_User parsed then Inl User_information
             else if CHR ''#'' \<in> set v then Inl Fragment
             else
               (let scheme = lb_ToLower lib (ur_Scheme parsed) in
                if scheme \<noteq> ''http'' \<and> scheme \<noteq> ''https'' then Inl Bad_url
                else
                  Inr (lb_URLString lib
                    (parsed\<lparr>ur_Scheme := scheme,
                            ur_Host := (if take 1 (ur_Host parsed) \<noteq> ''['' then lb_ToLower lib (ur_Host parsed)
                                        else ur_Host parsed)\<rparr>)))))"

section \<open>Addresses\<close>

definition prefix_entry :: "string \<Rightarrow> nat \<Rightarrow> string \<Rightarrow> config_error + prefix" where
  "prefix_entry field i v =
     (if v = '''' then Inl (Config_error (indexed field i) Empty)
      else
        (case ParseAddr v of
           Some addr \<Rightarrow>
             if Zone addr \<noteq> '''' then Inl (Config_error (indexed field i) config_reason.Scoped_address)
             else Inr (prefix_Masked (PrefixFrom addr (int (BitLen addr))))
         | None \<Rightarrow>
             (case ParsePrefix v of
                None \<Rightarrow> Inl (Config_error (indexed field i) config_reason.Invalid_address)
              | Some p \<Rightarrow> Inr (prefix_Masked p))))"

definition normalizePrefixes :: "string list \<Rightarrow> string \<Rightarrow> config_error + prefix list" where
  "normalizePrefixes vs field =
     result_bind (map_result (\<lambda>(i, v). prefix_entry field i v) (enumerate 0 vs)) (\<lambda>prefixes.
       wrap_error (\<lambda>(i, _). Config_error field (Invalid_set i)) (Normalize prefixes))"

definition BuiltinLocalRanges :: "prefix list" where
  "BuiltinLocalRanges =
     map (\<lambda>v. case ParsePrefix v of Some p \<Rightarrow> p | None \<Rightarrow> Prefix NoAddr 0)
       [''10.0.0.0/8'', ''172.16.0.0/12'', ''192.168.0.0/16'', ''127.0.0.0/8'', ''169.254.0.0/16'', ''::1/128'',
        ''fe80::/10'', ''fc00::/7'']"

section \<open>Attachments\<close>

definition defaultAttachments :: "Attachment list" where
  "defaultAttachments =
     [\<lparr>at_Chain = ''INPUT'', at_Direction = ''ingress'', at_InputInterfaces = [], at_OutputInterfaces = [],
       at_OriginalDestination = False\<rparr>,
      \<lparr>at_Chain = ''OUTPUT'', at_Direction = ''egress'', at_InputInterfaces = [], at_OutputInterfaces = [],
       at_OriginalDestination = False\<rparr>]"

fun compact_loop :: "string list \<Rightarrow> string list \<Rightarrow> string list" where
  "compact_loop compact [] = compact"
| "compact_loop compact (v # rest) =
     compact_loop (if length compact = 0 \<or> last compact \<noteq> v then compact @ [v] else compact) rest"

definition normalizeInterfaceList :: "string list \<Rightarrow> string list" where
  "normalizeInterfaceList vs = compact_loop [] (sort_slice (<) vs)"

definition sliceKey :: "string list \<Rightarrow> string" where
  "sliceKey vs = concat (map (\<lambda>v. Itoa (length v) @ '':'' @ v @ '';'') vs)"

definition attachment_key :: "Attachment \<Rightarrow> string" where
  "attachment_key a =
     at_Chain a @ [CHR 0x00] @ at_Direction a @ [CHR 0x00] @ sliceKey (at_InputInterfaces a) @ [CHR 0x00] @
     sliceKey (at_OutputInterfaces a) @ [CHR 0x00] @ FormatBool (at_OriginalDestination a)"

fun first_empty :: "string \<Rightarrow> nat \<Rightarrow> string list \<Rightarrow> config_error + unit" where
  "first_empty field i [] = Inr ()"
| "first_empty field i (v # rest) =
     (if v = '''' then Inl (Config_error (indexed field i) Empty) else first_empty field (Suc i) rest)"

definition attachment_entry :: "string \<Rightarrow> rawAttachment \<Rightarrow> config_error + Attachment" where
  "attachment_entry field a =
     (case ra_Chain a of
        None \<Rightarrow> Inl (Config_error (field @ ''.chain'') Required)
      | Some chain \<Rightarrow>
          if chain = '''' then Inl (Config_error (field @ ''.chain'') Required)
          else
            (case ra_Direction a of
               None \<Rightarrow> Inl (Config_error (field @ ''.direction'') Not_a_direction)
             | Some direction \<Rightarrow>
                 if direction \<noteq> ''ingress'' \<and> direction \<noteq> ''egress''
                 then Inl (Config_error (field @ ''.direction'') Not_a_direction)
                 else
                   (let attachment =
                      \<lparr>at_Chain = chain, at_Direction = direction,
                       at_InputInterfaces =
                         (case ra_InputInterfaces a of None \<Rightarrow> [] | Some vs \<Rightarrow> normalizeInterfaceList vs),
                       at_OutputInterfaces =
                         (case ra_OutputInterfaces a of None \<Rightarrow> [] | Some vs \<Rightarrow> normalizeInterfaceList vs),
                       at_OriginalDestination = or_default (ra_OriginalDestination a) False\<rparr> in
                    result_bind (first_empty (field @ ''.input_interfaces'') 0 (at_InputInterfaces attachment)) (\<lambda>_.
                    result_bind (first_empty (field @ ''.output_interfaces'') 0 (at_OutputInterfaces attachment)) (\<lambda>_.
                      if chain \<noteq> ''INPUT'' \<and> chain \<noteq> ''OUTPUT'' \<and> direction = ''ingress'' \<and>
                         length (at_InputInterfaces attachment) = 0
                      then Inl (Config_error (field @ ''.input_interfaces'') Needs_interface)
                      else if chain \<noteq> ''INPUT'' \<and> chain \<noteq> ''OUTPUT'' \<and> direction = ''egress'' \<and>
                         length (at_OutputInterfaces attachment) = 0
                      then Inl (Config_error (field @ ''.output_interfaces'') Needs_interface)
                      else Inr attachment)))))"

fun attachments_loop :: "nat \<Rightarrow> string list \<Rightarrow> Attachment list \<Rightarrow> rawAttachment list \<Rightarrow> config_error + Attachment list" where
  "attachments_loop i seen out [] = Inr out"
| "attachments_loop i seen out (a # rest) =
     result_bind (attachment_entry (indexed ''firewall.iptables.attachments'' i) a) (\<lambda>attachment.
       let key = attachment_key attachment in
       if key \<in> set seen then attachments_loop (Suc i) seen out rest
       else attachments_loop (Suc i) (key # seen) (out @ [attachment]) rest)"

definition normalizeAttachments :: "rawAttachment list \<Rightarrow> config_error + Attachment list" where
  "normalizeAttachments raw = attachments_loop 0 [] [] raw"

section \<open>Transports and lists\<close>

definition IsAbs :: "string \<Rightarrow> bool" where
  "IsAbs path = (take 1 path = ''/'')"

definition identity_entry :: "string \<times> rawOpenZitiIdentity option \<Rightarrow> config_error + (string \<times> OpenZitiIdentityConfig)" where
  "identity_entry e =
     (case e of (name, v) \<Rightarrow>
        (let field = ''openziti.identities.'' @ name in
         result_bind (validateName name field) (\<lambda>_.
           case v of
             None \<Rightarrow> Inl (Config_error field Required)
           | Some identity \<Rightarrow>
               (case ri_IdentityFile identity of
                  None \<Rightarrow> Inl (Config_error (field @ ''.identity_file'') Required)
                | Some file \<Rightarrow>
                    if file = '''' then Inl (Config_error (field @ ''.identity_file'') Required)
                    else if \<not> IsAbs file then Inl (Config_error (field @ ''.identity_file'') Not_absolute)
                    else Inr (name, \<lparr>oi_IdentityFile = file\<rparr>)))))"

definition normalizeOpenZiti :: "rawOpenZiti option \<Rightarrow> config_error + (string \<times> OpenZitiIdentityConfig) list" where
  "normalizeOpenZiti raw =
     (case raw of None \<Rightarrow> Inr [] | Some r \<Rightarrow> map_result identity_entry (ro_Identities r))"

text \<open>\<open>strings.TrimSpace(v) == ""\<close>: the runes of Unicode white space, in UTF-8.\<close>

fun blank :: "string \<Rightarrow> bool" where
  "blank (c # d # e # cs) =
     (if c \<in> {CHR 0x09, CHR 0x0A, CHR 0x0B, CHR 0x0C, CHR 0x0D, CHR 0x20} then blank (d # e # cs)
      else if c = CHR 0xC2 \<and> d \<in> {CHR 0x85, CHR 0xA0} then blank (e # cs)
      else if c = CHR 0xE1 \<and> d = CHR 0x9A \<and> e = CHR 0x80 \<or>
              c = CHR 0xE2 \<and> d = CHR 0x80 \<and> (CHR 0x80 \<le> e \<and> e \<le> CHR 0x8A \<or> e \<in> {CHR 0xA8, CHR 0xA9, CHR 0xAF}) \<or>
              c = CHR 0xE2 \<and> d = CHR 0x81 \<and> e = CHR 0x9F \<or>
              c = CHR 0xE3 \<and> d = CHR 0x80 \<and> e = CHR 0x80
      then blank cs
      else False)"
| "blank [c, d] =
     (if c \<in> {CHR 0x09, CHR 0x0A, CHR 0x0B, CHR 0x0C, CHR 0x0D, CHR 0x20} then blank [d]
      else c = CHR 0xC2 \<and> d \<in> {CHR 0x85, CHR 0xA0})"
| "blank [c] = (c \<in> {CHR 0x09, CHR 0x0A, CHR 0x0B, CHR 0x0C, CHR 0x0D, CHR 0x20})"
| "blank [] = True"

definition normalizeTransport ::
  "rawTransport \<Rightarrow> (string \<times> OpenZitiIdentityConfig) list \<Rightarrow> string \<Rightarrow> config_error + TransportConfig" where
  "normalizeTransport raw identities field =
     (let type = or_default (rt_Type raw) '''' in
      if type \<notin> {'''', ''direct'', ''openziti''} then Inl (Config_error (field @ ''.type'') (Unsupported type))
      else if type \<noteq> ''openziti'' then
        (if rt_Identity raw \<noteq> None \<or> rt_Service raw \<noteq> None then Inl (Config_error field Forbidden_for_direct)
         else Inr zero_transport)
      else
        (let identity = or_default (rt_Identity raw) ''''; service = or_default (rt_Service raw) '''' in
         if identity = '''' then Inl (Config_error (field @ ''.identity'') Required)
         else
           result_bind (validateName identity (field @ ''.identity'')) (\<lambda>_.
             if map_of identities identity = None then Inl (Config_error (field @ ''.identity'') (Unknown identity))
             else if blank service then Inl (Config_error (field @ ''.service'') Required)
             else Inr \<lparr>tc_Type = ''openziti'', tc_Identity = identity, tc_Service = service\<rparr>)))"

definition optionalTransport ::
  "rawTransport option \<Rightarrow> (string \<times> OpenZitiIdentityConfig) list \<Rightarrow> string \<Rightarrow> config_error + TransportConfig" where
  "optionalTransport raw identities field =
     (case raw of None \<Rightarrow> Inr zero_transport | Some t \<Rightarrow> normalizeTransport t identities field)"

definition ip_list_entry ::
  "golib \<Rightarrow> (string \<times> OpenZitiIdentityConfig) list \<Rightarrow> string \<times> rawIPList option \<Rightarrow> config_error + (string \<times> IPListConfig)" where
  "ip_list_entry lib identities e =
     (case e of (name, v) \<Rightarrow>
        (let field = ''ip_lists.'' @ name in
         result_bind (validateName name field) (\<lambda>_.
           case v of
             None \<Rightarrow> Inl (Config_error field Required)
           | Some l \<Rightarrow>
               (let u = or_default (rl_URL l) '''' in
                if u = '''' then Inl (Config_error (field @ ''.url'') Required)
                else
                  result_bind (wrap_error (Config_error (field @ ''.url'')) (NormalizeIPListURL lib u)) (\<lambda>urlValue.
                  result_bind (optionalDuration lib (rl_RefreshInterval l) 86400000000000 (field @ ''.refresh_interval'')) (\<lambda>refresh.
                  result_bind (optionalDuration lib (rl_RequestTimeout l) 30000000000 (field @ ''.request_timeout'')) (\<lambda>timeout.
                  result_bind (optionalTransport (rl_Transport l) identities (field @ ''.transport'')) (\<lambda>transport.
                  result_bind (case rl_CSV l of None \<Rightarrow> Inr zero_csv | Some csv \<Rightarrow> normalizeRawCSV csv (field @ ''.csv'')) (\<lambda>csv.
                    Inr (name, \<lparr>il_URL = urlValue, il_RefreshInterval = refresh, il_RequestTimeout = timeout,
                                il_Transport = transport, il_CSV = csv\<rparr>))))))))))"

definition normalizeIPLists ::
  "golib \<Rightarrow> (string \<times> rawIPList option) list \<Rightarrow> (string \<times> OpenZitiIdentityConfig) list \<Rightarrow>
   config_error + (string \<times> IPListConfig) list" where
  "normalizeIPLists lib raw identities = map_result (ip_list_entry lib identities) raw"

section \<open>Groups and selectors\<close>

text \<open>The loop over the values of one category: convert, check, collect.\<close>

definition checked_values ::
  "(string \<Rightarrow> string) \<Rightarrow> (string \<Rightarrow> bool) \<Rightarrow> string \<Rightarrow> string list \<Rightarrow> config_error + string list" where
  "checked_values convert valid field vs =
     result_bind
       (map_result (\<lambda>(i, v). if \<not> valid (convert v) then Inl (Config_error (indexed field i) (Unknown v)) else Inr (convert v))
         (enumerate 0 vs))
       (\<lambda>seen. Inr (sortedKeys seen))"

definition group_entry :: "string \<times> string list \<Rightarrow> config_error + (string \<times> string list)" where
  "group_entry e =
     (case e of (name, countries) \<Rightarrow>
        (let field = ''groups.'' @ name in
         result_bind (validateName name field) (\<lambda>_.
           if Countries name \<noteq> None then Inl (Config_error field Shadows_builtin)
           else if length countries = 0 then Inl (Config_error field Empty)
           else result_bind (checked_values ToUpper ValidCountry field countries) (\<lambda>list. Inr (name, list)))))"

definition normalizeGroups :: "(string \<times> string list) list \<Rightarrow> config_error + (string \<times> string list) list" where
  "normalizeGroups raw = map_result group_entry raw"

definition category ::
  "(string \<Rightarrow> string) \<Rightarrow> (string \<Rightarrow> bool) \<Rightarrow> string \<Rightarrow> string list option \<Rightarrow> config_error + string list" where
  "category convert valid field raw =
     (case raw of
        None \<Rightarrow> Inr []
      | Some vs \<Rightarrow>
          if length vs = 0 then Inl (Config_error field Empty) else checked_values convert valid field vs)"

definition group_members :: "(string \<times> string list) list \<Rightarrow> string \<Rightarrow> string list" where
  "group_members groups g =
     (case map_of groups g of
        Some members \<Rightarrow> members
      | None \<Rightarrow> (case Countries g of Some members \<Rightarrow> members | None \<Rightarrow> []))"

definition normalizeSelector ::
  "rawSelector \<Rightarrow> (string \<times> string list) list \<Rightarrow> (string \<times> IPListConfig) list \<Rightarrow> string \<Rightarrow> config_error + (Selection \<times> nat)" where
  "normalizeSelector raw groups ipLists field =
     result_bind (category ToUpper ValidCountry (field @ ''.countries'') (rse_Countries raw)) (\<lambda>countries.
     result_bind (category ToUpper ValidRIR (field @ ''.rirs'') (rse_RIRs raw)) (\<lambda>rirs.
     result_bind (category (\<lambda>v. v) (\<lambda>g. map_of groups g \<noteq> None \<or> Countries g \<noteq> None) (field @ ''.groups'') (rse_Groups raw)) (\<lambda>gs.
     result_bind (category (\<lambda>v. v) ValidASN (field @ ''.asns'') (rse_ASNs raw)) (\<lambda>asns.
     result_bind (category (\<lambda>v. v) (\<lambda>l. map_of ipLists l \<noteq> None) (field @ ''.ip_lists'') (rse_IPLists raw)) (\<lambda>lists.
     result_bind (category (\<lambda>v. v) ValidProviderID (field @ ''.providers'') (rse_Providers raw)) (\<lambda>providers.
       Inr (\<lparr>se_Countries = countries, se_RIRs = rirs, se_Groups = gs, se_ASNs = asns, se_IPLists = lists,
             se_Providers = providers,
             se_ExpandedCountries = sortedKeys (countries @ map ToUpper (concat (map (group_members groups) gs)))\<rparr>,
            length countries + length rirs + length gs + length asns + length lists + length providers)))))))"

section \<open>Policies\<close>

definition normalizePolicy ::
  "rawPolicy \<Rightarrow> (string \<times> string list) list \<Rightarrow> (string \<times> IPListConfig) list \<Rightarrow> config_error + Policy" where
  "normalizePolicy raw groups ipLists =
     (let name = or_default (rpo_Name raw) ''''; field = ''policy '' @ name in
      if name = '''' then Inl (Config_error ''policies[].name'' Required)
      else
        result_bind (validateName name (''policies.'' @ name @ ''.name'')) (\<lambda>_.
          case rpo_Priority raw of
            None \<Rightarrow> Inl (Config_error (field @ ''.priority'') Required)
          | Some priority \<Rightarrow>
              if priority < 0 then Inl (Config_error (field @ ''.priority'') Negative)
              else
                (let direction = or_default (rpo_Direction raw) ''''; mode = or_default (rpo_Mode raw) '''';
                     values' = or_default (rpo_Traffic raw) [] in
                 if direction \<noteq> ''ingress'' \<and> direction \<noteq> ''egress''
                 then Inl (Config_error (field @ ''.direction'') Not_a_direction)
                 else if mode \<noteq> ''allowlist'' \<and> mode \<noteq> ''blocklist'' \<and> mode \<noteq> ''disabled''
                 then Inl (Config_error (field @ ''.mode'') Not_a_mode)
                 else if length values' = 0 then Inl (Config_error (field @ ''.traffic'') Required)
                 else
                   result_bind (normalizeTraffic values' name) (\<lambda>traffic.
                     case rpo_Include raw of
                       None \<Rightarrow> Inl (Config_error (field @ ''.include'') Required)
                     | Some rawInclude \<Rightarrow>
                         result_bind (normalizeSelector rawInclude groups ipLists (field @ ''.include'')) (\<lambda>(include, includeCount).
                         result_bind
                           (case rpo_Exclude raw of
                              None \<Rightarrow> Inr (zero_selection, 0)
                            | Some rawExclude \<Rightarrow> normalizeSelector rawExclude groups ipLists (field @ ''.exclude''))
                           (\<lambda>(exclude, _).
                             if mode \<noteq> ''disabled'' \<and> includeCount = 0
                             then Inl (Config_error (field @ ''.include'') Required)
                             else Inr \<lparr>po_Name = name, po_Priority = priority, po_Direction = direction, po_Mode = mode,
                                       po_Traffic = traffic, po_Include = include, po_Exclude = exclude\<rparr>))))))"

fun unique_loop :: "string list \<Rightarrow> ((string \<times> int) \<times> string) list \<Rightarrow> Policy list \<Rightarrow> config_error + unit" where
  "unique_loop names priorities [] = Inr ()"
| "unique_loop names priorities (p # rest) =
     (if po_Name p \<in> set names then Inl (Config_error (''policy '' @ po_Name p) Duplicate_policy)
      else
        (case map_of priorities (po_Direction p, po_Priority p) of
           Some other \<Rightarrow> Inl (Config_error (''policies '' @ other @ '' and '' @ po_Name p) (Same_priority (po_Direction p) (po_Priority p)))
         | None \<Rightarrow> unique_loop (po_Name p # names) (((po_Direction p, po_Priority p), po_Name p) # priorities) rest))"

definition validatePolicyUniqueness :: "Policy list \<Rightarrow> config_error + unit" where
  "validatePolicyUniqueness policies = unique_loop [] [] policies"

definition direction_priority_less :: "Policy \<Rightarrow> Policy \<Rightarrow> bool" where
  "direction_priority_less p q =
     (if po_Direction p \<noteq> po_Direction q then po_Direction p < po_Direction q else po_Priority p < po_Priority q)"

section \<open>The whole configuration\<close>

definition normalize_logging :: "rawLogging option \<Rightarrow> config_error + LoggingConfig" where
  "normalize_logging raw =
     (let level = (case raw of None \<Rightarrow> ''info'' | Some l \<Rightarrow> or_default (rlg_Level l) ''info'');
          format = (case raw of None \<Rightarrow> ''json'' | Some l \<Rightarrow> or_default (rlg_Format l) ''json'') in
      if level \<notin> {''debug'', ''info'', ''warn'', ''error''} then Inl (Config_error ''logging.level'' (Unsupported level))
      else if format \<notin> {''json'', ''text''} then Inl (Config_error ''logging.format'' (Unsupported format))
      else Inr \<lparr>lg_Level = level, lg_Format = format\<rparr>)"

definition normalize_metrics :: "golib \<Rightarrow> rawMetrics option \<Rightarrow> config_error + MetricsConfig" where
  "normalize_metrics lib raw =
     (let listen = (case raw of None \<Rightarrow> ''127.0.0.1:2112'' | Some m \<Rightarrow> or_default (rm_Listen m) ''127.0.0.1:2112'') in
      result_bind (validateListen lib listen) (\<lambda>_. Inr \<lparr>mt_Listen = listen\<rparr>))"

definition normalize_global :: "rawGlobal option \<Rightarrow> config_error + GlobalConfig" where
  "normalize_global raw =
     (let allow = (case raw of None \<Rightarrow> [] | Some g \<Rightarrow> or_default (rg_Allowlist g) []);
          block = (case raw of None \<Rightarrow> [] | Some g \<Rightarrow> or_default (rg_Blocklist g) []) in
      result_bind (normalizePrefixes allow ''global.allowlist'') (\<lambda>allowlist.
      result_bind (normalizePrefixes block ''global.blocklist'') (\<lambda>blocklist.
      result_bind (wrap_error (\<lambda>(i, _). Config_error ''global.allowlist'' (Invalid_set i))
          (Normalize (allowlist @ BuiltinLocalRanges))) (\<lambda>effective.
        Inr \<lparr>gl_Allowlist = effective, gl_Blocklist = blocklist\<rparr>))))"

definition normalize_nftables :: "rawNftables option \<Rightarrow> config_error + NftablesConfig" where
  "normalize_nftables raw =
     (let table = (case raw of None \<Rightarrow> ''perimeterd'' | Some n \<Rightarrow> or_default (rn_Table n) ''perimeterd'');
          given = (case raw of None \<Rightarrow> -10 | Some n \<Rightarrow> or_default (rn_Priority n) (-10)) in
      if given < -2147483648 \<or> 2147483647 < given then Inl (Config_error ''firewall.nftables.priority'' Not_32_bit)
      else
        (let priority = word_of_int given in
         if table = '''' then Inl (Config_error ''firewall.nftables.table'' Empty)
         else if sint (priority :: 32 word) \<le> -200 then Inl (Config_error ''firewall.nftables.priority'' Priority_too_low)
         else Inr \<lparr>nf_Table = table, nf_Priority = priority\<rparr>))"

definition normalize_firewall :: "string \<Rightarrow> rawFirewall \<Rightarrow> config_error + FirewallConfig" where
  "normalize_firewall backend fw =
     (let deny = or_default (rfw_DenyAction fw) ''drop'' in
      if deny \<notin> {''drop'', ''reject''} then Inl (Config_error ''firewall.deny_action'' (Unsupported deny))
      else
        result_bind (normalize_nftables (rfw_Nftables fw)) (\<lambda>nftables.
        result_bind
          (case rfw_IPTables fw of
             None \<Rightarrow> Inr defaultAttachments
           | Some t \<Rightarrow>
               (case rp_Attachments t of None \<Rightarrow> Inr defaultAttachments | Some raw \<Rightarrow> normalizeAttachments raw))
          (\<lambda>attachments.
             Inr \<lparr>fw_Backend = backend, fw_DenyAction = deny, fw_IPv4 = or_default (rfw_IPv4 fw) True,
                  fw_IPv6 = or_default (rfw_IPv6 fw) True, fw_Nftables = nftables,
                  fw_IPTables = \<lparr>it_Attachments = attachments\<rparr>\<rparr>)))"

definition normalize_geo :: "golib \<Rightarrow> rawGeo option \<Rightarrow> config_error + GeoConfig" where
  "normalize_geo lib raw =
     (case raw of
        None \<Rightarrow>
          Inr \<lparr>ge_CountryProvider = CountryProviderDBIPLite, ge_RefreshInterval = 86400000000000,
               ge_RequestTimeout = 30000000000, ge_RefreshJitter = 600000000000\<rparr>
      | Some g \<Rightarrow>
          (let provider = or_default (rge_CountryProvider g) CountryProviderDBIPLite in
           if provider \<noteq> CountryProviderDBIPLite \<and> provider \<noteq> CountryProviderRIPEstat
           then Inl (Config_error ''geo.country_provider'' (Unsupported provider))
           else
             result_bind (optionalDuration lib (rge_RefreshInterval g) 86400000000000 ''geo.refresh_interval'') (\<lambda>refresh.
             result_bind (optionalDuration lib (rge_RequestTimeout g) 30000000000 ''geo.request_timeout'') (\<lambda>timeout.
             result_bind (optionalDuration lib (rge_RefreshJitter g) 600000000000 ''geo.refresh_jitter'') (\<lambda>jitter.
               if refresh \<le> 0 then Inl (Config_error ''geo.refresh_interval'' Not_positive)
               else if timeout \<le> 0 then Inl (Config_error ''geo.request_timeout'' Not_positive)
               else if jitter \<le> 0 then Inl (Config_error ''geo.refresh_jitter'' Not_positive)
               else Inr \<lparr>ge_CountryProvider = provider, ge_RefreshInterval = refresh, ge_RequestTimeout = timeout,
                         ge_RefreshJitter = jitter\<rparr>)))))"

definition normalize_providers :: "golib \<Rightarrow> rawProviders option \<Rightarrow> config_error + ProvidersConfig" where
  "normalize_providers lib raw =
     (let r = (case raw of None \<Rightarrow> \<lparr>rpv_RefreshInterval = None, rpv_RequestTimeout = None\<rparr> | Some p \<Rightarrow> p) in
      result_bind (optionalDuration lib (rpv_RefreshInterval r) 86400000000000 ''providers.refresh_interval'') (\<lambda>refresh.
      result_bind (optionalDuration lib (rpv_RequestTimeout r) 30000000000 ''providers.request_timeout'') (\<lambda>timeout.
        if refresh \<le> 0 then Inl (Config_error ''providers.refresh_interval'' Not_positive)
        else if timeout \<le> 0 then Inl (Config_error ''providers.request_timeout'' Not_positive)
        else Inr \<lparr>pv_RefreshInterval = refresh, pv_RequestTimeout = timeout\<rparr>)))"

definition normalize_crowdsec ::
  "golib \<Rightarrow> (string \<times> OpenZitiIdentityConfig) list \<Rightarrow> rawCrowdSec option \<Rightarrow> config_error + CrowdSecConfig" where
  "normalize_crowdsec lib identities raw =
     (let r = (case raw of
                 None \<Rightarrow> \<lparr>rcs_Enabled = None, rcs_LAPIURL = None, rcs_APIKeyFile = None, rcs_UpdateFrequency = None,
                          rcs_Transport = None\<rparr>
               | Some c \<Rightarrow> c);
          enabled = or_default (rcs_Enabled r) False; lapi = or_default (rcs_LAPIURL r) ''http://127.0.0.1:8080'';
          key = or_default (rcs_APIKeyFile r) '''' in
      result_bind (optionalDuration lib (rcs_UpdateFrequency r) 10000000000 ''crowdsec.update_frequency'') (\<lambda>frequency.
      result_bind (optionalTransport (rcs_Transport r) identities ''crowdsec.transport'') (\<lambda>transport.
      result_bind (validateURL lib lapi ''crowdsec.lapi_url'') (\<lambda>_.
        if enabled \<and> key = '''' then Inl (Config_error ''crowdsec.api_key_file'' Required)
        else if frequency \<le> 0 then Inl (Config_error ''crowdsec.update_frequency'' Not_positive)
        else Inr \<lparr>cs_Enabled = enabled, cs_LAPIURL = lapi, cs_APIKeyFile = key, cs_UpdateFrequency = frequency,
                  cs_Transport = transport\<rparr>))))"

definition normalize_config :: "golib \<Rightarrow> rawConfig \<Rightarrow> config_error + Config" where
  "normalize_config lib raw =
     (case rcg_Version raw of
        None \<Rightarrow> Inl (Config_error ''version'' Required)
      | Some version \<Rightarrow>
          if version \<noteq> 1 then Inl (Config_error ''version'' (Not_exactly_1 version))
          else
            (case rcg_Firewall raw of
               None \<Rightarrow> Inl (Config_error ''firewall'' Required)
             | Some fw \<Rightarrow>
                 (let backend = or_default (rfw_Backend fw) '''' in
                  if backend = '''' then Inl (Config_error ''firewall.backend'' Required)
                  else if backend \<noteq> ''nftables'' \<and> backend \<noteq> ''iptables''
                  then Inl (Config_error ''firewall.backend'' (Unsupported backend))
                  else
                    result_bind (normalize_logging (rcg_Logging raw)) (\<lambda>logging.
                    result_bind (normalize_metrics lib (rcg_Metrics raw)) (\<lambda>metrics.
                    result_bind (normalizeOpenZiti (rcg_OpenZiti raw)) (\<lambda>identities.
                    result_bind (normalize_global (rcg_Global raw)) (\<lambda>global.
                    result_bind (normalize_firewall backend fw) (\<lambda>firewall.
                    result_bind (normalize_geo lib (rcg_Geo raw)) (\<lambda>geo.
                    result_bind (normalize_providers lib (rcg_Providers raw)) (\<lambda>providers.
                    result_bind (normalize_crowdsec lib identities (rcg_CrowdSec raw)) (\<lambda>crowdsec.
                    result_bind (normalizeIPLists lib (rcg_IPLists raw) identities) (\<lambda>ipLists.
                    result_bind (normalizeGroups (rcg_Groups raw)) (\<lambda>groups.
                    result_bind (map_result (\<lambda>rp. normalizePolicy rp groups ipLists) (rcg_Policies raw)) (\<lambda>policies.
                    result_bind (validatePolicyUniqueness policies) (\<lambda>_.
                      Inr \<lparr>cg_Version = 1, cg_Logging = logging, cg_Metrics = metrics, cg_Global = global,
                           cg_Firewall = firewall, cg_Geo = geo, cg_Providers = providers,
                           cg_OpenZiti = \<lparr>oz_Identities = map_of identities\<rparr>, cg_IPLists = map_of ipLists,
                           cg_Groups = map_of groups, cg_Policies = sort_slice direction_priority_less policies,
                           cg_CrowdSec = crowdsec\<rparr>)))))))))))))))"

section \<open>Parsing a file\<close>

text \<open>
  \<open>Parse\<close>, with the YAML decoder as an argument: the node tree of the first document, whether
  another one follows, and the strict decoding into the raw configuration.
\<close>

datatype yaml_more = No_more | More_documents | More_malformed

record yaml_decoder =
  yd_first :: "string \<Rightarrow> yaml_node option"
  yd_more :: "string \<Rightarrow> yaml_more"
  yd_known :: "string \<Rightarrow> rawConfig option"

definition shape_guard :: "shape_error option \<Rightarrow> config_error + unit" where
  "shape_guard e = (case e of None \<Rightarrow> Inr () | Some s \<Rightarrow> Inl (Config_error ''configuration'' (Shape s)))"

definition Parse :: "yaml_decoder \<Rightarrow> golib \<Rightarrow> string \<Rightarrow> config_error + Config" where
  "Parse yaml lib data =
     (case yd_first yaml data of
        None \<Rightarrow> Inl (Config_error ''configuration'' Malformed_yaml)
      | Some root \<Rightarrow>
          if n_Kind root = NoKind then Inl (Config_error ''configuration'' Empty)
          else
            result_bind (shape_guard (rejectDuplicateKeys root ''configuration'')) (\<lambda>_.
              case yd_more yaml data of
                More_documents \<Rightarrow> Inl (Config_error ''configuration'' Many_documents)
              | More_malformed \<Rightarrow> Inl (Config_error ''configuration'' Malformed_yaml)
              | No_more \<Rightarrow>
                  result_bind (shape_guard (checkRootShape (unwrapDocument root))) (\<lambda>_.
                    case yd_known yaml data of
                      None \<Rightarrow> Inl (Config_error ''configuration'' Malformed_yaml)
                    | Some raw \<Rightarrow> normalize_config lib raw)))"

section \<open>Well-formed configurations\<close>

abbreviation ascending :: "string list \<Rightarrow> bool" where
  "ascending \<equiv> sorted_wrt (<)"

definition attachment_ok :: "Attachment \<Rightarrow> bool" where
  "attachment_ok a =
     (at_Chain a \<noteq> '''' \<and> at_Direction a \<in> {''ingress'', ''egress''} \<and>
      ascending (at_InputInterfaces a) \<and> ascending (at_OutputInterfaces a) \<and>
      '''' \<notin> set (at_InputInterfaces a) \<and> '''' \<notin> set (at_OutputInterfaces a) \<and>
      (at_Chain a \<in> {''INPUT'', ''OUTPUT''} \<or>
       (if at_Direction a = ''ingress'' then at_InputInterfaces a else at_OutputInterfaces a) \<noteq> []))"

definition transport_ok :: "(string \<rightharpoonup> OpenZitiIdentityConfig) \<Rightarrow> TransportConfig \<Rightarrow> bool" where
  "transport_ok identities t =
     (t = zero_transport \<or>
      tc_Type t = ''openziti'' \<and> ValidName (tc_Identity t) \<and> identities (tc_Identity t) \<noteq> None \<and> \<not> blank (tc_Service t))"

definition ip_list_ok :: "(string \<rightharpoonup> OpenZitiIdentityConfig) \<Rightarrow> IPListConfig \<Rightarrow> bool" where
  "ip_list_ok identities l =
     (0 < il_RefreshInterval l \<and> 0 < il_RequestTimeout l \<and> transport_ok identities (il_Transport l) \<and>
      (il_CSV l = zero_csv \<or> csv_ok (il_CSV l)))"

definition group_ok :: "string \<Rightarrow> string list \<Rightarrow> bool" where
  "group_ok name members =
     (ValidName name \<and> Countries name = None \<and> members \<noteq> [] \<and> ascending members \<and> list_all ValidCountry members)"

definition group_countries :: "(string \<rightharpoonup> string list) \<Rightarrow> string \<Rightarrow> string list" where
  "group_countries groups g =
     (case groups g of Some members \<Rightarrow> members | None \<Rightarrow> (case Countries g of Some members \<Rightarrow> members | None \<Rightarrow> []))"

definition selection_ok :: "(string \<rightharpoonup> string list) \<Rightarrow> (string \<rightharpoonup> IPListConfig) \<Rightarrow> Selection \<Rightarrow> bool" where
  "selection_ok groups ipLists s =
     (ascending (se_Countries s) \<and> list_all ValidCountry (se_Countries s) \<and>
      ascending (se_RIRs s) \<and> list_all ValidRIR (se_RIRs s) \<and>
      ascending (se_Groups s) \<and> list_all (\<lambda>g. groups g \<noteq> None \<or> Countries g \<noteq> None) (se_Groups s) \<and>
      ascending (se_ASNs s) \<and> list_all ValidASN (se_ASNs s) \<and>
      ascending (se_IPLists s) \<and> list_all (\<lambda>l. ipLists l \<noteq> None) (se_IPLists s) \<and>
      ascending (se_Providers s) \<and> list_all ValidProviderID (se_Providers s) \<and>
      ascending (se_ExpandedCountries s) \<and>
      set (se_ExpandedCountries s) = set (se_Countries s) \<union> \<Union> (set ` group_countries groups ` set (se_Groups s)))"

definition selection_size :: "Selection \<Rightarrow> nat" where
  "selection_size s =
     length (se_Countries s) + length (se_RIRs s) + length (se_Groups s) + length (se_ASNs s) + length (se_IPLists s) +
     length (se_Providers s)"

definition policy_ok :: "(string \<rightharpoonup> string list) \<Rightarrow> (string \<rightharpoonup> IPListConfig) \<Rightarrow> Policy \<Rightarrow> bool" where
  "policy_ok groups ipLists p =
     (ValidName (po_Name p) \<and> 0 \<le> po_Priority p \<and> po_Direction p \<in> {''ingress'', ''egress''} \<and>
      po_Mode p \<in> {''allowlist'', ''blocklist'', ''disabled''} \<and>
      separated (ts_TCP (po_Traffic p)) \<and> separated (ts_UDP (po_Traffic p)) \<and>
      selection_ok groups ipLists (po_Include p) \<and> selection_ok groups ipLists (po_Exclude p) \<and>
      (po_Mode p = ''disabled'' \<or> 0 < selection_size (po_Include p)))"

definition firewall_ok :: "FirewallConfig \<Rightarrow> bool" where
  "firewall_ok fw =
     (fw_Backend fw \<in> {''nftables'', ''iptables''} \<and> fw_DenyAction fw \<in> {''drop'', ''reject''} \<and>
      nf_Table (fw_Nftables fw) \<noteq> '''' \<and> -200 < sint (nf_Priority (fw_Nftables fw)) \<and>
      list_all attachment_ok (it_Attachments (fw_IPTables fw)) \<and> distinct (it_Attachments (fw_IPTables fw)))"

definition intervals_ok :: "Config \<Rightarrow> bool" where
  "intervals_ok cfg =
     (0 < ge_RefreshInterval (cg_Geo cfg) \<and> 0 < ge_RequestTimeout (cg_Geo cfg) \<and> 0 < ge_RefreshJitter (cg_Geo cfg) \<and>
      0 < pv_RefreshInterval (cg_Providers cfg) \<and> 0 < pv_RequestTimeout (cg_Providers cfg) \<and>
      0 < cs_UpdateFrequency (cg_CrowdSec cfg))"

definition policies_ok :: "Config \<Rightarrow> bool" where
  "policies_ok cfg =
     (list_all (policy_ok (cg_Groups cfg) (cg_IPLists cfg)) (cg_Policies cfg) \<and>
      distinct (map po_Name (cg_Policies cfg)) \<and>
      sorted_wrt (\<lambda>p q. (po_Direction p, po_Priority p) < (po_Direction q, po_Priority q)) (cg_Policies cfg))"

definition config_ok :: "Config \<Rightarrow> bool" where
  "config_ok cfg =
     (cg_Version cfg = 1 \<and> lg_Level (cg_Logging cfg) \<in> {''debug'', ''info'', ''warn'', ''error''} \<and>
      lg_Format (cg_Logging cfg) \<in> {''json'', ''text''} \<and>
      canonical (gl_Allowlist (cg_Global cfg)) \<and> canonical (gl_Blocklist (cg_Global cfg)) \<and>
      firewall_ok (cg_Firewall cfg) \<and> intervals_ok cfg \<and>
      ge_CountryProvider (cg_Geo cfg) \<in> {CountryProviderDBIPLite, CountryProviderRIPEstat} \<and>
      (\<forall>name i. oz_Identities (cg_OpenZiti cfg) name = Some i \<longrightarrow> ValidName name \<and> IsAbs (oi_IdentityFile i)) \<and>
      (\<forall>name l. cg_IPLists cfg name = Some l \<longrightarrow> ValidName name \<and> ip_list_ok (oz_Identities (cg_OpenZiti cfg)) l) \<and>
      (\<forall>name members. cg_Groups cfg name = Some members \<longrightarrow> group_ok name members) \<and>
      (cs_Enabled (cg_CrowdSec cfg) \<longrightarrow> cs_APIKeyFile (cg_CrowdSec cfg) \<noteq> '''') \<and>
      transport_ok (oz_Identities (cg_OpenZiti cfg)) (cs_Transport (cg_CrowdSec cfg)) \<and>
      policies_ok cfg)"

section \<open>Lists and keys\<close>

lemma sortedKeys_props [simp]: "set (sortedKeys ks) = set ks" "ascending (sortedKeys ks)"
  by (simp_all add: sortedKeys_def string_order.sort_slice_strict)

lemma compact_loop_props:
  assumes "sorted_wrt (\<le>) vs" "ascending compact" "\<forall>c\<in>set compact. \<forall>v\<in>set vs. c \<le> v"
  shows "ascending (compact_loop compact vs) \<and> set (compact_loop compact vs) = set compact \<union> set vs"
  using assms
proof (induction vs arbitrary: compact)
  case (Cons v vs)
  show ?case
  proof (cases "length compact = 0 \<or> last compact \<noteq> v")
    case True
    have "c < v" if c: "c \<in> set compact" for c
    proof -
      obtain init l where i: "compact = init @ [l]" using c by (cases compact rule: rev_cases) auto
      then have "c \<le> l" using c Cons.prems(2) by (auto simp: sorted_wrt_append)
      moreover have "l \<le> v" "l \<noteq> v" using True Cons.prems(3) i by auto
      ultimately show ?thesis by simp
    qed
    then have "ascending (compact @ [v])" using Cons.prems(2) by (simp add: sorted_wrt_append)
    moreover have "\<forall>c\<in>set (compact @ [v]). \<forall>w\<in>set vs. c \<le> w" using Cons.prems by auto
    ultimately have "ascending (compact_loop (compact @ [v]) vs) \<and>
        set (compact_loop (compact @ [v]) vs) = set (compact @ [v]) \<union> set vs"
      using Cons.prems(1) by (intro Cons.IH) auto
    then show ?thesis using True by auto
  next
    case False
    then have "v \<in> set compact" by auto
    moreover have "ascending (compact_loop compact vs) \<and> set (compact_loop compact vs) = set compact \<union> set vs"
      using Cons.prems by (intro Cons.IH) auto
    ultimately show ?thesis using False by auto
  qed
qed simp

lemma normalizeInterfaceList_props [simp]:
  "ascending (normalizeInterfaceList vs)" "set (normalizeInterfaceList vs) = set vs"
proof -
  have "sorted_wrt (\<le>) (sort_slice (<) vs)"
    using string_order.sorted_sort_slice [of vs] by (simp add: not_less)
  then show "ascending (normalizeInterfaceList vs)" "set (normalizeInterfaceList vs) = set vs"
    using compact_loop_props [of "sort_slice (<) vs" "[]"] by (simp_all add: normalizeInterfaceList_def)
qed

lemma first_empty_Inr [simp]: "first_empty field i vs = Inr u \<longleftrightarrow> '''' \<notin> set vs"
  by (induction vs arbitrary: i) auto

lemma checked_values_Inr:
  assumes "checked_values convert valid field vs = Inr ys"
  shows "ascending ys \<and> list_all valid ys \<and> set ys = convert ` set vs"
proof -
  obtain seen where s: "map_result (\<lambda>(i, v). if \<not> valid (convert v) then Inl (Config_error (indexed field i) (Unknown v))
      else Inr (convert v)) (enumerate 0 vs) = Inr seen" and ys: "ys = sortedKeys seen"
    using assms by (auto simp: checked_values_def)
  have "list_all2 (\<lambda>(i, v) y. valid y \<and> y = convert v) (enumerate 0 vs) seen"
    using s unfolding map_result_Inr by (rule list_all2_mono) (auto split: if_splits)
  then have "seen = map (\<lambda>(i, v). convert v) (enumerate 0 vs)" "list_all valid seen"
    by (auto simp: list_all2_conv_all_nth list_all_length case_prod_beta intro!: nth_equalityI)
  moreover have "map (\<lambda>(i, v). convert v) (enumerate 0 vs) = map convert vs"
    by (rule nth_equalityI) (simp_all add: nth_enumerate_eq)
  ultimately show ?thesis by (auto simp: ys list_all_iff)
qed
section \<open>Attachments are deduplicated exactly\<close>

lemma split_at_mark:
  assumes "xs @ m # r = ys @ m # s" "list_all P xs" "list_all P ys" "\<not> P m"
  shows "xs = ys \<and> r = s"
proof -
  have "takeWhile P (zs @ m # t) = zs" if "list_all P zs" for zs t
    using that assms(4) by (simp add: takeWhile_append list_all_iff)
  from this [OF assms(2), of r] this [OF assms(3), of s] have "xs = ys" unfolding assms(1) by simp
  with assms(1) show ?thesis by simp
qed

text \<open>\<open>sliceKey\<close> is a prefix code: what follows it can be told apart.\<close>

lemma Itoa_head: "\<exists>d ds. Itoa n = d # ds \<and> is_digit d"
  using Itoa_digits [of n] by (cases "Itoa n") auto

lemma sliceKey_Cons [simp]: "sliceKey (v # vs) = Itoa (length v) @ CHR '':'' # v @ CHR '';'' # sliceKey vs"
  by (simp add: sliceKey_def)

lemma sliceKey_Nil [simp]: "sliceKey [] = []"
  by (simp add: sliceKey_def)

lemma sliceKey_unique:
  assumes "sliceKey xs @ m # r = sliceKey ys @ m # s" "\<not> is_digit m"
  shows "xs = ys \<and> r = s"
  using assms(1)
proof (induction xs arbitrary: ys)
  case Nil
  show ?case
  proof (cases ys)
    case (Cons y ys')
    then show ?thesis using Nil assms(2) Itoa_head [of "length y"] by auto
  qed (use Nil in simp)
next
  case (Cons x xs)
  then obtain y ys' where ys: "ys = y # ys'"
    using assms(2) Itoa_head [of "length x"] by (cases ys) auto
  have e: "Itoa (length x) @ CHR '':'' # x @ CHR '';'' # sliceKey xs @ m # r =
      Itoa (length y) @ CHR '':'' # y @ CHR '';'' # sliceKey ys' @ m # s"
    using Cons.prems by (simp add: ys)
  have d: "\<not> is_digit CHR '':''" by (simp add: is_digit_def)
  have "list_all is_digit (Itoa n)" for n using Itoa_digits [of n] by (simp add: list_all_iff)
  from split_at_mark [OF e this this d]
  have i: "Itoa (length x) = Itoa (length y)" and
    t: "x @ CHR '';'' # sliceKey xs @ m # r = y @ CHR '';'' # sliceKey ys' @ m # s" by simp_all
  have "length x = length y" using i Itoa_digits by metis
  with t have "x = y" "sliceKey xs @ m # r = sliceKey ys' @ m # s" by simp_all
  with Cons.IH show ?case by (simp add: ys)
qed

definition nul_free :: "string \<Rightarrow> bool" where
  "nul_free v = (CHR 0x00 \<notin> set v)"

lemma attachment_key_inj:
  assumes "attachment_key a = attachment_key b" "nul_free (at_Chain a)" "nul_free (at_Chain b)"
    and "attachment_ok a" "attachment_ok b"
  shows "a = b"
proof -
  let ?P = "\<lambda>c. c \<noteq> CHR 0x00"
  have n: "list_all ?P v \<longleftrightarrow> nul_free v" for v by (auto simp: nul_free_def list_all_iff)
  have dir: "nul_free (at_Direction a)" "nul_free (at_Direction b)"
    using assms(4,5) by (auto simp: attachment_ok_def nul_free_def)
  have e: "at_Chain a @ CHR 0x00 # at_Direction a @ CHR 0x00 # sliceKey (at_InputInterfaces a) @ CHR 0x00 #
       sliceKey (at_OutputInterfaces a) @ CHR 0x00 # FormatBool (at_OriginalDestination a) =
     at_Chain b @ CHR 0x00 # at_Direction b @ CHR 0x00 # sliceKey (at_InputInterfaces b) @ CHR 0x00 #
       sliceKey (at_OutputInterfaces b) @ CHR 0x00 # FormatBool (at_OriginalDestination b)"
    using assms(1) by (simp add: attachment_key_def)
  have z: "\<not> is_digit CHR 0x00" by (simp add: is_digit_def)
  note e1 = split_at_mark [where P = ?P, OF e, unfolded n, OF assms(2,3), simplified]
  note e2 = split_at_mark [where P = ?P, OF conjunct2 [OF e1], unfolded n, OF dir, simplified]
  note e3 = sliceKey_unique [OF conjunct2 [OF e2] z]
  note e4 = sliceKey_unique [OF conjunct2 [OF e3] z]
  have "at_OriginalDestination a = at_OriginalDestination b"
    using conjunct2 [OF e4] by (auto simp: FormatBool_def split: if_splits)
  with e1 e2 e3 e4 show ?thesis by simp
qed

definition attachment_value :: "rawAttachment \<Rightarrow> Attachment" where
  "attachment_value raw =
     \<lparr>at_Chain = or_default (ra_Chain raw) '''', at_Direction = or_default (ra_Direction raw) '''',
      at_InputInterfaces = normalizeInterfaceList (or_default (ra_InputInterfaces raw) []),
      at_OutputInterfaces = normalizeInterfaceList (or_default (ra_OutputInterfaces raw) []),
      at_OriginalDestination = or_default (ra_OriginalDestination raw) False\<rparr>"

lemma normalizeInterfaceList_Nil [simp]: "normalizeInterfaceList [] = []"
  by (simp add: normalizeInterfaceList_def)

lemma interfaces_default:
  "(case v of None \<Rightarrow> [] | Some vs \<Rightarrow> normalizeInterfaceList vs) = normalizeInterfaceList (or_default v [])"
  by (cases v) simp_all

text \<open>An entry is accepted exactly when its value is well formed; the path only matters for errors.\<close>

lemma attachment_entry_Inr: "attachment_entry field raw = Inr a \<longleftrightarrow> a = attachment_value raw \<and> attachment_ok a"
proof (cases "ra_Chain raw")
  case None
  then show ?thesis by (auto simp: attachment_entry_def attachment_ok_def attachment_value_def)
next
  case chain: (Some chain)
  show ?thesis
  proof (cases "ra_Direction raw")
    case None
    then show ?thesis using chain by (auto simp: attachment_entry_def attachment_ok_def attachment_value_def)
  next
    case direction: (Some direction)
    define b where "b = attachment_value raw"
    have b: "at_Chain b = chain" "at_Direction b = direction" "ascending (at_InputInterfaces b)"
      "ascending (at_OutputInterfaces b)"
      by (simp_all add: b_def attachment_value_def chain direction)
    have "attachment_entry field raw =
      (if chain = '''' then Inl (Config_error (field @ ''.chain'') Required)
       else if direction \<noteq> ''ingress'' \<and> direction \<noteq> ''egress'' then Inl (Config_error (field @ ''.direction'') Not_a_direction)
       else result_bind (first_empty (field @ ''.input_interfaces'') 0 (at_InputInterfaces b)) (\<lambda>_.
            result_bind (first_empty (field @ ''.output_interfaces'') 0 (at_OutputInterfaces b)) (\<lambda>_.
              if chain \<noteq> ''INPUT'' \<and> chain \<noteq> ''OUTPUT'' \<and> direction = ''ingress'' \<and> length (at_InputInterfaces b) = 0
              then Inl (Config_error (field @ ''.input_interfaces'') Needs_interface)
              else if chain \<noteq> ''INPUT'' \<and> chain \<noteq> ''OUTPUT'' \<and> direction = ''egress'' \<and> length (at_OutputInterfaces b) = 0
              then Inl (Config_error (field @ ''.output_interfaces'') Needs_interface)
              else Inr b)))"
      by (simp add: attachment_entry_def chain direction interfaces_default b_def attachment_value_def Let_def)
    then show ?thesis unfolding b_def [symmetric] attachment_ok_def using b by auto
  qed
qed

lemma attachments_loop_exact:
  assumes "attachments_loop i seen out raw = Inr result" "distinct out" "set seen = attachment_key ` set out"
    and "\<forall>a\<in>set out. attachment_ok a \<and> nul_free (at_Chain a)"
    and "\<forall>r\<in>set raw. \<forall>chain. ra_Chain r = Some chain \<longrightarrow> nul_free chain"
  shows "distinct result \<and> list_all (\<lambda>r. attachment_ok (attachment_value r)) raw \<and>
    set result = set out \<union> attachment_value ` set raw"
  using assms
proof (induction raw arbitrary: i seen out)
  case (Cons r raw)
  from Cons.prems(1) obtain a where a: "attachment_entry (indexed ''firewall.iptables.attachments'' i) r = Inr a"
    and loop: "(if attachment_key a \<in> set seen then attachments_loop (Suc i) seen out raw
       else attachments_loop (Suc i) (attachment_key a # seen) (out @ [a]) raw) = Inr result"
    by (auto simp: Let_def)
  have ok: "attachment_ok a" "a = attachment_value r" using a by (auto simp: attachment_entry_Inr)
  have nul: "nul_free (at_Chain a)"
    using Cons.prems(5) by (cases "ra_Chain r") (auto simp: ok(2) attachment_value_def nul_free_def)
  have seen: "attachment_key a \<in> set seen \<longleftrightarrow> a \<in> set out"
    using Cons.prems(3,4) ok(1) nul attachment_key_inj by (auto simp: image_iff)
  show ?case
  proof (cases "a \<in> set out")
    case True
    then have "attachments_loop (Suc i) seen out raw = Inr result" using loop seen by simp
    from Cons.IH [OF this] show ?thesis using Cons.prems True ok by auto
  next
    case False
    then have "attachments_loop (Suc i) (attachment_key a # seen) (out @ [a]) raw = Inr result" using loop seen by simp
    from Cons.IH [OF this] show ?thesis using Cons.prems False ok nul by auto
  qed
qed auto

lemma attachments_loop_ok:
  assumes "attachments_loop i seen out raw = Inr result" "distinct out" "set seen = attachment_key ` set out"
    and "list_all attachment_ok out"
  shows "distinct result \<and> list_all attachment_ok result"
  using assms
proof (induction raw arbitrary: i seen out)
  case (Cons r raw)
  from Cons.prems(1) obtain a where a: "attachment_entry (indexed ''firewall.iptables.attachments'' i) r = Inr a"
    and loop: "(if attachment_key a \<in> set seen then attachments_loop (Suc i) seen out raw
       else attachments_loop (Suc i) (attachment_key a # seen) (out @ [a]) raw) = Inr result"
    by (auto simp: Let_def)
  show ?case
  proof (cases "attachment_key a \<in> set seen")
    case True
    then show ?thesis using Cons.IH [of "Suc i" seen out] loop Cons.prems by simp
  next
    case False
    then have "a \<notin> set out" using Cons.prems(3) by auto
    with False show ?thesis
      using Cons.IH [of "Suc i" "attachment_key a # seen" "out @ [a]"] loop Cons.prems a by (auto simp: attachment_entry_Inr)
  qed
qed simp
section \<open>Every part is well formed\<close>

lemma normalizeOpenZiti_ok:
  "normalizeOpenZiti raw = Inr ids \<Longrightarrow> map_of ids name = Some i \<Longrightarrow> ValidName name \<and> IsAbs (oi_IdentityFile i)"
  by (cases raw)
    (auto simp: normalizeOpenZiti_def identity_entry_def validateName_def Let_def
      dest!: map_of_SomeD map_result_in split: option.splits if_split_asm)

lemma normalizeTransport_ok: "normalizeTransport raw ids field = Inr t \<Longrightarrow> transport_ok (map_of ids) t"
  by (auto simp: normalizeTransport_def transport_ok_def validateName_def Let_def split: if_split_asm)

lemma optionalTransport_ok: "optionalTransport raw ids field = Inr t \<Longrightarrow> transport_ok (map_of ids) t"
  by (cases raw) (simp_all add: optionalTransport_def normalizeTransport_ok, simp add: transport_ok_def)

lemma optionalDuration_pos: "optionalDuration lib v d field = Inr x \<Longrightarrow> 0 < d \<Longrightarrow> 0 < x"
  by (auto simp: optionalDuration_def positiveDuration_def split: option.splits if_split_asm)

lemma ip_list_entry_ok:
  assumes "ip_list_entry lib ids (name, v) = Inr (name', l)"
  shows "name' = name \<and> ValidName name \<and> ip_list_ok (map_of ids) l"
proof -
  from assms obtain r :: rawIPList and refresh timeout transport csv url where e: "ValidName name" "name' = name"
    "optionalDuration lib (rl_RefreshInterval r) 86400000000000 (''ip_lists.'' @ name @ ''.refresh_interval'') = Inr refresh"
    "optionalDuration lib (rl_RequestTimeout r) 30000000000 (''ip_lists.'' @ name @ ''.request_timeout'') = Inr timeout"
    "optionalTransport (rl_Transport r) ids (''ip_lists.'' @ name @ ''.transport'') = Inr transport"
    "(case rl_CSV r of None \<Rightarrow> Inr zero_csv | Some csv \<Rightarrow> normalizeRawCSV csv (''ip_lists.'' @ name @ ''.csv'')) = Inr csv"
    "l = \<lparr>il_URL = url, il_RefreshInterval = refresh, il_RequestTimeout = timeout, il_Transport = transport, il_CSV = csv\<rparr>"
    by (auto simp: ip_list_entry_def validateName_def Let_def split: option.splits if_split_asm)
  have "csv = zero_csv \<or> csv_ok csv" using e(6) by (cases "rl_CSV r") (auto dest: normalizeRawCSV_ok)
  with e show ?thesis
    by (auto simp: ip_list_ok_def dest: optionalTransport_ok optionalDuration_pos)
qed

lemma normalizeIPLists_ok:
  assumes "normalizeIPLists lib raw ids = Inr ls" "map_of ls name = Some l"
  shows "ValidName name \<and> ip_list_ok (map_of ids) l"
proof -
  obtain e where "ip_list_entry lib ids e = Inr (name, l)"
    using map_result_in [OF assms(1) [unfolded normalizeIPLists_def] map_of_SomeD [OF assms(2)]] by blast
  then show ?thesis using ip_list_entry_ok [of lib ids "fst e" "snd e" name l] by simp
qed

lemma group_entry_ok: "group_entry (name, cs) = Inr (name', ms) \<Longrightarrow> name' = name \<and> group_ok name ms"
  by (auto simp: group_entry_def group_ok_def validateName_def Let_def dest!: checked_values_Inr split: if_split_asm)

lemma normalizeGroups_ok:
  assumes "normalizeGroups raw = Inr gs" "map_of gs name = Some ms"
  shows "group_ok name ms"
proof -
  obtain e where "group_entry e = Inr (name, ms)"
    using map_result_in [OF assms(1) [unfolded normalizeGroups_def] map_of_SomeD [OF assms(2)]] by blast
  then show ?thesis using group_entry_ok [of "fst e" "snd e" name ms] by simp
qed

section \<open>Selectors and policies\<close>

lemma category_Inr:
  "category convert valid field raw = Inr ys \<Longrightarrow>
     ascending ys \<and> list_all valid ys \<and> set ys = convert ` set (or_default raw []) \<and> (ys = [] \<longleftrightarrow> raw = None)"
  by (auto simp: category_def dest!: checked_values_Inr split: option.splits if_split_asm)

lemma group_members_upper:
  assumes "normalizeGroups raw = Inr gs"
  shows "map ToUpper (group_members gs g) = group_countries (map_of gs) g"
proof -
  have "list_all ValidCountry (group_members gs g)"
    using normalizeGroups_ok [OF assms, of g] Countries_valid [of g]
    by (cases "map_of gs g"; cases "Countries g") (simp_all add: group_members_def group_ok_def list_all_iff)
  then have "map ToUpper (group_members gs g) = group_members gs g"
    by (intro map_idI) (auto simp: list_all_iff ToUpper_catalogue)
  then show ?thesis by (simp add: group_members_def group_countries_def)
qed

lemma normalizeSelector_ok:
  assumes "normalizeSelector raw gs ls field = Inr (s, n)" "normalizeGroups rawGroups = Inr gs"
  shows "selection_ok (map_of gs) (map_of ls) s \<and> n = selection_size s"
proof -
  from assms(1) obtain countries rirs groups asns lists providers where c:
    "category ToUpper ValidCountry (field @ ''.countries'') (rse_Countries raw) = Inr countries"
    "category ToUpper ValidRIR (field @ ''.rirs'') (rse_RIRs raw) = Inr rirs"
    "category (\<lambda>v. v) (\<lambda>g. map_of gs g \<noteq> None \<or> Countries g \<noteq> None) (field @ ''.groups'') (rse_Groups raw) = Inr groups"
    "category (\<lambda>v. v) ValidASN (field @ ''.asns'') (rse_ASNs raw) = Inr asns"
    "category (\<lambda>v. v) (\<lambda>l. map_of ls l \<noteq> None) (field @ ''.ip_lists'') (rse_IPLists raw) = Inr lists"
    "category (\<lambda>v. v) ValidProviderID (field @ ''.providers'') (rse_Providers raw) = Inr providers"
    and s: "s = \<lparr>se_Countries = countries, se_RIRs = rirs, se_Groups = groups, se_ASNs = asns, se_IPLists = lists,
      se_Providers = providers,
      se_ExpandedCountries = sortedKeys (countries @ map ToUpper (concat (map (group_members gs) groups)))\<rparr>"
    and n: "n = length countries + length rirs + length groups + length asns + length lists + length providers"
    unfolding normalizeSelector_def by (simp only: result_bind_Inr prod.inject sum.inject) blast
  have "map ToUpper (concat (map (group_members gs) groups)) = concat (map (group_countries (map_of gs)) groups)"
    by (simp add: map_concat o_def group_members_upper [OF assms(2)])
  then have "set (se_ExpandedCountries s) = set countries \<union> \<Union> (set ` group_countries (map_of gs) ` set groups)"
    unfolding s by (simp del: map_concat)
  then show ?thesis
    using c [THEN category_Inr] by (simp add: selection_ok_def selection_size_def s n)
qed

lemma selection_ok_zero: "selection_ok groups ipLists zero_selection"
  by (simp add: selection_ok_def zero_selection_def)

lemma normalizeTraffic_separated:
  assumes "normalizeTraffic vs policy = Inr scope"
  shows "separated (ts_TCP scope) \<and> separated (ts_UDP scope)"
proof -
  from assms obtain sc where sc: "traffic_loop (length vs) policy 0 zero_traffic vs = Inr sc"
    "scope = sc\<lparr>ts_TCP := mergePortRanges (ts_TCP sc), ts_UDP := mergePortRanges (ts_UDP sc)\<rparr>"
    by (auto simp: normalizeTraffic_def)
  have "ports_ok (ts_TCP sc)" "ports_ok (ts_UDP sc)"
    using traffic_loop_ok [OF sc(1)] by (auto simp: zero_traffic_def ports_ok_def)
  then show ?thesis by (simp add: sc(2) mergePortRanges_correct)
qed

lemma normalizePolicy_ok:
  assumes "normalizePolicy raw gs ls = Inr p" "normalizeGroups rawGroups = Inr gs"
  shows "policy_ok (map_of gs) (map_of ls) p"
proof -
  define name where "name = or_default (rpo_Name raw) ''''"
  define field where "field = ''policy '' @ name"
  define direction where "direction = or_default (rpo_Direction raw) ''''"
  define mode where "mode = or_default (rpo_Mode raw) ''''"
  from assms(1) obtain priority traffic rawInclude inc size exc size' where
    basic: "ValidName name" "0 \<le> priority" "direction \<in> {''ingress'', ''egress''}"
      "mode \<in> {''allowlist'', ''blocklist'', ''disabled''}"
    and parts: "normalizeTraffic (or_default (rpo_Traffic raw) []) name = Inr traffic"
      "normalizeSelector rawInclude gs ls (field @ ''.include'') = Inr (inc, size)"
      "(case rpo_Exclude raw of None \<Rightarrow> Inr (zero_selection, 0)
         | Some rawExclude \<Rightarrow> normalizeSelector rawExclude gs ls (field @ ''.exclude'')) = Inr (exc, size')"
      "mode = ''disabled'' \<or> size \<noteq> 0"
    and p: "p = \<lparr>po_Name = name, po_Priority = priority, po_Direction = direction, po_Mode = mode,
      po_Traffic = traffic, po_Include = inc, po_Exclude = exc\<rparr>"
    unfolding normalizePolicy_def Let_def name_def [symmetric] field_def [symmetric] direction_def [symmetric]
      mode_def [symmetric]
    by (auto simp: validateName_def simp del: append_assoc split: if_split_asm option.split_asm)
  have "selection_ok (map_of gs) (map_of ls) exc"
    using parts(3) normalizeSelector_ok [OF _ assms(2)]
    by (cases "rpo_Exclude raw") (auto simp: selection_ok_zero)
  then show ?thesis
    using basic parts(4) normalizeTraffic_separated [OF parts(1)] normalizeSelector_ok [OF parts(2) assms(2)]
    by (auto simp: policy_ok_def p)
qed

section \<open>Uniqueness and order\<close>

lemma unique_loop_Inr:
  "unique_loop names priorities ps = Inr () \<longleftrightarrow>
     distinct (map po_Name ps) \<and> set (map po_Name ps) \<inter> set names = {} \<and>
     distinct (map (\<lambda>p. (po_Direction p, po_Priority p)) ps) \<and>
     set (map (\<lambda>p. (po_Direction p, po_Priority p)) ps) \<inter> fst ` set priorities = {}"
proof (induction ps arbitrary: names priorities)
  case (Cons p ps)
  have "map_of priorities (po_Direction p, po_Priority p) = None \<longleftrightarrow> (po_Direction p, po_Priority p) \<notin> fst ` set priorities"
    by (rule map_of_eq_None_iff)
  then show ?case by (auto simp: Cons.IH split: option.split)
qed simp

lemma direction_priority_key:
  "direction_priority_less p q \<longleftrightarrow> (po_Direction p, po_Priority p) < (po_Direction q, po_Priority q)"
  by (auto simp: direction_priority_less_def less_prod_def)

interpretation policy_listing: strict_weak direction_priority_less
  by (rule strict_weak_key [where f = "\<lambda>p. (po_Direction p, po_Priority p)"]) (rule direction_priority_key)
section \<open>Global lists\<close>

lemma Normalize_props:
  assumes "Normalize ps = Inr cs"
  shows "canonical cs" and "covers cs a = covers ps a"
proof -
  have s: "set_New ps = Inr (fromCanonical cs)" using assms by (simp add: set_New_def)
  have p: "prefixes (fromCanonical cs) = cs" by (simp add: fromCanonical_def empty_set_def)
  show "canonical cs" using set_New_ok [OF s] p by (simp add: set_ok_def)
  show "covers cs a = covers ps a" using set_New_member [OF s, of a] by simp
qed

text \<open>What an entry of a list denotes: one address, or the block of a CIDR.\<close>

definition entry_covers :: "string \<Rightarrow> addr \<Rightarrow> bool" where
  "entry_covers v a =
     (case ParseAddr v of
        Some b \<Rightarrow> a = b
      | None \<Rightarrow> (case ParsePrefix v of Some p \<Rightarrow> prefix_Contains p a | None \<Rightarrow> False))"

lemma host_prefix_Contains:
  assumes "addr_IsValid b" "Zone b = ''''"
  shows "prefix_Contains (prefix_Masked (PrefixFrom b (int (BitLen b)))) a \<longleftrightarrow> a = b"
proof -
  let ?p = "PrefixFrom b (int (BitLen b))"
  have v: "prefix_IsValid ?p" "addr_ok (pAddr ?p)" "plen ?p = BitLen b" "pfam ?p = BitLen b" "pAddr ?p = b"
    using assms by (cases b; simp add: PrefixFrom_def prefix_IsValid_def addr_ok_def plen_def pfam_def)+
  have "prefix_Contains (prefix_Masked ?p) a = prefix_Contains ?p a"
    using v by (intro prefix_Contains_Masked) (auto simp: addr_ok_def)
  also have "\<dots> \<longleftrightarrow> addr_ok a \<and> BitLen a = BitLen b \<and> aval a = aval b"
    using v by (simp add: prefix_Contains_div psize_def)
  also have "\<dots> \<longleftrightarrow> a = b"
    using assms by (cases a; cases b) (auto simp: addr_ok_def word_unat_eq_iff)
  finally show ?thesis .
qed

lemma prefix_entry_covers:
  assumes "prefix_entry field i v = Inr p"
  shows "prefix_Contains p a = entry_covers v a"
proof (cases "ParseAddr v")
  case None
  then show ?thesis
    using assms ParsePrefix_valid [of v]
    by (cases "ParsePrefix v")
      (auto simp: prefix_entry_def entry_covers_def prefix_Contains_Masked addr_ok_def split: if_split_asm)
next
  case (Some b)
  then have "p = prefix_Masked (PrefixFrom b (int (BitLen b)))" "Zone b = ''''"
    using assms by (auto simp: prefix_entry_def split: if_split_asm)
  moreover have "addr_IsValid b" using ParseAddr_valid [OF Some] .
  ultimately show ?thesis using Some host_prefix_Contains by (simp add: entry_covers_def)
qed

lemma normalizePrefixes_props:
  assumes "normalizePrefixes vs field = Inr ps"
  shows "canonical ps" and "covers ps a \<longleftrightarrow> (\<exists>v\<in>set vs. entry_covers v a)"
proof -
  obtain qs where q: "map_result (\<lambda>(i, v). prefix_entry field i v) (enumerate 0 vs) = Inr qs" "Normalize qs = Inr ps"
    using assms by (auto simp: normalizePrefixes_def)
  show "canonical ps" by (rule Normalize_props(1) [OF q(2)])
  have "list_all2 (\<lambda>v p. prefix_Contains p a = entry_covers v a) vs qs"
    using q(1) unfolding map_result_Inr list_all2_conv_all_nth
    by (simp add: nth_enumerate_eq) (metis prefix_entry_covers)
  then have "covers qs a \<longleftrightarrow> (\<exists>v\<in>set vs. entry_covers v a)"
    by (induction rule: list_all2_induct) auto
  then show "covers ps a \<longleftrightarrow> (\<exists>v\<in>set vs. entry_covers v a)" by (simp add: Normalize_props(2) [OF q(2)])
qed

lemma normalize_global_props:
  assumes "normalize_global raw = Inr g"
  shows "canonical (gl_Allowlist g)" "canonical (gl_Blocklist g)"
    and "covers (gl_Allowlist g) a \<longleftrightarrow> covers BuiltinLocalRanges a \<or>
      (\<exists>r vs. raw = Some r \<and> rg_Allowlist r = Some vs \<and> (\<exists>v\<in>set vs. entry_covers v a))"
    and "covers (gl_Blocklist g) a \<longleftrightarrow>
      (\<exists>r vs. raw = Some r \<and> rg_Blocklist r = Some vs \<and> (\<exists>v\<in>set vs. entry_covers v a))"
proof -
  define allow where "allow = (case raw of None \<Rightarrow> [] | Some g \<Rightarrow> or_default (rg_Allowlist g) [])"
  define block where "block = (case raw of None \<Rightarrow> [] | Some g \<Rightarrow> or_default (rg_Blocklist g) [])"
  obtain ps bs es where n: "normalizePrefixes allow ''global.allowlist'' = Inr ps"
    "normalizePrefixes block ''global.blocklist'' = Inr bs" "Normalize (ps @ BuiltinLocalRanges) = Inr es"
    "g = \<lparr>gl_Allowlist = es, gl_Blocklist = bs\<rparr>"
    using assms unfolding normalize_global_def Let_def allow_def [symmetric] block_def [symmetric] by auto
  show "canonical (gl_Allowlist g)" "canonical (gl_Blocklist g)"
    using Normalize_props(1) [OF n(3)] normalizePrefixes_props(1) [OF n(2)] by (simp_all add: n(4))
  have e: "covers (ps @ BuiltinLocalRanges) a \<longleftrightarrow> covers ps a \<or> covers BuiltinLocalRanges a" by (auto simp: covers_def)
  show "covers (gl_Allowlist g) a \<longleftrightarrow> covers BuiltinLocalRanges a \<or>
      (\<exists>r vs. raw = Some r \<and> rg_Allowlist r = Some vs \<and> (\<exists>v\<in>set vs. entry_covers v a))"
    unfolding n(4) GlobalConfig.simps Normalize_props(2) [OF n(3)] e normalizePrefixes_props(2) [OF n(1)]
    by (cases raw; cases "rg_Allowlist (the raw)") (auto simp: allow_def)
  show "covers (gl_Blocklist g) a \<longleftrightarrow>
      (\<exists>r vs. raw = Some r \<and> rg_Blocklist r = Some vs \<and> (\<exists>v\<in>set vs. entry_covers v a))"
    unfolding n(4) GlobalConfig.simps normalizePrefixes_props(2) [OF n(2)]
    by (cases raw; cases "rg_Blocklist (the raw)") (auto simp: block_def)
qed
section \<open>The remaining sections\<close>

lemma normalize_nftables_ok:
  "normalize_nftables raw = Inr n \<Longrightarrow> nf_Table n \<noteq> '''' \<and> -200 < sint (nf_Priority n)"
  by (auto simp: normalize_nftables_def Let_def split: if_split_asm)

lemma defaultAttachments_ok: "list_all attachment_ok defaultAttachments \<and> distinct defaultAttachments"
  by (simp add: defaultAttachments_def attachment_ok_def)

lemma normalize_firewall_ok:
  assumes "normalize_firewall backend fw = Inr f" "backend \<in> {''nftables'', ''iptables''}"
  shows "firewall_ok f"
proof -
  let ?attach = "case rfw_IPTables fw of None \<Rightarrow> Inr defaultAttachments
           | Some t \<Rightarrow> (case rp_Attachments t of None \<Rightarrow> Inr defaultAttachments | Some raw \<Rightarrow> normalizeAttachments raw)"
  from assms(1) obtain nft as where f: "or_default (rfw_DenyAction fw) ''drop'' \<in> {''drop'', ''reject''}"
    "normalize_nftables (rfw_Nftables fw) = Inr nft" "?attach = Inr as"
    "fw_Backend f = backend" "fw_DenyAction f = or_default (rfw_DenyAction fw) ''drop''" "fw_Nftables f = nft"
    "it_Attachments (fw_IPTables f) = as"
    unfolding normalize_firewall_def Let_def by (auto split: if_split_asm)
  have "list_all attachment_ok as \<and> distinct as"
    using f(3) defaultAttachments_ok attachments_loop_ok [of 0 "[]" "[]" _ as]
    by (cases "rfw_IPTables fw"; cases "rp_Attachments (the (rfw_IPTables fw))") (auto simp: normalizeAttachments_def)
  then show ?thesis using f assms(2) normalize_nftables_ok [OF f(2)] by (simp add: firewall_ok_def)
qed

lemma normalize_geo_ok:
  assumes "normalize_geo lib raw = Inr g"
  shows "0 < ge_RefreshInterval g \<and> 0 < ge_RequestTimeout g \<and> 0 < ge_RefreshJitter g \<and>
    ge_CountryProvider g \<in> {CountryProviderDBIPLite, CountryProviderRIPEstat}"
  using assms by (cases raw) (auto simp: normalize_geo_def Let_def split: if_split_asm)

lemma normalize_providers_ok:
  "normalize_providers lib raw = Inr p \<Longrightarrow> 0 < pv_RefreshInterval p \<and> 0 < pv_RequestTimeout p"
  by (auto simp: normalize_providers_def Let_def split: if_split_asm)

lemma normalize_crowdsec_ok:
  assumes "normalize_crowdsec lib ids raw = Inr c"
  shows "0 < cs_UpdateFrequency c \<and> transport_ok (map_of ids) (cs_Transport c) \<and>
    (cs_Enabled c \<longrightarrow> cs_APIKeyFile c \<noteq> '''')"
  using assms unfolding normalize_crowdsec_def Let_def
  by (auto dest: optionalTransport_ok split: if_split_asm)

lemma normalize_logging_ok:
  "normalize_logging raw = Inr l \<Longrightarrow> lg_Level l \<in> {''debug'', ''info'', ''warn'', ''error''} \<and> lg_Format l \<in> {''json'', ''text''}"
  by (auto simp: normalize_logging_def Let_def split: if_split_asm)

text \<open>The parts of a successful normalisation.\<close>

lemma normalize_Inr:
  assumes "normalize_config lib raw = Inr cfg"
  obtains fw backend logging metrics ids global firewall geo providers crowdsec lists groups policies where
    "rcg_Firewall raw = Some fw" "backend = or_default (rfw_Backend fw) ''''" "backend \<in> {''nftables'', ''iptables''}"
    "normalize_logging (rcg_Logging raw) = Inr logging" "normalize_metrics lib (rcg_Metrics raw) = Inr metrics"
    "normalizeOpenZiti (rcg_OpenZiti raw) = Inr ids" "normalize_global (rcg_Global raw) = Inr global"
    "normalize_firewall backend fw = Inr firewall" "normalize_geo lib (rcg_Geo raw) = Inr geo"
    "normalize_providers lib (rcg_Providers raw) = Inr providers"
    "normalize_crowdsec lib ids (rcg_CrowdSec raw) = Inr crowdsec"
    "normalizeIPLists lib (rcg_IPLists raw) ids = Inr lists" "normalizeGroups (rcg_Groups raw) = Inr groups"
    "map_result (\<lambda>rp. normalizePolicy rp groups lists) (rcg_Policies raw) = Inr policies"
    "validatePolicyUniqueness policies = Inr ()"
    "cfg = \<lparr>cg_Version = 1, cg_Logging = logging, cg_Metrics = metrics, cg_Global = global,
       cg_Firewall = firewall, cg_Geo = geo, cg_Providers = providers, cg_OpenZiti = \<lparr>oz_Identities = map_of ids\<rparr>,
       cg_IPLists = map_of lists, cg_Groups = map_of groups,
       cg_Policies = sort_slice direction_priority_less policies, cg_CrowdSec = crowdsec\<rparr>"
proof -
  obtain version fw where v: "rcg_Version raw = Some version" "rcg_Firewall raw = Some fw"
    using assms by (cases "rcg_Version raw"; cases "rcg_Firewall raw") (auto simp: normalize_config_def split: if_split_asm)
  have b: "version = 1" "or_default (rfw_Backend fw) '''' \<in> {''nftables'', ''iptables''}"
    using assms by (auto simp: normalize_config_def v Let_def split: if_split_asm)
  then have "\<not> or_default (rfw_Backend fw) '''' = ''''" "\<not> (or_default (rfw_Backend fw) '''' \<noteq> ''nftables'' \<and>
      or_default (rfw_Backend fw) '''' \<noteq> ''iptables'')" "\<not> version \<noteq> 1" by auto
  note step = assms [unfolded normalize_config_def Let_def v option.case this [THEN Eq_FalseI] if_False, unfolded result_bind_Inr]
  then show ?thesis
    using that [OF v(2) refl b(2)] by (elim exE conjE) simp_all
qed
section \<open>A sample configuration\<close>

text \<open>
  A library that knows one URL, and a configuration with two policies declared out of order, a
  custom group, a blocklist and a bridge attachment.
\<close>

definition sample_lib :: golib where
  "sample_lib =
     \<lparr>lb_ParseDuration = (\<lambda>_. None), lb_SplitHostPort = (\<lambda>_. None),
      lb_URLParse = (\<lambda>v. if v = ''http://127.0.0.1:8080''
        then Some \<lparr>ur_Scheme = ''http'', ur_User = False, ur_Host = ''127.0.0.1:8080'', ur_Hostname = ''127.0.0.1'', ur_Rest = ''''\<rparr>
        else None),
      lb_URLString = ur_Rest, lb_ToLower = (\<lambda>v. v)\<rparr>"

definition no_selector :: rawSelector where
  "no_selector = \<lparr>rse_Countries = None, rse_RIRs = None, rse_Groups = None, rse_ASNs = None, rse_IPLists = None, rse_Providers = None\<rparr>"

definition sample_raw_policy :: "string \<Rightarrow> int \<Rightarrow> rawSelector \<Rightarrow> rawPolicy" where
  "sample_raw_policy name priority selector =
     \<lparr>rpo_Name = Some name, rpo_Priority = Some priority, rpo_Direction = Some ''ingress'', rpo_Mode = Some ''allowlist'',
      rpo_Traffic = Some [''icmp''], rpo_Include = Some selector, rpo_Exclude = None\<rparr>"

definition sample_attachment :: rawAttachment where
  "sample_attachment =
     \<lparr>ra_Chain = Some ''FORWARD'', ra_Direction = Some ''ingress'', ra_InputInterfaces = Some [''eth1'', ''eth0'', ''eth1''],
      ra_OutputInterfaces = None, ra_OriginalDestination = None\<rparr>"

definition sample_raw :: rawConfig where
  "sample_raw =
     \<lparr>rcg_Version = Some 1, rcg_Logging = None, rcg_Metrics = Some \<lparr>rm_Listen = Some ''''\<rparr>,
      rcg_Global = Some \<lparr>rg_Allowlist = None, rg_Blocklist = Some [''8.8.8.8'']\<rparr>,
      rcg_Firewall = Some \<lparr>rfw_Backend = Some ''iptables'', rfw_DenyAction = None, rfw_IPv4 = None, rfw_IPv6 = Some False,
        rfw_Nftables = None, rfw_IPTables = Some \<lparr>rp_Attachments = Some [sample_attachment, sample_attachment]\<rparr>\<rparr>,
      rcg_Geo = None, rcg_Providers = None, rcg_OpenZiti = None, rcg_IPLists = [], rcg_Groups = [(''home'', [''fr'', ''de''])],
      rcg_Policies =
        [sample_raw_policy ''late'' 20 (no_selector\<lparr>rse_Countries := Some [''us'']\<rparr>),
         sample_raw_policy ''early'' 10 (no_selector\<lparr>rse_Groups := Some [''home'']\<rparr>)],
      rcg_CrowdSec = None\<rparr>"

lemma sample_normalizes:
  "\<exists>cfg. normalize_config sample_lib sample_raw = Inr cfg \<and> map po_Name (cg_Policies cfg) = [''early'', ''late'']"
proof -
  have "case normalize_config sample_lib sample_raw of Inl _ \<Rightarrow> False | Inr cfg \<Rightarrow> map po_Name (cg_Policies cfg) = [''early'', ''late'']"
    by code_simp
  then show ?thesis by (cases "normalize_config sample_lib sample_raw") auto
qed
section \<open>Properties\<close>

lemma config_policies_ok:
  assumes "map_result (\<lambda>rp. normalizePolicy rp groups ls) raw = Inr policies" "normalizeGroups rawGroups = Inr groups"
    and "validatePolicyUniqueness policies = Inr ()"
    and "cg_Groups cfg = map_of groups" "cg_IPLists cfg = map_of ls"
    and p: "cg_Policies cfg = sort_slice direction_priority_less policies"
  shows "policies_ok cfg"
proof -
  have u: "distinct (map po_Name policies)" "distinct (map (\<lambda>p. (po_Direction p, po_Priority p)) policies)"
    using assms(3) by (simp_all add: validatePolicyUniqueness_def unique_loop_Inr)
  have "mset (map po_Name (cg_Policies cfg)) = mset (map po_Name policies)" by (simp add: p)
  then have "distinct (map po_Name (cg_Policies cfg))" using u(1) mset_eq_imp_distinct_iff by blast
  moreover have "sorted_wrt (\<lambda>p q. (po_Direction p, po_Priority p) < (po_Direction q, po_Priority q)) (cg_Policies cfg)"
    unfolding p by (rule sort_slice_key_strict [OF direction_priority_key u(2)])
  moreover have "list_all (policy_ok (cg_Groups cfg) (cg_IPLists cfg)) (cg_Policies cfg)"
    using map_result_in [OF assms(1)] normalizePolicy_ok [OF _ assms(2)] by (auto simp: list_all_iff p assms(4,5))
  ultimately show ?thesis by (simp add: policies_ok_def)
qed

lemma normalized_config_ok:
  assumes "normalize_config lib raw = Inr cfg"
  shows "config_ok cfg"
proof -
  obtain fw backend logging metrics ids global firewall geo providers crowdsec ls groups policies where n:
    "backend \<in> {''nftables'', ''iptables''}" "normalize_logging (rcg_Logging raw) = Inr logging"
    "normalizeOpenZiti (rcg_OpenZiti raw) = Inr ids" "normalize_global (rcg_Global raw) = Inr global"
    "normalize_firewall backend fw = Inr firewall" "normalize_geo lib (rcg_Geo raw) = Inr geo"
    "normalize_providers lib (rcg_Providers raw) = Inr providers"
    "normalize_crowdsec lib ids (rcg_CrowdSec raw) = Inr crowdsec"
    "normalizeIPLists lib (rcg_IPLists raw) ids = Inr ls" "normalizeGroups (rcg_Groups raw) = Inr groups"
    "map_result (\<lambda>rp. normalizePolicy rp groups ls) (rcg_Policies raw) = Inr policies"
    "validatePolicyUniqueness policies = Inr ()"
    and cfg: "cfg = \<lparr>cg_Version = 1, cg_Logging = logging, cg_Metrics = metrics, cg_Global = global,
       cg_Firewall = firewall, cg_Geo = geo, cg_Providers = providers, cg_OpenZiti = \<lparr>oz_Identities = map_of ids\<rparr>,
       cg_IPLists = map_of ls, cg_Groups = map_of groups,
       cg_Policies = sort_slice direction_priority_less policies, cg_CrowdSec = crowdsec\<rparr>"
    by (rule normalize_Inr [OF assms])
  have "policies_ok cfg" by (rule config_policies_ok [OF n(11,10,12)]) (simp_all add: cfg)
  moreover have "intervals_ok cfg"
    using normalize_geo_ok [OF n(6)] normalize_providers_ok [OF n(7)] normalize_crowdsec_ok [OF n(8)]
    by (simp add: intervals_ok_def cfg)
  ultimately show ?thesis
    using normalize_logging_ok [OF n(2)] normalize_global_props(1,2) [OF n(4)] normalize_firewall_ok [OF n(5,1)]
      normalize_geo_ok [OF n(6)] normalizeOpenZiti_ok [OF n(3)] normalizeIPLists_ok [OF n(9)]
      normalizeGroups_ok [OF n(10)] normalize_crowdsec_ok [OF n(8)]
    unfolding config_ok_def by (simp add: cfg)
qed

lemma normalized_global:
  assumes "normalize_config lib raw = Inr cfg"
  shows "covers (gl_Allowlist (cg_Global cfg)) a \<longleftrightarrow> covers BuiltinLocalRanges a \<or>
      (\<exists>r vs. rcg_Global raw = Some r \<and> rg_Allowlist r = Some vs \<and> (\<exists>v\<in>set vs. entry_covers v a))"
    and "covers (gl_Blocklist (cg_Global cfg)) a \<longleftrightarrow>
      (\<exists>r vs. rcg_Global raw = Some r \<and> rg_Blocklist r = Some vs \<and> (\<exists>v\<in>set vs. entry_covers v a))"
proof -
  obtain global where "normalize_global (rcg_Global raw) = Inr global" "cg_Global cfg = global"
    using assms by (rule normalize_Inr) simp
  then show "covers (gl_Allowlist (cg_Global cfg)) a \<longleftrightarrow> covers BuiltinLocalRanges a \<or>
      (\<exists>r vs. rcg_Global raw = Some r \<and> rg_Allowlist r = Some vs \<and> (\<exists>v\<in>set vs. entry_covers v a))"
    and "covers (gl_Blocklist (cg_Global cfg)) a \<longleftrightarrow>
      (\<exists>r vs. rcg_Global raw = Some r \<and> rg_Blocklist r = Some vs \<and> (\<exists>v\<in>set vs. entry_covers v a))"
    using normalize_global_props(3,4) by simp_all
qed

text \<open>
  (C33) Every accepted configuration is well formed: supported enumerations, canonical address
  lists, positive intervals, resolved references to groups, lists and identities, sorted selectors
  with their countries expanded, separated port ranges, an nftables priority after connection
  tracking, distinct attachments, and policies with distinct names in strictly ascending order of
  direction and priority.
\<close>

theorem normalize_ok:
  assumes "normalize_config lib raw = Inr cfg"
  shows "config_ok cfg"
  by (rule normalized_config_ok [OF assms])

theorem normalize_ok_witness:
  "\<exists>cfg. normalize_config sample_lib sample_raw = Inr cfg \<and> config_ok cfg \<and> map po_Name (cg_Policies cfg) = [''early'', ''late'']"
proof -
  from sample_normalizes obtain cfg where c: "normalize_config sample_lib sample_raw = Inr cfg"
    "map po_Name (cg_Policies cfg) = [''early'', ''late'']" by (elim exE conjE)
  from c normalize_ok [OF c(1)] show ?thesis by (intro exI conjI)
qed

text \<open>
  (C34) The effective allowlist holds exactly the configured addresses and the built-in local
  ranges, which no configuration removes; the blocklist holds exactly the configured addresses.
\<close>

theorem normalize_global_exact:
  assumes "normalize_config lib raw = Inr cfg"
  shows "(covers (gl_Allowlist (cg_Global cfg)) a \<longleftrightarrow> covers BuiltinLocalRanges a \<or>
      (\<exists>r vs. rcg_Global raw = Some r \<and> rg_Allowlist r = Some vs \<and> (\<exists>v\<in>set vs. entry_covers v a))) \<and>
    (covers (gl_Blocklist (cg_Global cfg)) a \<longleftrightarrow>
      (\<exists>r vs. rcg_Global raw = Some r \<and> rg_Blocklist r = Some vs \<and> (\<exists>v\<in>set vs. entry_covers v a)))"
  using normalized_global [OF assms] by simp

theorem normalize_global_exact_witness:
  "\<exists>cfg. normalize_config sample_lib sample_raw = Inr cfg \<and> covers (gl_Allowlist (cg_Global cfg)) (IP4 0x0A000001) \<and>
     covers (gl_Blocklist (cg_Global cfg)) (IP4 0x08080808) \<and> \<not> covers (gl_Blocklist (cg_Global cfg)) (IP4 0x08080809)"
proof -
  obtain cfg where c: "normalize_config sample_lib sample_raw = Inr cfg" using sample_normalizes by blast
  have "list_ex (\<lambda>p. prefix_Contains p (IP4 0x0A000001)) BuiltinLocalRanges"
    "entry_covers ''8.8.8.8'' (IP4 0x08080808)" "\<not> entry_covers ''8.8.8.8'' (IP4 0x08080809)" by code_simp+
  moreover have "rcg_Global sample_raw = Some \<lparr>rg_Allowlist = None, rg_Blocklist = Some [''8.8.8.8'']\<rparr>"
    by (simp add: sample_raw_def)
  ultimately show ?thesis
    using c normalize_global_exact [OF c, of "IP4 0x0A000001"] normalize_global_exact [OF c, of "IP4 0x08080808"]
      normalize_global_exact [OF c, of "IP4 0x08080809"]
    by (auto simp: covers_def list_ex_iff)
qed



end
