(* ===== verification/Policy_Snapshot.thy ===== *)
theory Policy_Snapshot
  imports Prefix_Set Catalog Config
begin

text \<open>
  \<open>internal/policy/snapshot.go\<close>: canonical selectors, snapshots of resolved selectors,
  and the selectors a configuration needs.

  The Go map of a snapshot is an association list with distinct keys in insertion order; a
  Go set that is collected and then sorted is the sorted list of its distinct elements.
\<close>

section \<open>Selectors\<close>

type_synonym SelectorKind = string

abbreviation Country :: SelectorKind where "Country \<equiv> ''country''"
abbreviation RIR :: SelectorKind where "RIR \<equiv> ''rir''"
abbreviation ASN :: SelectorKind where "ASN \<equiv> ''asn''"
abbreviation IPList :: SelectorKind where "IPList \<equiv> ''ip_list''"
abbreviation Provider :: SelectorKind where "Provider \<equiv> ''provider''"

record Selector =
  sl_Kind :: SelectorKind
  sl_Value :: string

definition selector_Less :: "Selector \<Rightarrow> Selector \<Rightarrow> bool" where
  "selector_Less s other =
     (if sl_Kind s \<noteq> sl_Kind other then sl_Kind s < sl_Kind other else sl_Value s < sl_Value other)"

datatype selector_error =
    Unknown_country string | Unknown_RIR string | ASN_not_canonical string | IP_list_name string
  | Provider_name string | Unknown_kind string

definition CanonicalSelector :: "SelectorKind \<Rightarrow> string \<Rightarrow> selector_error + Selector" where
  "CanonicalSelector kind value =
     (if kind = Country then
        (if \<not> ValidCountry (ToUpper value) then Inl (Unknown_country value)
         else Inr \<lparr>sl_Kind = kind, sl_Value = ToUpper value\<rparr>)
      else if kind = RIR then
        (if \<not> ValidRIR (ToUpper value) then Inl (Unknown_RIR value)
         else Inr \<lparr>sl_Kind = kind, sl_Value = ToUpper value\<rparr>)
      else if kind = ASN then
        (if \<not> ValidASN value then Inl (ASN_not_canonical value)
         else Inr \<lparr>sl_Kind = kind, sl_Value = value\<rparr>)
      else if kind = IPList then
        (if \<not> ValidName value then Inl (IP_list_name value)
         else Inr \<lparr>sl_Kind = kind, sl_Value = value\<rparr>)
      else if kind = Provider then
        (if \<not> ValidProviderID value then Inl (Provider_name value)
         else Inr \<lparr>sl_Kind = kind, sl_Value = value\<rparr>)
      else Inl (Unknown_kind kind))"

section \<open>Snapshots\<close>

record ResolvedSelector =
  rs_Selector :: Selector
  rs_IPv4 :: "prefix list"
  rs_IPv6 :: "prefix list"

record Snapshot =
  sn_entries :: "(Selector \<times> prefix_set) list"

datatype family_error = Malformed_prefix nat | Wrong_family nat

datatype snapshot_error =
    Record_selector nat selector_error
  | Record_duplicate nat Selector
  | Record_family nat Selector bool family_error
  | Record_prefix nat Selector bool nat validate_error

fun validateFamily :: "bool \<Rightarrow> nat \<Rightarrow> prefix list \<Rightarrow> family_error option" where
  "validateFamily ipv4 j [] = None"
| "validateFamily ipv4 j (candidate # rest) =
     (if \<not> prefix_IsValid candidate then Some (Malformed_prefix j)
      else if Is4 (pAddr candidate) \<noteq> ipv4 then Some (Wrong_family j)
      else validateFamily ipv4 (Suc j) rest)"

definition snapshot_record ::
  "nat \<Rightarrow> (Selector \<times> prefix_set) list \<Rightarrow> ResolvedSelector \<Rightarrow> snapshot_error + (Selector \<times> prefix_set)" where
  "snapshot_record i entries record' =
     result_bind (wrap_error (Record_selector i)
         (CanonicalSelector (sl_Kind (rs_Selector record')) (sl_Value (rs_Selector record')))) (\<lambda>selector.
     if map_of entries selector \<noteq> None then Inl (Record_duplicate i selector)
     else case validateFamily True 0 (rs_IPv4 record') of
       Some e \<Rightarrow> Inl (Record_family i selector True e)
     | None \<Rightarrow> (case validateFamily False 0 (rs_IPv6 record') of
         Some e \<Rightarrow> Inl (Record_family i selector False e)
       | None \<Rightarrow>
           result_bind (wrap_error (\<lambda>(j, e). Record_prefix i selector True j e) (set_New (rs_IPv4 record'))) (\<lambda>v4.
           result_bind (wrap_error (\<lambda>(j, e). Record_prefix i selector False j e) (set_New (rs_IPv6 record'))) (\<lambda>v6.
             Inr (selector, set_Union [v4, v6])))))"

fun snapshot_loop ::
  "nat \<Rightarrow> (Selector \<times> prefix_set) list \<Rightarrow> ResolvedSelector list \<Rightarrow> snapshot_error + (Selector \<times> prefix_set) list" where
  "snapshot_loop i entries [] = Inr entries"
| "snapshot_loop i entries (record' # rest) =
     result_bind (snapshot_record i entries record') (\<lambda>entry. snapshot_loop (Suc i) (entries @ [entry]) rest)"

definition NewSnapshot :: "ResolvedSelector list \<Rightarrow> snapshot_error + Snapshot" where
  "NewSnapshot records = result_bind (snapshot_loop 0 [] records) (\<lambda>entries. Inr \<lparr>sn_entries = entries\<rparr>)"

definition snapshot_Lookup :: "Snapshot \<Rightarrow> Selector \<Rightarrow> prefix_set option" where
  "snapshot_Lookup s selector = map_of (sn_entries s) selector"

definition sortSelectors :: "Selector list \<Rightarrow> Selector list" where
  "sortSelectors selectors = sort_slice selector_Less selectors"

definition snapshot_Selectors :: "Snapshot \<Rightarrow> Selector list" where
  "snapshot_Selectors s = sort_slice selector_Less (map fst (sn_entries s))"

section \<open>The selectors of a configuration\<close>

datatype keys_error =
    Groups_unresolved | Key_selector selector_error | RIR_member string selector_error

definition rir_keys :: "string \<Rightarrow> keys_error + Selector list" where
  "rir_keys rir =
     result_bind (wrap_error Key_selector (CanonicalSelector RIR rir)) (\<lambda>selector.
       wrap_error (RIR_member (sl_Value selector))
         (map_result (CanonicalSelector Country) (RIRCountries (sl_Value selector))))"

definition selectorKeys :: "Selection \<Rightarrow> keys_error + Selector list" where
  "selectorKeys selection =
     (if se_Groups selection \<noteq> [] \<and> se_ExpandedCountries selection = [] then Inl Groups_unresolved
      else
        result_bind (wrap_error Key_selector (map_result (CanonicalSelector Country)
            (se_Countries selection @ se_ExpandedCountries selection))) (\<lambda>countries.
        result_bind (map_result rir_keys (se_RIRs selection)) (\<lambda>rirs.
        result_bind (wrap_error Key_selector (map_result (CanonicalSelector ASN) (se_ASNs selection))) (\<lambda>asns.
        result_bind (wrap_error Key_selector (map_result (CanonicalSelector IPList) (se_IPLists selection))) (\<lambda>lists.
        result_bind (wrap_error Key_selector (map_result (CanonicalSelector Provider) (se_Providers selection))) (\<lambda>providers.
          Inr (sortSelectors (remdups (countries @ concat rirs @ asns @ lists @ providers)))))))))"

datatype side = Include | Exclude

fun required_loop :: "nat \<Rightarrow> Selector list \<Rightarrow> Policy list \<Rightarrow> (nat \<times> side \<times> keys_error) + Selector list" where
  "required_loop i seen [] = Inr seen"
| "required_loop i seen (policy # rest) =
     (if po_Mode policy = ''disabled'' then required_loop (Suc i) seen rest
      else
        result_bind (wrap_error (\<lambda>e. (i, Include, e)) (selectorKeys (po_Include policy))) (\<lambda>inc.
        result_bind (wrap_error (\<lambda>e. (i, Exclude, e)) (selectorKeys (po_Exclude policy))) (\<lambda>exc.
          required_loop (Suc i) (seen @ inc @ exc) rest)))"

definition RequiredSelectors :: "Config \<Rightarrow> (nat \<times> side \<times> keys_error) + Selector list" where
  "RequiredSelectors cfg =
     result_bind (required_loop 0 [] (cg_Policies cfg)) (\<lambda>seen. Inr (sortSelectors (remdups seen)))"

section \<open>Order and canonical form of selectors\<close>

lemma selector_Less_key: "selector_Less s t \<longleftrightarrow> (sl_Kind s, sl_Value s) < (sl_Kind t, sl_Value t)"
  by (auto simp: selector_Less_def)

interpretation selector_order: strict_total selector_Less
  by (rule strict_total_key [OF selector_Less_key]) (auto intro!: injI Selector.equality)

lemma set_sortSelectors [simp]: "set (sortSelectors xs) = set xs"
  by (simp add: sortSelectors_def)

definition selector_ok :: "Selector \<Rightarrow> bool" where
  "selector_ok s = (CanonicalSelector (sl_Kind s) (sl_Value s) = Inr s)"

lemma CanonicalSelector_ok: "CanonicalSelector kind value = Inr s \<Longrightarrow> selector_ok s \<and> sl_Kind s = kind"
  by (auto simp: CanonicalSelector_def selector_ok_def ToUpper_catalogue split: if_splits)

lemma RIR_member_valid: "c \<in> set (RIRCountries r) \<Longrightarrow> \<exists>s. CanonicalSelector Country c = Inr s"
proof -
  assume "c \<in> set (RIRCountries r)"
  then obtain xs where "(r, xs) \<in> set rirServiceRegions" "c \<in> set xs" by (auto simp: RIRCountries_iff)
  then have "c \<in> set (concat (map snd rirServiceRegions))" by force
  then have "ValidCountry c" unfolding ValidCountry_def set_regions .
  then show ?thesis by (simp add: CanonicalSelector_def ToUpper_catalogue)
qed

section \<open>What the constructors guarantee\<close>

definition snapshot_ok :: "Snapshot \<Rightarrow> bool" where
  "snapshot_ok s =
     (distinct (map fst (sn_entries s)) \<and> (\<forall>(sel, set') \<in> set (sn_entries s). selector_ok sel \<and> set_ok set'))"

definition resolves :: "ResolvedSelector \<Rightarrow> Selector \<times> prefix_set \<Rightarrow> bool" where
  "resolves r entry =
     (CanonicalSelector (sl_Kind (rs_Selector r)) (sl_Value (rs_Selector r)) = Inr (fst entry) \<and>
      set_ok (snd entry) \<and> (\<forall>a. member (snd entry) a \<longleftrightarrow> covers (rs_IPv4 r @ rs_IPv6 r) a))"

lemma snapshot_record_Inr:
  assumes "snapshot_record i entries r = Inr entry"
  shows "resolves r entry \<and> fst entry \<notin> fst ` set entries"
proof -
  obtain v4 v6 where v: "CanonicalSelector (sl_Kind (rs_Selector r)) (sl_Value (rs_Selector r)) = Inr (fst entry)"
      "map_of entries (fst entry) = None" "set_New (rs_IPv4 r) = Inr v4" "set_New (rs_IPv6 r) = Inr v6"
      "snd entry = set_Union [v4, v6]"
    using assms by (auto simp: snapshot_record_def split: if_splits option.splits)
  have ok: "set_ok v4" "set_ok v6" using v set_New_ok by blast+
  then show ?thesis
    using v set_New_member prefix_sets.union2_ok prefix_sets.union2_mem
    by (auto simp: resolves_def map_of_eq_None_iff)
qed

lemma snapshot_loop_Inr:
  assumes "snapshot_loop i entries rs = Inr es"
  shows "\<exists>new. es = entries @ new \<and> list_all2 resolves rs new \<and>
    (distinct (map fst entries) \<longrightarrow> distinct (map fst es))"
  using assms
proof (induction i entries rs rule: snapshot_loop.induct)
  case (2 i entries r rest)
  then obtain entry where entry: "snapshot_record i entries r = Inr entry"
      "snapshot_loop (Suc i) (entries @ [entry]) rest = Inr es" by auto
  from 2(1) [OF entry(2)] snapshot_record_Inr [OF entry(1)] show ?case
    by (cases entry) (auto simp: list_all2_Cons1)
qed simp

lemma selectorKeys_ok:
  assumes "selectorKeys selection = Inr keys"
  shows "sorted_wrt selector_Less keys" "\<forall>k\<in>set keys. selector_ok k"
proof -
  have canon: "\<forall>k\<in>set ks. selector_ok k"
    if "map_result (CanonicalSelector kind) vs = Inr ks" for kind vs ks
    using map_result_in [OF that] CanonicalSelector_ok by blast
  have rir: "\<forall>ks\<in>set rs. \<forall>k\<in>set ks. selector_ok k" if "map_result rir_keys vs = Inr rs" for vs rs
  proof
    fix ks assume "ks \<in> set rs"
    with map_result_in [OF that] obtain v where "rir_keys v = Inr ks" by blast
    then show "\<forall>k\<in>set ks. selector_ok k" using canon by (auto simp: rir_keys_def)
  qed
  obtain cs rs as ls ps where k:
      "map_result (CanonicalSelector Country) (se_Countries selection @ se_ExpandedCountries selection) = Inr cs"
      "map_result rir_keys (se_RIRs selection) = Inr rs"
      "map_result (CanonicalSelector ASN) (se_ASNs selection) = Inr as"
      "map_result (CanonicalSelector IPList) (se_IPLists selection) = Inr ls"
      "map_result (CanonicalSelector Provider) (se_Providers selection) = Inr ps"
      "keys = sortSelectors (remdups (cs @ concat rs @ as @ ls @ ps))"
    using assms unfolding selectorKeys_def by (auto split: if_splits)
  then have raw: "\<forall>k\<in>set (cs @ concat rs @ as @ ls @ ps). selector_ok k"
    using canon [OF k(1)] rir [OF k(2)] canon [OF k(3)] canon [OF k(4)] canon [OF k(5)] by auto
  then show "sorted_wrt selector_Less keys" "\<forall>k\<in>set keys. selector_ok k"
    using k(6) by (simp_all add: sortSelectors_def selector_order.sort_slice_strict)
qed

definition policy_keys :: "Policy \<Rightarrow> Selector set" where
  "policy_keys p =
     (case (selectorKeys (po_Include p), selectorKeys (po_Exclude p)) of
        (Inr inc, Inr exc) \<Rightarrow> set inc \<union> set exc | _ \<Rightarrow> {})"

lemma required_loop_Inr:
  assumes "required_loop i seen ps = Inr sels"
  shows "(\<forall>p\<in>set ps. po_Mode p \<noteq> ''disabled'' \<longrightarrow>
      (\<exists>inc exc. selectorKeys (po_Include p) = Inr inc \<and> selectorKeys (po_Exclude p) = Inr exc)) \<and>
    set sels = set seen \<union> \<Union> (policy_keys ` {p \<in> set ps. po_Mode p \<noteq> ''disabled''})"
  using assms
proof (induction i seen ps rule: required_loop.induct)
  case (2 i seen p rest)
  show ?case
  proof (cases "po_Mode p = ''disabled''")
    case True
    then have "required_loop (Suc i) seen rest = Inr sels" using 2(3) by simp
    from 2(1) [OF True this] True show ?thesis by auto
  next
    case False
    then obtain inc exc where k: "selectorKeys (po_Include p) = Inr inc" "selectorKeys (po_Exclude p) = Inr exc"
        "required_loop (Suc i) (seen @ inc @ exc) rest = Inr sels" using 2(3) by auto
    have "{q \<in> set (p # rest). po_Mode q \<noteq> ''disabled''} = insert p {q \<in> set rest. po_Mode q \<noteq> ''disabled''}"
      using False by auto
    moreover have "policy_keys p = set inc \<union> set exc" using k by (simp add: policy_keys_def)
    ultimately show ?thesis using 2(2) [OF False k(3)] k by auto
  qed
qed simp
section \<open>Properties\<close>

text \<open>
  (C19) \<open>NewSnapshot\<close> keeps one well-formed entry per record, under its canonical selector:
  looking that selector up yields exactly the addresses of the record, in both families, and
  no other selector is present.
\<close>

theorem NewSnapshot_exact:
  assumes "NewSnapshot records = Inr s"
  shows "snapshot_ok s \<and> length (sn_entries s) = length records \<and>
    (\<forall>r\<in>set records. \<exists>sel set'.
        CanonicalSelector (sl_Kind (rs_Selector r)) (sl_Value (rs_Selector r)) = Inr sel \<and>
        snapshot_Lookup s sel = Some set' \<and>
        (\<forall>a. member set' a \<longleftrightarrow> covers (rs_IPv4 r) a \<or> covers (rs_IPv6 r) a))"
proof -
  have l: "list_all2 resolves records (sn_entries s)" "distinct (map fst (sn_entries s))"
    using assms snapshot_loop_Inr [of 0 "[]" records "sn_entries s"] by (auto simp: NewSnapshot_def)
  have e: "\<forall>(sel, set') \<in> set (sn_entries s). selector_ok sel \<and> set_ok set'"
  proof safe
    fix sel set' assume "(sel, set') \<in> set (sn_entries s)"
    then obtain r where "resolves r (sel, set')" using list_all2_right [OF l(1)] by blast
    then show "selector_ok sel" "set_ok set'" using CanonicalSelector_ok by (auto simp: resolves_def)
  qed
  have "\<exists>sel set'. CanonicalSelector (sl_Kind (rs_Selector r)) (sl_Value (rs_Selector r)) = Inr sel \<and>
        snapshot_Lookup s sel = Some set' \<and> (\<forall>a. member set' a \<longleftrightarrow> covers (rs_IPv4 r) a \<or> covers (rs_IPv6 r) a)"
    if "r \<in> set records" for r
  proof -
    from list_all2_left [OF l(1) that] obtain entry where
      entry: "entry \<in> set (sn_entries s)" "resolves r entry" by blast
    then have "snapshot_Lookup s (fst entry) = Some (snd entry)"
      using l(2) by (simp add: snapshot_Lookup_def)
    then show ?thesis using entry(2) by (auto simp: resolves_def)
  qed
  then show ?thesis using e l by (auto simp: snapshot_ok_def list_all2_lengthD)
qed

theorem NewSnapshot_exact_witness:
  "\<exists>s. NewSnapshot [\<lparr>rs_Selector = \<lparr>sl_Kind = IPList, sl_Value = ''a''\<rparr>, rs_IPv4 = [Prefix (IP4 1) 33], rs_IPv6 = []\<rparr>] = Inr s \<and>
    snapshot_ok s \<and> length (sn_entries s) = 1"
proof -
  define r where "r = \<lparr>rs_Selector = \<lparr>sl_Kind = IPList, sl_Value = ''a''\<rparr>, rs_IPv4 = [Prefix (IP4 1) 33], rs_IPv6 = []\<rparr>"
  have "NewSnapshot [r] = Inr \<lparr>sn_entries = [(\<lparr>sl_Kind = IPList, sl_Value = ''a''\<rparr>, fromCanonical [Prefix (IP4 1) 33])]\<rparr>"
    unfolding r_def by code_simp
  from this NewSnapshot_exact [OF this] show ?thesis unfolding r_def by auto
qed





end
