(* ===== verification/Policy_Model.thy ===== *)
theory Policy_Model
  imports Policy_Snapshot
begin

text \<open>
  \<open>internal/policy/model.go\<close>: the compiled, backend-neutral packet policy, and the
  meaning of its rules.

  The string enumerations of the file are datatypes; the empty string that marks an unset
  flow guard is \<open>AnyFlow\<close>, and unset fields of a counter role are \<open>None\<close>. The
  evaluation functions at the end give the documented reading of a rule (a conjunction of
  flow, set and traffic tests) and of a path (the first matching rule decides), as the
  reference evaluator of \<open>evaluate_test.go\<close> does.
\<close>

section \<open>The compiled model\<close>

datatype Family = IPv4 | IPv6

datatype Direction = Ingress | Egress

fun direction_string :: "Direction \<Rightarrow> string" where
  "direction_string Ingress = ''ingress''"
| "direction_string Egress = ''egress''"

datatype RemoteField = SourceAddress | DestinationAddress

datatype Action = Return | Drop | Reject

datatype FlowMatch = AnyFlow | EstablishedRelated | NotNew

datatype SetKind = StaticSet | DynamicCrowdSecSet

record PrefixSet =
  ps_ID :: string
  ps_Kind :: SetKind
  ps_Prefixes :: "prefix list"

record Scope =
  sc_Any :: bool
  sc_TCP :: "PortRange list"
  sc_UDP :: "PortRange list"
  sc_ICMP :: bool

record Match =
  ma_Flow :: FlowMatch
  ma_SetID :: string
  ma_NegateSet :: bool
  ma_Traffic :: Scope

datatype CounterKind = Processed | Denied

datatype DenyReason = GlobalBlocklist | CrowdSec | GeoPolicy

record CounterRole =
  cr_Kind :: "CounterKind option"
  cr_Reason :: "DenyReason option"
  cr_Action :: "Action option"

record Rule =
  ru_Match :: Match
  ru_Action :: Action
  ru_Policy :: string
  ru_Counter :: CounterRole

record Path =
  pa_Direction :: Direction
  pa_Remote :: RemoteField
  pa_Processed :: CounterRole
  pa_Rules :: "Rule list"

record FamilyPlan =
  fp_Family :: Family
  fp_Sets :: "PrefixSet list"
  fp_Paths :: "Path list"

record State =
  st_families :: "FamilyPlan list"

definition state_Empty :: "State \<Rightarrow> bool" where
  "state_Empty s = (length (st_families s) = 0)"

text \<open>
  Cloning a plan copies every nested slice; values are immutable here, so the copy has the
  same value and \<open>Families\<close> returns the plans themselves.
\<close>

definition clone_family :: "FamilyPlan \<Rightarrow> FamilyPlan" where
  "clone_family family =
     family\<lparr>fp_Sets := map (\<lambda>set'. set'\<lparr>ps_Prefixes := ps_Prefixes set'\<rparr>) (fp_Sets family),
       fp_Paths := map (\<lambda>path. path\<lparr>pa_Rules := map (\<lambda>rule.
         rule\<lparr>ru_Match := (ru_Match rule)\<lparr>ma_Traffic := (ma_Traffic (ru_Match rule))
           \<lparr>sc_TCP := sc_TCP (ma_Traffic (ru_Match rule)), sc_UDP := sc_UDP (ma_Traffic (ru_Match rule))\<rparr>\<rparr>\<rparr>)
         (pa_Rules path)\<rparr>) (fp_Paths family)\<rparr>"

definition CloneFamilies :: "FamilyPlan list \<Rightarrow> FamilyPlan list" where
  "CloneFamilies values = map clone_family values"

definition state_Families :: "State \<Rightarrow> FamilyPlan list" where
  "state_Families s = (if length (st_families s) = 0 then [] else CloneFamilies (st_families s))"

definition any_scope :: Scope where
  "any_scope = \<lparr>sc_Any = True, sc_TCP = [], sc_UDP = [], sc_ICMP = False\<rparr>"

definition zero_scope :: Scope where
  "zero_scope = \<lparr>sc_Any = False, sc_TCP = [], sc_UDP = [], sc_ICMP = False\<rparr>"

definition no_counter :: CounterRole where
  "no_counter = \<lparr>cr_Kind = None, cr_Reason = None, cr_Action = None\<rparr>"

definition zero_match :: Match where
  "zero_match = \<lparr>ma_Flow = AnyFlow, ma_SetID = '''', ma_NegateSet = False, ma_Traffic = zero_scope\<rparr>"

section \<open>Evaluation\<close>

text \<open>A packet as the evaluator sees it; \<open>port\<close> is the destination port.\<close>

record Flow =
  fl_Source :: addr
  fl_Destination :: addr
  fl_Protocol :: string
  fl_Port :: "16 word"
  fl_New :: bool
  fl_Established :: bool

definition portInRanges :: "PortRange list \<Rightarrow> 16 word \<Rightarrow> bool" where
  "portInRanges ranges port = (\<exists>r\<in>set ranges. pr_Start r \<le> port \<and> port \<le> pr_End r)"

definition scopeMatches :: "Scope \<Rightarrow> string \<Rightarrow> 16 word \<Rightarrow> bool" where
  "scopeMatches scope protocol port =
     (if sc_Any scope then True
      else if protocol = ''tcp'' then portInRanges (sc_TCP scope) port
      else if protocol = ''udp'' then portInRanges (sc_UDP scope) port
      else if protocol = ''icmp'' then sc_ICMP scope
      else False)"

definition remoteAddress :: "Path \<Rightarrow> Flow \<Rightarrow> addr" where
  "remoteAddress path flow =
     (if pa_Remote path = DestinationAddress then fl_Destination flow else fl_Source flow)"

definition set_member :: "PrefixSet list \<Rightarrow> prefix list \<Rightarrow> string \<Rightarrow> addr \<Rightarrow> bool" where
  "set_member sets dynamic setID remote =
     (case find (\<lambda>s. ps_ID s = setID) sets of
        None \<Rightarrow> False
      | Some s \<Rightarrow> (\<exists>p\<in>set (if ps_Kind s = DynamicCrowdSecSet then dynamic else ps_Prefixes s). prefix_Contains p remote))"

definition ruleMatches :: "FamilyPlan \<Rightarrow> Path \<Rightarrow> Rule \<Rightarrow> Flow \<Rightarrow> prefix list \<Rightarrow> bool" where
  "ruleMatches plan path rule flow dynamic =
     (let match = ru_Match rule;
          in_set = set_member (fp_Sets plan) dynamic (ma_SetID match) (remoteAddress path flow)
      in
      if ma_Flow match = EstablishedRelated \<and> \<not> fl_Established flow then False
      else if ma_Flow match = NotNew \<and> fl_New flow then False
      else if ma_SetID match \<noteq> '''' \<and> \<not> (if ma_NegateSet match then \<not> in_set else in_set) then False
      else scopeMatches (ma_Traffic match) (fl_Protocol flow) (fl_Port flow))"

record Evaluation =
  ev_Action :: Action
  ev_Trace :: string
  ev_Processed :: CounterRole
  ev_Denied :: "CounterRole option"

definition evaluate_path :: "FamilyPlan \<Rightarrow> Path \<Rightarrow> Flow \<Rightarrow> prefix list \<Rightarrow> Evaluation" where
  "evaluate_path plan path flow dynamic =
     (case find (\<lambda>rule. ruleMatches plan path rule flow dynamic) (pa_Rules path) of
        None \<Rightarrow> \<lparr>ev_Action = Return, ev_Trace = '''', ev_Processed = pa_Processed path, ev_Denied = None\<rparr>
      | Some rule \<Rightarrow> \<lparr>ev_Action = ru_Action rule, ev_Trace = ru_Policy rule, ev_Processed = pa_Processed path,
          ev_Denied = (if ru_Action rule \<noteq> Return then Some (ru_Counter rule) else None)\<rparr>)"

definition evaluate :: "FamilyPlan \<Rightarrow> Direction \<Rightarrow> Flow \<Rightarrow> prefix list \<Rightarrow> Evaluation" where
  "evaluate plan direction flow dynamic =
     (case find (\<lambda>path. pa_Direction path = direction) (fp_Paths plan) of
        None \<Rightarrow> \<lparr>ev_Action = Return, ev_Trace = '''', ev_Processed = no_counter, ev_Denied = None\<rparr>
      | Some path \<Rightarrow> evaluate_path plan path flow dynamic)"

lemma CloneFamilies_id [simp]: "CloneFamilies values = values"
  by (simp add: CloneFamilies_def clone_family_def map_idI)

lemma state_Families_id [simp]: "state_Families s = st_families s"
  by (simp add: state_Families_def)

end
