(* ===== verification/Geo_Classifier.thy ===== *)
theory Geo_Classifier
  imports Policy_Model
begin

text \<open>
  \<open>internal/policy/classifier.go\<close>: the compiled-in tables of geo-eligible addresses.
  \<open>None\<close> is the panic of a malformed table; the lemmas show that the tables of the
  program are well formed and what addresses they admit.
\<close>

fun parse_all :: "string list \<Rightarrow> prefix list option" where
  "parse_all [] = Some []"
| "parse_all (value # values) =
     Option.bind (ParsePrefix value) (\<lambda>parsed. map_option ((#) (prefix_Masked parsed)) (parse_all values))"

definition mustPrefixSet :: "string list \<Rightarrow> prefix_set option" where
  "mustPrefixSet values =
     Option.bind (parse_all values) (\<lambda>prefixes.
       case set_New prefixes of Inl _ \<Rightarrow> None | Inr s \<Rightarrow> Some s)"

definition buildGeoEligible :: "string list \<Rightarrow> string list \<Rightarrow> string list \<Rightarrow> prefix_set option" where
  "buildGeoEligible base excluded restored =
     Option.bind (mustPrefixSet base) (\<lambda>baseSet.
     Option.bind (mustPrefixSet excluded) (\<lambda>excludedSet.
     Option.bind (mustPrefixSet restored) (\<lambda>restoredSet.
       Some (set_Union [set_Difference baseSet excludedSet, restoredSet]))))"

definition geoIPv4_base :: "string list" where
  "geoIPv4_base = [''0.0.0.0/0'']"

definition geoIPv4_excluded :: "string list" where
  "geoIPv4_excluded =
     [''0.0.0.0/8'', ''10.0.0.0/8'', ''172.16.0.0/12'', ''192.168.0.0/16'', ''100.64.0.0/10'',
      ''127.0.0.0/8'', ''169.254.0.0/16'', ''192.0.0.0/24'', ''192.0.2.0/24'', ''198.51.100.0/24'',
      ''203.0.113.0/24'', ''192.88.99.0/24'', ''198.18.0.0/15'', ''224.0.0.0/4'', ''240.0.0.0/4'']"

definition geoIPv4_restored :: "string list" where
  "geoIPv4_restored = [''192.0.0.9/32'', ''192.0.0.10/32'']"

definition geoIPv6_base :: "string list" where
  "geoIPv6_base = [''2000::/3'', ''64:ff9b::/96'']"

definition geoIPv6_excluded :: "string list" where
  "geoIPv6_excluded = [''2001::/23'', ''2001:db8::/32'', ''3fff::/20'', ''2002::/16'']"

definition geoIPv6_restored :: "string list" where
  "geoIPv6_restored =
     [''2001:1::1/128'', ''2001:1::2/128'', ''2001:1::3/128'', ''2001:3::/32'', ''2001:4:112::/48'',
      ''2001:20::/28'', ''2001:30::/28'']"

definition geoIPv4 :: "prefix_set option" where
  "geoIPv4 = buildGeoEligible geoIPv4_base geoIPv4_excluded geoIPv4_restored"

definition geoIPv6 :: "prefix_set option" where
  "geoIPv6 = buildGeoEligible geoIPv6_base geoIPv6_excluded geoIPv6_restored"

definition geoEligible :: "Family \<Rightarrow> prefix_set option" where
  "geoEligible family = (case family of IPv4 \<Rightarrow> geoIPv4 | IPv6 \<Rightarrow> geoIPv6)"

text \<open>
  The package variables are built before \<open>main\<close> runs, so a program that runs has them:
  \<open>geo_tables_built\<close> below shows that neither table is \<open>None\<close>.
\<close>

definition GeoEligible :: "Family \<Rightarrow> prefix_set" where
  "GeoEligible family = the (geoEligible family)"

section \<open>The tables are well formed\<close>

fun table_prefixes :: "string list \<Rightarrow> prefix list" where
  "table_prefixes [] = []"
| "table_prefixes (v # vs) = (case ParsePrefix v of None \<Rightarrow> [] | Some p \<Rightarrow> [p]) @ table_prefixes vs"

definition parses :: "string list \<Rightarrow> bool" where
  "parses values = (\<forall>v\<in>set values. ParsePrefix v \<noteq> None)"

lemma parse_all_parses:
  assumes "parses values"
  shows "\<exists>ps. parse_all values = Some ps \<and> (\<forall>p\<in>set ps. pfx_ok p) \<and>
    (\<forall>a. covers ps a \<longleftrightarrow> covers (table_prefixes values) a)"
  using assms
proof (induction "values")
  case (Cons v vs)
  then obtain p ps where p: "ParsePrefix v = Some p" "parse_all vs = Some ps" "\<forall>p\<in>set ps. pfx_ok p"
      "\<forall>a. covers ps a \<longleftrightarrow> covers (table_prefixes vs) a" by (auto simp: parses_def)
  note valid = ParsePrefix_valid [OF p(1)]
  have "prefix_Contains (prefix_Masked p) a = prefix_Contains p a" for a
    using valid by (intro prefix_Contains_Masked) (auto simp: addr_ok_def)
  then show ?case using p ParsePrefix_Masked_ok [OF p(1)] by auto
qed simp

lemma mustPrefixSet_parses:
  assumes "parses values"
  shows "\<exists>s. mustPrefixSet values = Some s \<and> set_ok s \<and> (\<forall>a. member s a \<longleftrightarrow> covers (table_prefixes values) a)"
proof -
  obtain ps where ps: "parse_all values = Some ps" "\<forall>p\<in>set ps. pfx_ok p"
      "\<forall>a. covers ps a \<longleftrightarrow> covers (table_prefixes values) a"
    using parse_all_parses [OF assms] by blast
  have "\<forall>p\<in>set ps. prefix_validate p = None" using ps(2) by (auto simp: prefix_validate_None pfx_ok_iff prefix_IsValid_def)
  then obtain s where s: "set_New ps = Inr s" using set_New_total by blast
  then show ?thesis using ps set_New_ok [OF s] set_New_member [OF s] by (auto simp: mustPrefixSet_def)
qed

lemma buildGeoEligible_parses:
  assumes "parses base" "parses excluded" "parses restored"
  shows "\<exists>s. buildGeoEligible base excluded restored = Some s \<and> set_ok s \<and>
    (\<forall>a. member s a \<longleftrightarrow>
       covers (table_prefixes base) a \<and> \<not> covers (table_prefixes excluded) a \<or> covers (table_prefixes restored) a)"
proof -
  obtain b e r where ber: "mustPrefixSet base = Some b" "mustPrefixSet excluded = Some e" "mustPrefixSet restored = Some r"
      "set_ok b" "set_ok e" "set_ok r" "\<forall>a. member b a \<longleftrightarrow> covers (table_prefixes base) a"
      "\<forall>a. member e a \<longleftrightarrow> covers (table_prefixes excluded) a" "\<forall>a. member r a \<longleftrightarrow> covers (table_prefixes restored) a"
    using assms [THEN mustPrefixSet_parses] by blast
  then show ?thesis
    using prefix_sets.restored_ok [of b e r] prefix_sets.restored_mem [of b e r]
    by (auto simp: buildGeoEligible_def)
qed

lemma tables_parse:
  "parses geoIPv4_base" "parses geoIPv4_excluded" "parses geoIPv4_restored"
  "parses geoIPv6_base" "parses geoIPv6_excluded" "parses geoIPv6_restored"
  by code_simp+

fun geo_base :: "Family \<Rightarrow> string list" where
  "geo_base IPv4 = geoIPv4_base"
| "geo_base IPv6 = geoIPv6_base"

fun geo_excluded :: "Family \<Rightarrow> string list" where
  "geo_excluded IPv4 = geoIPv4_excluded"
| "geo_excluded IPv6 = geoIPv6_excluded"

fun geo_restored :: "Family \<Rightarrow> string list" where
  "geo_restored IPv4 = geoIPv4_restored"
| "geo_restored IPv6 = geoIPv6_restored"

lemma geo_tables_built:
  "\<exists>s. geoEligible f = Some s \<and> set_ok s \<and>
    (\<forall>a. member s a \<longleftrightarrow>
       covers (table_prefixes (geo_base f)) a \<and> \<not> covers (table_prefixes (geo_excluded f)) a \<or>
       covers (table_prefixes (geo_restored f)) a)"
  using buildGeoEligible_parses [OF tables_parse(1-3)] buildGeoEligible_parses [OF tables_parse(4-6)]
  by (cases f) (simp_all add: geoEligible_def geoIPv4_def geoIPv6_def)

lemma GeoEligible_ok [simp]: "set_ok (GeoEligible f)"
  using geo_tables_built [of f] by (auto simp: GeoEligible_def)

section \<open>Properties\<close>

text \<open>
  (C18) The classifier tables never panic, and an address is geo-eligible exactly when it lies
  in a restored prefix, or in a base prefix and in no excluded one, for the tables of its
  family.
\<close>

theorem geoEligible_exact:
  "\<exists>s. geoEligible f = Some s \<and> GeoEligible f = s \<and> set_ok s \<and>
    (\<forall>a. set_Contains s a \<longleftrightarrow>
       covers (table_prefixes (geo_base f)) a \<and> \<not> covers (table_prefixes (geo_excluded f)) a \<or>
       covers (table_prefixes (geo_restored f)) a)"
  using geo_tables_built [of f] set_Contains_member by (auto simp: GeoEligible_def)

end
