(* ===== verification/Geo_Sets.thy ===== *)
theory Geo_Sets
  imports Geo_Classifier
begin

text \<open>
  \<open>internal/policy/geo_sets.go\<close>: policies of one family whose effective prefixes are equal
  share one compiled set.

  The SHA-256 of the canonical byte stream only selects candidates; the definitions take the
  digest function as an argument, and the lemmas hold for every digest function, colliding
  ones included.
\<close>

section \<open>Fingerprints\<close>

text \<open>\<open>binary.PutUvarint\<close> and \<open>binary.PutVarint\<close>.\<close>

function put_uvarint :: "64 word \<Rightarrow> 8 word list" where
  "put_uvarint x = (if 0x80 \<le> x then (ucast x OR 0x80) # put_uvarint (drop_bit 7 x) else [ucast x])"
  by pat_completeness auto
termination
proof (relation "measure unat", goal_cases)
  case (2 x)
  then have "unat (0x80 :: 64 word) \<le> unat x" by (simp only: word_le_nat_alt)
  then have "unat x div 128 < unat x" by simp
  then have "drop_bit 7 (unat x) < unat x" by (simp add: drop_bit_eq_div)
  then show ?case by (simp only: in_measure unat_drop_bit_eq)
qed simp

declare put_uvarint.simps [simp del]

definition put_varint :: "int \<Rightarrow> 8 word list" where
  "put_varint x =
     (let ux = push_bit 1 (word_of_int x) in put_uvarint (if x < 0 then NOT ux else ux))"

fun family_byte :: "Family \<Rightarrow> 8 word" where
  "family_byte IPv4 = 4"
| "family_byte IPv6 = 6"

definition geoFingerprint :: "(8 word list \<Rightarrow> 'd) \<Rightarrow> Family \<Rightarrow> prefix_set \<Rightarrow> 'd" where
  "geoFingerprint digest family sequence =
     digest ([family_byte family] @ put_varint (int (set_Len sequence)) @
       concat (map (\<lambda>value. As16 (pAddr value) @ put_varint (prefix_Bits value)) (set_Prefixes sequence)))"

section \<open>Interning\<close>

record compiledPolicy =
  cp_policy :: Policy
  cp_included :: prefix_set

definition includedFamily :: "compiledPolicy \<Rightarrow> Family \<Rightarrow> prefix_set" where
  "includedFamily p family =
     (if family = IPv4 then set_IPv4 (cp_included p) else set_IPv6 (cp_included p))"

record 'd geoSetInterner =
  gi_sets :: "PrefixSet list"
  gi_buckets :: "'d \<Rightarrow> nat list"
  gi_policies :: "string \<rightharpoonup> nat"

fun equal_from :: "prefix list \<Rightarrow> prefix list \<Rightarrow> nat \<Rightarrow> bool" where
  "equal_from [] values' i = True"
| "equal_from (value # rest) values' i =
     (if value \<noteq> values' ! i then False else equal_from rest values' (Suc i))"

definition equalGeoSequence :: "prefix_set \<Rightarrow> prefix list \<Rightarrow> bool" where
  "equalGeoSequence sequence values' =
     (if set_Len sequence \<noteq> length values' then False else equal_from (set_Prefixes sequence) values' 0)"

definition intern :: "'d geoSetInterner \<Rightarrow> string \<Rightarrow> prefix_set \<Rightarrow> 'd \<Rightarrow> 'd geoSetInterner" where
  "intern interner name sequence fingerprint =
     (let id' = ''geo/'' @ name in
      case find (\<lambda>index. equalGeoSequence sequence (ps_Prefixes (gi_sets interner ! index)))
             (gi_buckets interner fingerprint) of
        Some index \<Rightarrow>
          interner\<lparr>gi_sets := (if id' < ps_ID (gi_sets interner ! index)
                             then (gi_sets interner)[index := (gi_sets interner ! index)\<lparr>ps_ID := id'\<rparr>]
                             else gi_sets interner),
                   gi_policies := (gi_policies interner)(name \<mapsto> index)\<rparr>
      | None \<Rightarrow>
          (let index = length (gi_sets interner) in
           interner\<lparr>gi_sets := gi_sets interner @
                      [\<lparr>ps_ID = id', ps_Kind = StaticSet, ps_Prefixes = set_Prefixes sequence\<rparr>],
                    gi_buckets := (gi_buckets interner)(fingerprint := gi_buckets interner fingerprint @ [index]),
                    gi_policies := (gi_policies interner)(name \<mapsto> index)\<rparr>))"

definition empty_interner :: "'d geoSetInterner" where
  "empty_interner = \<lparr>gi_sets = [], gi_buckets = (\<lambda>_. []), gi_policies = Map.empty\<rparr>"

definition intern_all :: "(8 word list \<Rightarrow> 'd) \<Rightarrow> Family \<Rightarrow> compiledPolicy list \<Rightarrow> 'd geoSetInterner" where
  "intern_all digest family policies =
     fold (\<lambda>value interner.
         intern interner (po_Name (cp_policy value)) (includedFamily value family)
           (geoFingerprint digest family (includedFamily value family)))
       policies empty_interner"

definition compileGeoSets ::
  "(8 word list \<Rightarrow> 'd) \<Rightarrow> Family \<Rightarrow> compiledPolicy list \<Rightarrow> PrefixSet list \<times> (string \<rightharpoonup> string)" where
  "compileGeoSets digest family policies =
     (let interner = intern_all digest family policies in
      (sort_slice (\<lambda>a b. ps_ID a < ps_ID b) (gi_sets interner),
       \<lambda>name. map_option (\<lambda>index. ps_ID (gi_sets interner ! index)) (gi_policies interner name)))"

section \<open>The interner keeps one set per sequence\<close>

lemma equal_from_iff: "length vs = i + length rest \<Longrightarrow> equal_from rest vs i \<longleftrightarrow> drop i vs = rest"
proof (induction rest vs i rule: equal_from.induct)
  case (2 v rest vs i)
  then have "drop i vs = vs ! i # drop (Suc i) vs" by (simp add: Cons_nth_drop_Suc)
  then show ?case using 2 by auto
qed simp

lemma equalGeoSequence_iff: "equalGeoSequence sequence vs \<longleftrightarrow> vs = set_Prefixes sequence"
  using equal_from_iff [of vs 0 "set_Prefixes sequence"]
  by (auto simp: equalGeoSequence_def set_Len_def set_Prefixes_def)

text \<open>
  The invariant of the loop, for the policies handled so far: their names lead to a set with
  their prefixes, every set is named after one of its policies, distinct sets have distinct
  prefixes, and a set is in the bucket of its fingerprint.
\<close>

definition policy_bound :: "Family \<Rightarrow> 'd geoSetInterner \<Rightarrow> compiledPolicy \<Rightarrow> bool" where
  "policy_bound family gi p =
     (\<exists>i. gi_policies gi (po_Name (cp_policy p)) = Some i \<and> i < length (gi_sets gi) \<and>
        ps_Prefixes (gi_sets gi ! i) = set_Prefixes (includedFamily p family))"

definition named_after :: "'d geoSetInterner \<Rightarrow> nat \<Rightarrow> compiledPolicy \<Rightarrow> bool" where
  "named_after gi i p =
     (ps_ID (gi_sets gi ! i) = ''geo/'' @ po_Name (cp_policy p) \<and> gi_policies gi (po_Name (cp_policy p)) = Some i)"

definition filed_under ::
  "(8 word list \<Rightarrow> 'd) \<Rightarrow> Family \<Rightarrow> 'd geoSetInterner \<Rightarrow> nat \<Rightarrow> compiledPolicy \<Rightarrow> bool" where
  "filed_under digest family gi i p =
     (ps_Prefixes (gi_sets gi ! i) = set_Prefixes (includedFamily p family) \<and>
      i \<in> set (gi_buckets gi (geoFingerprint digest family (includedFamily p family))))"

definition interner_ok ::
  "(8 word list \<Rightarrow> 'd) \<Rightarrow> Family \<Rightarrow> compiledPolicy list \<Rightarrow> 'd geoSetInterner \<Rightarrow> bool" where
  "interner_ok digest family done' gi =
     ((\<forall>p\<in>set done'. policy_bound family gi p) \<and>
      (\<forall>i<length (gi_sets gi). ps_Kind (gi_sets gi ! i) = StaticSet \<and>
          (\<exists>p\<in>set done'. named_after gi i p) \<and> (\<exists>p\<in>set done'. filed_under digest family gi i p)) \<and>
      (\<forall>d. \<forall>i\<in>set (gi_buckets gi d). i < length (gi_sets gi)) \<and>
      distinct (map ps_Prefixes (gi_sets gi)))"

lemma interner_okD:
  assumes "interner_ok digest f ps gi"
  shows "p \<in> set ps \<Longrightarrow> policy_bound f gi p"
    and "i < length (gi_sets gi) \<Longrightarrow> ps_Kind (gi_sets gi ! i) = StaticSet"
    and "i < length (gi_sets gi) \<Longrightarrow> \<exists>p\<in>set ps. named_after gi i p"
    and "i < length (gi_sets gi) \<Longrightarrow> \<exists>p\<in>set ps. filed_under digest f gi i p"
    and "i \<in> set (gi_buckets gi d) \<Longrightarrow> i < length (gi_sets gi)"
    and "distinct (map ps_Prefixes (gi_sets gi))"
  using assms unfolding interner_ok_def by blast+

lemma geoFingerprint_cong:
  "set_Prefixes s = set_Prefixes t \<Longrightarrow> geoFingerprint digest f s = geoFingerprint digest f t"
  by (simp add: geoFingerprint_def set_Len_def set_Prefixes_def)

lemma intern_new:
  assumes ok: "interner_ok digest f ps gi"
    and names: "\<And>q. q \<in> set ps \<Longrightarrow> po_Name (cp_policy q) \<noteq> po_Name (cp_policy p)"
    and fp: "fp = geoFingerprint digest f (includedFamily p f)"
    and none: "find (\<lambda>i. equalGeoSequence (includedFamily p f) (ps_Prefixes (gi_sets gi ! i))) (gi_buckets gi fp) = None"
  shows "interner_ok digest f (ps @ [p]) (intern gi (po_Name (cp_policy p)) (includedFamily p f) fp)"
proof -
  define n where "n = length (gi_sets gi)"
  define gi' where "gi' = intern gi (po_Name (cp_policy p)) (includedFamily p f) fp"
  have gi': "gi_sets gi' = gi_sets gi @ [\<lparr>ps_ID = ''geo/'' @ po_Name (cp_policy p), ps_Kind = StaticSet,
        ps_Prefixes = set_Prefixes (includedFamily p f)\<rparr>]"
      "gi_buckets gi' = (gi_buckets gi)(fp := gi_buckets gi fp @ [n])"
      "gi_policies gi' = (gi_policies gi)(po_Name (cp_policy p) \<mapsto> n)"
    using none by (simp_all add: gi'_def intern_def n_def Let_def)
  note okD = interner_okD [OF ok]
  have old: "gi_sets gi' ! i = gi_sets gi ! i" if "i < n" for i
    using that by (simp add: gi' n_def nth_append)
  have new: "gi_sets gi' ! n = \<lparr>ps_ID = ''geo/'' @ po_Name (cp_policy p), ps_Kind = StaticSet,
        ps_Prefixes = set_Prefixes (includedFamily p f)\<rparr>" by (simp add: gi' n_def)
  have len: "length (gi_sets gi') = Suc n" by (simp add: gi' n_def)
  have bound: "policy_bound f gi' q" if "q \<in> set ps" for q
    using okD(1) [OF that] names [OF that] old by (auto simp: policy_bound_def gi'(3) len n_def [symmetric] intro: less_SucI)
  have "policy_bound f gi' p" by (simp add: policy_bound_def gi'(3) len new)
  then have policies: "\<forall>q\<in>set (ps @ [p]). policy_bound f gi' q" using bound by simp
  have sets: "ps_Kind (gi_sets gi' ! i) = StaticSet \<and> (\<exists>q\<in>set (ps @ [p]). named_after gi' i q) \<and>
      (\<exists>q\<in>set (ps @ [p]). filed_under digest f gi' i q)" if "i < length (gi_sets gi')" for i
  proof (cases "i = n")
    case True
    then show ?thesis by (simp add: new named_after_def filed_under_def gi'(2,3) fp)
  next
    case False
    then have i: "i < length (gi_sets gi)" "i < n" using that len by (simp_all add: n_def)
    obtain q r where q: "q \<in> set ps" "named_after gi i q" "r \<in> set ps" "filed_under digest f gi i r"
      using okD(3,4) [OF i(1)] by blast
    have "named_after gi' i q" using q names [OF q(1)] old [OF i(2)] by (simp add: named_after_def gi'(3))
    moreover have "filed_under digest f gi' i r" using q old [OF i(2)] by (auto simp: filed_under_def gi'(2))
    ultimately show ?thesis using okD(2) [OF i(1)] old [OF i(2)] q(1,3) by auto
  qed
  have "set_Prefixes (includedFamily p f) \<notin> set (map ps_Prefixes (gi_sets gi))"
  proof
    assume "set_Prefixes (includedFamily p f) \<in> set (map ps_Prefixes (gi_sets gi))"
    then obtain i where i: "i < length (gi_sets gi)" "ps_Prefixes (gi_sets gi ! i) = set_Prefixes (includedFamily p f)"
      by (auto simp: in_set_conv_nth)
    obtain r where r: "filed_under digest f gi i r" using okD(4) [OF i(1)] by blast
    then have "geoFingerprint digest f (includedFamily r f) = fp"
      using i(2) unfolding fp by (intro geoFingerprint_cong) (simp add: filed_under_def)
    then have "i \<in> set (gi_buckets gi fp)" using r by (simp add: filed_under_def)
    then show False using none i(2) by (auto simp: find_None_iff equalGeoSequence_iff)
  qed
  then have "distinct (map ps_Prefixes (gi_sets gi'))" using okD(6) by (simp add: gi'(1))
  moreover have "\<forall>d. \<forall>i\<in>set (gi_buckets gi' d). i < length (gi_sets gi')"
    using okD(5) by (auto simp: gi'(2) len n_def less_Suc_eq)
  ultimately show ?thesis unfolding interner_ok_def gi'_def [symmetric] using policies sets by blast
qed

lemma intern_found:
  assumes ok: "interner_ok digest f ps gi"
    and names: "\<And>q. q \<in> set ps \<Longrightarrow> po_Name (cp_policy q) \<noteq> po_Name (cp_policy p)"
    and some: "find (\<lambda>i. equalGeoSequence (includedFamily p f) (ps_Prefixes (gi_sets gi ! i))) (gi_buckets gi fp) = Some j"
  shows "interner_ok digest f (ps @ [p]) (intern gi (po_Name (cp_policy p)) (includedFamily p f) fp)"
proof -
  define gi' where "gi' = intern gi (po_Name (cp_policy p)) (includedFamily p f) fp"
  define ident where "ident = ''geo/'' @ po_Name (cp_policy p)"
  note okD = interner_okD [OF ok]
  have "j \<in> set (gi_buckets gi fp)" "equalGeoSequence (includedFamily p f) (ps_Prefixes (gi_sets gi ! j))"
    using some by (auto simp: find_Some_iff)
  then have j: "j < length (gi_sets gi)" "ps_Prefixes (gi_sets gi ! j) = set_Prefixes (includedFamily p f)"
    using okD(5) by (auto simp: equalGeoSequence_iff)
  have gi': "gi_sets gi' = (if ident < ps_ID (gi_sets gi ! j)
        then (gi_sets gi)[j := (gi_sets gi ! j)\<lparr>ps_ID := ident\<rparr>] else gi_sets gi)"
      "gi_buckets gi' = gi_buckets gi" "gi_policies gi' = (gi_policies gi)(po_Name (cp_policy p) \<mapsto> j)"
    using some by (simp_all add: gi'_def intern_def ident_def Let_def)
  have len: "length (gi_sets gi') = length (gi_sets gi)" by (simp add: gi'(1))
  have same: "ps_Prefixes (gi_sets gi' ! i) = ps_Prefixes (gi_sets gi ! i)"
      "ps_Kind (gi_sets gi' ! i) = ps_Kind (gi_sets gi ! i)" for i
    using j(1) by (cases "i = j"; simp add: gi'(1))+
  have ident: "ps_ID (gi_sets gi' ! i) = ps_ID (gi_sets gi ! i) \<or> i = j \<and> ps_ID (gi_sets gi' ! i) = ident" for i
    using j(1) by (cases "i = j") (simp_all add: gi'(1))
  have bound: "policy_bound f gi' q" if "q \<in> set ps" for q
    using okD(1) [OF that] names [OF that] by (simp add: policy_bound_def gi'(3) len same)
  have "policy_bound f gi' p" using j by (simp add: policy_bound_def gi'(3) len same)
  then have policies: "\<forall>q\<in>set (ps @ [p]). policy_bound f gi' q" using bound by simp
  have sets: "ps_Kind (gi_sets gi' ! i) = StaticSet \<and> (\<exists>q\<in>set (ps @ [p]). named_after gi' i q) \<and>
      (\<exists>q\<in>set (ps @ [p]). filed_under digest f gi' i q)" if "i < length (gi_sets gi')" for i
  proof -
    have i: "i < length (gi_sets gi)" using that len by simp
    obtain q r where q: "q \<in> set ps" "named_after gi i q" "r \<in> set ps" "filed_under digest f gi i r"
      using okD(3,4) [OF i] by blast
    have "named_after gi' i q \<or> named_after gi' i p"
      using q names [OF q(1)] ident [of i] by (auto simp: named_after_def gi'(3) ident_def)
    moreover have "filed_under digest f gi' i r" using q by (simp add: filed_under_def gi'(2) same)
    ultimately show ?thesis using okD(2) [OF i] same(2) [of i] q(1,3) by auto
  qed
  have "map ps_Prefixes (gi_sets gi') = map ps_Prefixes (gi_sets gi)"
    by (rule nth_equalityI) (simp_all add: len same)
  then have "distinct (map ps_Prefixes (gi_sets gi'))" using okD(6) by simp
  moreover have "\<forall>d. \<forall>i\<in>set (gi_buckets gi' d). i < length (gi_sets gi')"
    using okD(5) by (simp add: gi'(2) len)
  ultimately show ?thesis unfolding interner_ok_def gi'_def [symmetric] using policies sets by blast
qed

lemma intern_all_ok:
  assumes "distinct (map (\<lambda>p. po_Name (cp_policy p)) ps)"
  shows "interner_ok digest f ps (intern_all digest f ps)"
  using assms
proof (induction ps rule: rev_induct)
  case Nil
  then show ?case by (simp add: interner_ok_def intern_all_def empty_interner_def)
next
  case (snoc p ps)
  then have ok: "interner_ok digest f ps (intern_all digest f ps)" by simp
  have new: "po_Name (cp_policy q) \<noteq> po_Name (cp_policy p)" if "q \<in> set ps" for q
  proof
    assume "po_Name (cp_policy q) = po_Name (cp_policy p)"
    then have "po_Name (cp_policy p) \<in> (\<lambda>p. po_Name (cp_policy p)) ` set ps" using that by (metis imageI)
    then show False using snoc.prems by simp
  qed
  show ?case
    using intern_new [OF ok new refl] intern_found [OF ok new]
    by (cases "find (\<lambda>i. equalGeoSequence (includedFamily p f) (ps_Prefixes (gi_sets (intern_all digest f ps) ! i)))
          (gi_buckets (intern_all digest f ps) (geoFingerprint digest f (includedFamily p f)))")
      (auto simp: intern_all_def)
qed
lemma compileGeoSets_ok:
  assumes names: "distinct (map (\<lambda>p. po_Name (cp_policy p)) ps)"
    and result: "compileGeoSets digest f ps = (sets, bindings)"
  shows "distinct (map ps_ID sets)" and "distinct (map ps_Prefixes sets)"
    and "\<And>s. s \<in> set sets \<Longrightarrow> ps_Kind s = StaticSet \<and> (\<exists>p\<in>set ps. ps_ID s = ''geo/'' @ po_Name (cp_policy p))"
    and "\<And>p. p \<in> set ps \<Longrightarrow> \<exists>s\<in>set sets. bindings (po_Name (cp_policy p)) = Some (ps_ID s) \<and>
        ps_Prefixes s = set_Prefixes (includedFamily p f)"
proof -
  define gi where "gi = intern_all digest f ps"
  note okD = interner_okD [OF intern_all_ok [OF names, of digest f], folded gi_def]
  have sets: "mset sets = mset (gi_sets gi)" "set sets = set (gi_sets gi)"
    and bindings: "bindings = (\<lambda>name. map_option (\<lambda>i. ps_ID (gi_sets gi ! i)) (gi_policies gi name))"
    using result by (auto simp: compileGeoSets_def gi_def Let_def)
  have "inj_on (\<lambda>i. ps_ID (gi_sets gi ! i)) {..<length (gi_sets gi)}"
  proof (rule inj_onI)
    fix i j assume ij: "i \<in> {..<length (gi_sets gi)}" "j \<in> {..<length (gi_sets gi)}"
      "ps_ID (gi_sets gi ! i) = ps_ID (gi_sets gi ! j)"
    then obtain p q where "named_after gi i p" "named_after gi j q" using okD(3) by (meson lessThan_iff)
    then have "gi_policies gi (po_Name (cp_policy p)) = Some i" "gi_policies gi (po_Name (cp_policy p)) = Some j"
      using ij(3) by (auto simp: named_after_def)
    then show "i = j" by simp
  qed
  then have "distinct (map (\<lambda>i. ps_ID (gi_sets gi ! i)) [0..<length (gi_sets gi)])"
    by (simp add: distinct_map atLeast0LessThan)
  also have "map (\<lambda>i. ps_ID (gi_sets gi ! i)) [0..<length (gi_sets gi)] = map ps_ID (gi_sets gi)"
    by (rule nth_equalityI) simp_all
  finally show "distinct (map ps_ID sets)" using sets(1) by (metis mset_eq_imp_distinct_iff mset_map)
  show "distinct (map ps_Prefixes sets)" using okD(6) sets(1) by (metis mset_eq_imp_distinct_iff mset_map)
  show "ps_Kind s = StaticSet \<and> (\<exists>p\<in>set ps. ps_ID s = ''geo/'' @ po_Name (cp_policy p))" if s: "s \<in> set sets" for s
  proof -
    obtain i where "i < length (gi_sets gi)" "s = gi_sets gi ! i" using s sets(2) by (auto simp: in_set_conv_nth)
    then show ?thesis using okD(2,3) by (auto simp: named_after_def)
  qed
  show "\<exists>s\<in>set sets. bindings (po_Name (cp_policy p)) = Some (ps_ID s) \<and>
        ps_Prefixes s = set_Prefixes (includedFamily p f)" if p: "p \<in> set ps" for p
    using okD(1) [OF p] nth_mem sets(2) by (fastforce simp: policy_bound_def bindings)
qed

lemma compileGeoSets_prefixes:
  assumes "distinct (map (\<lambda>p. po_Name (cp_policy p)) ps)" "compileGeoSets digest f ps = (sets, bindings)" "s \<in> set sets"
  shows "\<exists>p\<in>set ps. ps_Prefixes s = set_Prefixes (includedFamily p f)"
proof -
  have "set sets = set (gi_sets (intern_all digest f ps))" using assms(2) by (auto simp: compileGeoSets_def Let_def)
  then obtain i where "i < length (gi_sets (intern_all digest f ps))" "s = gi_sets (intern_all digest f ps) ! i"
    using assms(3) by (auto simp: in_set_conv_nth)
  then show ?thesis using interner_okD(4) [OF intern_all_ok [OF assms(1), of digest f]] by (auto simp: filed_under_def)
qed

lemma find_by_ID:
  assumes "distinct (map ps_ID sets)" "s \<in> set sets"
  shows "find (\<lambda>t. ps_ID t = ps_ID s) sets = Some s"
  using assms by (induction sets) force+

section \<open>Properties\<close>

text \<open>
  (C17) Sharing is exact for every digest function: each policy is bound to a compiled set with
  exactly its prefixes in this family, two policies are bound to the same set exactly when
  their prefixes agree, and set identifiers are unique.
\<close>

theorem compileGeoSets_sharing:
  assumes "distinct (map (\<lambda>p. po_Name (cp_policy p)) ps)" "compileGeoSets digest f ps = (sets, bindings)"
  shows "distinct (map ps_ID sets) \<and>
    (\<forall>p\<in>set ps. \<exists>s\<in>set sets. bindings (po_Name (cp_policy p)) = Some (ps_ID s) \<and>
        ps_Prefixes s = set_Prefixes (includedFamily p f)) \<and>
    (\<forall>p\<in>set ps. \<forall>q\<in>set ps. bindings (po_Name (cp_policy p)) = bindings (po_Name (cp_policy q)) \<longleftrightarrow>
        set_Prefixes (includedFamily p f) = set_Prefixes (includedFamily q f))"
proof -
  note ok = compileGeoSets_ok [OF assms]
  have "bindings (po_Name (cp_policy p)) = bindings (po_Name (cp_policy q)) \<longleftrightarrow>
        set_Prefixes (includedFamily p f) = set_Prefixes (includedFamily q f)"
    if pq: "p \<in> set ps" "q \<in> set ps" for p q
  proof -
    from ok(4) [OF pq(1)] ok(4) [OF pq(2)] obtain s t where st: "s \<in> set sets" "t \<in> set sets"
      "bindings (po_Name (cp_policy p)) = Some (ps_ID s)" "ps_Prefixes s = set_Prefixes (includedFamily p f)"
      "bindings (po_Name (cp_policy q)) = Some (ps_ID t)" "ps_Prefixes t = set_Prefixes (includedFamily q f)"
      by blast
    have "ps_ID s = ps_ID t \<longleftrightarrow> s = t" "ps_Prefixes s = ps_Prefixes t \<longleftrightarrow> s = t"
      using ok(1,2) st(1,2) by (meson distinct_map inj_onD)+
    then show ?thesis using st by auto
  qed
  then show ?thesis using ok(1,4) by blast
qed

theorem compileGeoSets_sharing_witness:
  "let s = fromCanonical [Prefix (IP4 8) 31];
       p = \<lparr>cp_policy = zero_policy\<lparr>po_Name := ''b''\<rparr>, cp_included = s\<rparr>;
       q = \<lparr>cp_policy = zero_policy\<lparr>po_Name := ''a''\<rparr>, cp_included = s\<rparr>;
       r = compileGeoSets (\<lambda>bytes. length bytes) IPv4 [p, q]
   in fst r = [\<lparr>ps_ID = ''geo/a'', ps_Kind = StaticSet, ps_Prefixes = [Prefix (IP4 8) 31]\<rparr>] \<and>
      snd r ''a'' = snd r ''b''"
proof -
  define s where "s = fromCanonical [Prefix (IP4 8) 31]"
  define p where "p = \<lparr>cp_policy = zero_policy\<lparr>po_Name := ''b''\<rparr>, cp_included = s\<rparr>"
  define q where "q = \<lparr>cp_policy = zero_policy\<lparr>po_Name := ''a''\<rparr>, cp_included = s\<rparr>"
  define r where "r = compileGeoSets (\<lambda>bytes. length bytes) IPv4 [p, q]"
  have 1: "fst r = [\<lparr>ps_ID = ''geo/a'', ps_Kind = StaticSet, ps_Prefixes = [Prefix (IP4 8) 31]\<rparr>]"
    unfolding r_def p_def q_def s_def by code_simp
  have d: "distinct (map (\<lambda>p. po_Name (cp_policy p)) [p, q])" by (simp add: p_def q_def)
  have c: "compileGeoSets (\<lambda>bytes. length bytes) IPv4 [p, q] = (fst r, snd r)" by (simp add: r_def)
  have "set_Prefixes (includedFamily p IPv4) = set_Prefixes (includedFamily q IPv4)"
    by (simp add: includedFamily_def p_def q_def)
  moreover have "p \<in> set [p, q]" "q \<in> set [p, q]" by simp_all
  ultimately have "snd r (po_Name (cp_policy p)) = snd r (po_Name (cp_policy q))"
    using compileGeoSets_sharing [OF d c] by blast
  moreover have "po_Name (cp_policy p) = ''b''" "po_Name (cp_policy q) = ''a''" by (simp_all add: p_def q_def)
  ultimately have "snd r ''a'' = snd r ''b''" by simp
  with 1 have "fst r = [\<lparr>ps_ID = ''geo/a'', ps_Kind = StaticSet, ps_Prefixes = [Prefix (IP4 8) 31]\<rparr>] \<and>
    snd r ''a'' = snd r ''b''" by blast
  then show ?thesis unfolding Let_def r_def p_def q_def s_def .
qed

end
