(* ===== verification/Policy_Compile.thy ===== *)
theory Policy_Compile
  imports Geo_Sets
begin

text \<open>
  \<open>internal/policy/compile.go\<close>: the compiler from a normalized configuration and a
  snapshot of resolved selectors to packet paths.

  Every function of the file has a definition of the same name. The main theorem relates the
  rule lists it emits to \<open>decide\<close>, a direct reading of the configuration: flow guards, then
  the global lists, then CrowdSec, then geo eligibility, then the applicable policy of least
  priority.
\<close>

section \<open>Policies and selector sets\<close>

datatype compile_error =
    Unsupported_deny_action string
  | Global_allowlist nat validate_error
  | Global_blocklist nat validate_error
  | Duplicate_name string
  | Unsupported_direction string string
  | Duplicate_priority string string int string
  | Unsupported_mode string string
  | Policy_keys string side keys_error
  | Missing_selector string side Selector
  | Empty_selector_set string
  | No_enabled_family

definition denyAction :: "string \<Rightarrow> compile_error + Action" where
  "denyAction value =
     (if value = ''drop'' then Inr Drop
      else if value = ''reject'' then Inr Reject
      else Inl (Unsupported_deny_action value))"

definition policy_order :: "Policy \<Rightarrow> Policy \<Rightarrow> bool" where
  "policy_order p q =
     (if po_Direction p \<noteq> po_Direction q then po_Direction p < po_Direction q
      else if po_Priority p \<noteq> po_Priority q then po_Priority p < po_Priority q
      else po_Name p < po_Name q)"

definition snapshotUnion :: "string \<Rightarrow> side \<Rightarrow> Selector list \<Rightarrow> Snapshot \<Rightarrow> compile_error + prefix_set" where
  "snapshotUnion policy category selectors snapshot =
     result_bind (map_result (\<lambda>selector.
         case snapshot_Lookup snapshot selector of
           None \<Rightarrow> Inl (Missing_selector policy category selector)
         | Some s \<Rightarrow> Inr s) selectors)
       (\<lambda>sets. Inr (set_Union sets))"

definition effective_set :: "Snapshot \<Rightarrow> Policy \<Rightarrow> compile_error + prefix_set" where
  "effective_set snapshot value =
     result_bind (wrap_error (Policy_keys (po_Name value) Include) (selectorKeys (po_Include value))) (\<lambda>includeKeys.
     result_bind (wrap_error (Policy_keys (po_Name value) Exclude) (selectorKeys (po_Exclude value))) (\<lambda>excludeKeys.
     result_bind (snapshotUnion (po_Name value) Include includeKeys snapshot) (\<lambda>include.
     result_bind (snapshotUnion (po_Name value) Exclude excludeKeys snapshot) (\<lambda>exclude.
       let effective = set_Difference include exclude in
       if set_Len effective = 0 then Inl (Empty_selector_set (po_Name value)) else Inr effective))))"

text \<open>The loop over the sorted policies, with the names and the priorities seen so far.\<close>

fun compile_loop ::
  "Snapshot \<Rightarrow> string list \<Rightarrow> ((string \<times> int) \<times> string) list \<Rightarrow> compiledPolicy list \<Rightarrow> Policy list \<Rightarrow>
   compile_error + compiledPolicy list" where
  "compile_loop snapshot seenNames priorities compiled [] = Inr compiled"
| "compile_loop snapshot seenNames priorities compiled (value # rest) =
     (if po_Name value \<in> set seenNames then Inl (Duplicate_name (po_Name value))
      else if po_Direction value \<noteq> direction_string Ingress \<and> po_Direction value \<noteq> direction_string Egress
      then Inl (Unsupported_direction (po_Name value) (po_Direction value))
      else case map_of priorities (po_Direction value, po_Priority value) of
        Some other \<Rightarrow> Inl (Duplicate_priority other (po_Name value) (po_Priority value) (po_Direction value))
      | None \<Rightarrow>
          (let seenNames = po_Name value # seenNames;
               priorities = ((po_Direction value, po_Priority value), po_Name value) # priorities
           in
           if po_Mode value = ''disabled'' then compile_loop snapshot seenNames priorities compiled rest
           else if po_Mode value \<noteq> ''allowlist'' \<and> po_Mode value \<noteq> ''blocklist''
           then Inl (Unsupported_mode (po_Name value) (po_Mode value))
           else result_bind (effective_set snapshot value) (\<lambda>effective.
             compile_loop snapshot seenNames priorities
               (compiled @ [\<lparr>cp_policy = value, cp_included = effective\<rparr>]) rest)))"

definition compilePolicies :: "Policy list \<Rightarrow> Snapshot \<Rightarrow> compile_error + compiledPolicy list" where
  "compilePolicies values' snapshot = compile_loop snapshot [] [] [] (sort_slice policy_order values')"

section \<open>Traffic scopes\<close>

definition policyApplies :: "TrafficScope \<Rightarrow> Family \<Rightarrow> bool" where
  "policyApplies traffic family =
     (if ts_Any traffic \<or> length (ts_TCP traffic) \<noteq> 0 \<or> length (ts_UDP traffic) \<noteq> 0 then True
      else if family = IPv4 then ts_ICMP traffic
      else ts_ICMPv6 traffic)"

definition trafficRanges :: "PortRange list \<Rightarrow> PortRange list" where
  "trafficRanges values' = map (\<lambda>v. \<lparr>pr_Start = pr_Start v, pr_End = pr_End v\<rparr>) values'"

definition policyScope :: "TrafficScope \<Rightarrow> Family \<Rightarrow> Scope option" where
  "policyScope traffic family =
     (if \<not> policyApplies traffic family then None
      else if ts_Any traffic then Some any_scope
      else
        let scope = \<lparr>sc_Any = False, sc_TCP = trafficRanges (ts_TCP traffic), sc_UDP = trafficRanges (ts_UDP traffic),
              sc_ICMP = (if family = IPv4 then ts_ICMP traffic else ts_ICMPv6 traffic)\<rparr>
        in if length (sc_TCP scope) = 0 \<and> length (sc_UDP scope) = 0 \<and> \<not> sc_ICMP scope then None else Some scope)"

section \<open>Paths and family plans\<close>

definition return_rule :: "Match \<Rightarrow> string \<Rightarrow> Rule" where
  "return_rule match policy = \<lparr>ru_Match = match, ru_Action = Return, ru_Policy = policy, ru_Counter = no_counter\<rparr>"

definition deny_rule :: "Match \<Rightarrow> Action \<Rightarrow> DenyReason \<Rightarrow> string \<Rightarrow> Rule" where
  "deny_rule match deny reason policy =
     \<lparr>ru_Match = match, ru_Action = deny, ru_Policy = policy,
      ru_Counter = \<lparr>cr_Kind = Some Denied, cr_Reason = Some reason, cr_Action = Some deny\<rparr>\<rparr>"

definition policy_rules :: "Family \<Rightarrow> (string \<rightharpoonup> string) \<Rightarrow> Action \<Rightarrow> compiledPolicy \<Rightarrow> Rule list" where
  "policy_rules family bindings deny value =
     (case policyScope (po_Traffic (cp_policy value)) family of
        None \<Rightarrow> []
      | Some scope \<Rightarrow>
          let name = po_Name (cp_policy value);
              setID = (case bindings name of None \<Rightarrow> '''' | Some i \<Rightarrow> i);
              set_match = zero_match\<lparr>ma_SetID := setID, ma_Traffic := scope\<rparr>;
              scope_match = zero_match\<lparr>ma_Traffic := scope\<rparr>
          in if po_Mode (cp_policy value) = ''blocklist''
             then [deny_rule set_match deny GeoPolicy name, return_rule scope_match name]
             else [return_rule set_match name, deny_rule scope_match deny GeoPolicy name])"

definition compilePath ::
  "Direction \<Rightarrow> RemoteField \<Rightarrow> Family \<Rightarrow> prefix_set \<Rightarrow> prefix_set \<Rightarrow> compiledPolicy list \<Rightarrow>
   (string \<rightharpoonup> string) \<Rightarrow> bool \<Rightarrow> Action \<Rightarrow> Path" where
  "compilePath direction remote family allow block policies bindings crowdsec deny =
     (let any = zero_match\<lparr>ma_Traffic := any_scope\<rparr>;
          mine = filter (\<lambda>value. po_Direction (cp_policy value) = direction_string direction) policies
      in
      \<lparr>pa_Direction = direction, pa_Remote = remote,
       pa_Processed = \<lparr>cr_Kind = Some Processed, cr_Reason = None, cr_Action = None\<rparr>,
       pa_Rules =
         [return_rule (any\<lparr>ma_Flow := EstablishedRelated\<rparr>) '''', return_rule (any\<lparr>ma_Flow := NotNew\<rparr>) ''''] @
         (if set_Len allow \<noteq> 0 then [return_rule (any\<lparr>ma_SetID := ''global_allowlist''\<rparr>) ''''] else []) @
         (if set_Len block \<noteq> 0 then [deny_rule (any\<lparr>ma_SetID := ''global_blocklist''\<rparr>) deny GlobalBlocklist ''''] else []) @
         (if crowdsec \<and> direction = Ingress then [deny_rule (any\<lparr>ma_SetID := ''crowdsec''\<rparr>) deny CrowdSec ''''] else []) @
         (if mine \<noteq> [] then [return_rule (any\<lparr>ma_SetID := ''geo_eligible'', ma_NegateSet := True\<rparr>) ''''] else []) @
         concat (map (policy_rules family bindings deny) mine) @
         [return_rule any '''']\<rparr>)"

definition allowFamily :: "prefix_set \<Rightarrow> Family \<Rightarrow> prefix_set" where
  "allowFamily value family = (if family = IPv4 then set_IPv4 value else set_IPv6 value)"

definition compileFamily ::
  "(8 word list \<Rightarrow> 'd) \<Rightarrow> Family \<Rightarrow> prefix_set \<Rightarrow> prefix_set \<Rightarrow> compiledPolicy list \<Rightarrow> bool \<Rightarrow> Action \<Rightarrow> FamilyPlan" where
  "compileFamily digest family allow block policies crowdsec deny =
     (let allow = allowFamily allow family;
          block = allowFamily block family;
          familyPolicies = filter (\<lambda>value. policyApplies (po_Traffic (cp_policy value)) family) policies;
          (geoSets, bindings) = compileGeoSets digest family familyPolicies
      in
      \<lparr>fp_Family = family,
       fp_Sets =
         (if set_Len allow \<noteq> 0
          then [\<lparr>ps_ID = ''global_allowlist'', ps_Kind = StaticSet, ps_Prefixes = set_Prefixes allow\<rparr>] else []) @
         (if set_Len block \<noteq> 0
          then [\<lparr>ps_ID = ''global_blocklist'', ps_Kind = StaticSet, ps_Prefixes = set_Prefixes block\<rparr>] else []) @
         (if crowdsec then [\<lparr>ps_ID = ''crowdsec'', ps_Kind = DynamicCrowdSecSet, ps_Prefixes = []\<rparr>] else []) @
         (if length familyPolicies \<noteq> 0
          then [\<lparr>ps_ID = ''geo_eligible'', ps_Kind = StaticSet, ps_Prefixes = set_Prefixes (GeoEligible family)\<rparr>] else []) @
         geoSets,
       fp_Paths =
         [compilePath Ingress SourceAddress family allow block familyPolicies bindings crowdsec deny,
          compilePath Egress DestinationAddress family allow block familyPolicies bindings False deny]\<rparr>)"

definition Compile :: "(8 word list \<Rightarrow> 'd) \<Rightarrow> Config \<Rightarrow> Snapshot \<Rightarrow> compile_error + State" where
  "Compile digest cfg snapshot =
     result_bind (denyAction (fw_DenyAction (cg_Firewall cfg))) (\<lambda>deny.
     result_bind (wrap_error (\<lambda>(i, e). Global_allowlist i e) (set_New (gl_Allowlist (cg_Global cfg)))) (\<lambda>allow.
     result_bind (wrap_error (\<lambda>(i, e). Global_blocklist i e) (set_New (gl_Blocklist (cg_Global cfg)))) (\<lambda>block.
     result_bind (compilePolicies (cg_Policies cfg) snapshot) (\<lambda>policies.
       let crowdsec = cs_Enabled (cg_CrowdSec cfg) in
       if length policies = 0 \<and> set_Len block = 0 \<and> \<not> crowdsec then Inr \<lparr>st_families = []\<rparr>
       else
         let families =
           (if fw_IPv4 (cg_Firewall cfg) then [compileFamily digest IPv4 allow block policies crowdsec deny] else []) @
           (if fw_IPv6 (cg_Firewall cfg) then [compileFamily digest IPv6 allow block policies crowdsec deny] else [])
         in if length families = 0 then Inl No_enabled_family else Inr \<lparr>st_families = families\<rparr>))))"

section \<open>The reading of a configuration\<close>

definition selected :: "Snapshot \<Rightarrow> Selection \<Rightarrow> addr \<Rightarrow> bool" where
  "selected snapshot selection a =
     (case selectorKeys selection of
        Inl _ \<Rightarrow> False
      | Inr keys \<Rightarrow> (\<exists>k\<in>set keys. case snapshot_Lookup snapshot k of None \<Rightarrow> False | Some s \<Rightarrow> member s a))"

definition policy_includes :: "Snapshot \<Rightarrow> Policy \<Rightarrow> addr \<Rightarrow> bool" where
  "policy_includes snapshot p a = (selected snapshot (po_Include p) a \<and> \<not> selected snapshot (po_Exclude p) a)"

definition traffic_matches :: "TrafficScope \<Rightarrow> Family \<Rightarrow> string \<Rightarrow> 16 word \<Rightarrow> bool" where
  "traffic_matches traffic family protocol port =
     (ts_Any traffic \<or>
      protocol = ''tcp'' \<and> portInRanges (ts_TCP traffic) port \<or>
      protocol = ''udp'' \<and> portInRanges (ts_UDP traffic) port \<or>
      protocol = ''icmp'' \<and> (case family of IPv4 \<Rightarrow> ts_ICMP traffic | IPv6 \<Rightarrow> ts_ICMPv6 traffic))"

fun least_priority :: "Policy list \<Rightarrow> Policy option" where
  "least_priority [] = None"
| "least_priority (p # ps) =
     (case least_priority ps of
        None \<Rightarrow> Some p
      | Some q \<Rightarrow> if po_Priority q < po_Priority p then Some q else Some p)"

datatype verdict = Pass string | Deny DenyReason string

definition remote_of :: "Direction \<Rightarrow> Flow \<Rightarrow> addr" where
  "remote_of direction flow = (case direction of Ingress \<Rightarrow> fl_Source flow | Egress \<Rightarrow> fl_Destination flow)"

definition policy_governs :: "Family \<Rightarrow> Direction \<Rightarrow> Flow \<Rightarrow> Policy \<Rightarrow> bool" where
  "policy_governs family direction flow p =
     (po_Mode p \<noteq> ''disabled'' \<and> po_Direction p = direction_string direction \<and>
      traffic_matches (po_Traffic p) family (fl_Protocol flow) (fl_Port flow))"

definition decide :: "Config \<Rightarrow> Snapshot \<Rightarrow> Family \<Rightarrow> Direction \<Rightarrow> Flow \<Rightarrow> prefix list \<Rightarrow> verdict" where
  "decide cfg snapshot family direction flow dynamic =
     (let remote = remote_of direction flow in
      if fl_Established flow \<or> \<not> fl_New flow then Pass ''''
      else if covers (gl_Allowlist (cg_Global cfg)) remote then Pass ''''
      else if covers (gl_Blocklist (cg_Global cfg)) remote then Deny GlobalBlocklist ''''
      else if cs_Enabled (cg_CrowdSec cfg) \<and> direction = Ingress \<and> covers dynamic remote then Deny CrowdSec ''''
      else if \<not> member (GeoEligible family) remote then Pass ''''
      else case least_priority (filter (policy_governs family direction flow) (cg_Policies cfg)) of
        None \<Rightarrow> Pass ''''
      | Some p \<Rightarrow>
          if (po_Mode p = ''blocklist'') = policy_includes snapshot p remote then Deny GeoPolicy (po_Name p)
          else Pass (po_Name p))"

text \<open>What the evaluator reports for a verdict.\<close>

fun reported :: "Action \<Rightarrow> verdict \<Rightarrow> Action \<times> string \<times> CounterRole option" where
  "reported deny (Pass trace) = (Return, trace, None)"
| "reported deny (Deny reason trace) =
     (deny, trace, Some \<lparr>cr_Kind = Some Denied, cr_Reason = Some reason, cr_Action = Some deny\<rparr>)"

section \<open>Compiling the policies\<close>

lemma policy_order_key:
  "policy_order p q \<longleftrightarrow> (po_Direction p, po_Priority p, po_Name p) < (po_Direction q, po_Priority q, po_Name q)"
  by (auto simp: policy_order_def)

interpretation policy_sort: strict_weak policy_order
  by (rule strict_weak_key [OF policy_order_key])

lemma snapshotUnion_Inr:
  assumes "snapshotUnion name side keys snapshot = Inr s" "snapshot_ok snapshot"
  shows "set_ok s \<and> (\<forall>a. member s a \<longleftrightarrow>
    (\<exists>k\<in>set keys. case snapshot_Lookup snapshot k of None \<Rightarrow> False | Some s \<Rightarrow> member s a))"
proof -
  have look: "(case snapshot_Lookup snapshot k of None \<Rightarrow> Inl (Missing_selector name side k) | Some s \<Rightarrow> Inr s) = Inr t
      \<longleftrightarrow> snapshot_Lookup snapshot k = Some t" for k t by (auto split: option.splits)
  obtain sets where sets: "s = set_Union sets"
      "list_all2 (\<lambda>k t. snapshot_Lookup snapshot k = Some t) keys sets"
    using assms(1) by (auto simp: snapshotUnion_def map_result_Inr look)
  have ok: "\<forall>t\<in>set sets. set_ok t"
  proof
    fix t assume "t \<in> set sets"
    with list_all2_right [OF sets(2)] obtain k where "snapshot_Lookup snapshot k = Some t" by blast
    then have "(k, t) \<in> set (sn_entries snapshot)" by (auto simp: snapshot_Lookup_def dest: map_of_SomeD)
    then show "set_ok t" using assms(2) by (auto simp: snapshot_ok_def)
  qed
  have "(\<exists>t\<in>set sets. member t a) \<longleftrightarrow>
      (\<exists>k\<in>set keys. case snapshot_Lookup snapshot k of None \<Rightarrow> False | Some s \<Rightarrow> member s a)" for a
    using sets(2) by (induction keys sets rule: list_all2_induct) auto
  then show ?thesis using ok prefix_sets.union_ok prefix_sets.union_mem unfolding sets(1) by blast
qed

lemma effective_set_Inr:
  assumes "effective_set snapshot p = Inr s" "snapshot_ok snapshot"
  shows "set_ok s \<and> prefixes s \<noteq> [] \<and> (\<forall>a. member s a \<longleftrightarrow> policy_includes snapshot p a)"
proof -
  obtain ik ek i e where k: "selectorKeys (po_Include p) = Inr ik" "selectorKeys (po_Exclude p) = Inr ek"
      "snapshotUnion (po_Name p) Include ik snapshot = Inr i" "snapshotUnion (po_Name p) Exclude ek snapshot = Inr e"
      "s = set_Difference i e" "set_Len s \<noteq> 0"
    using assms(1) by (auto simp: effective_set_def Let_def split: if_splits)
  show ?thesis
    using snapshotUnion_Inr [OF k(3) assms(2)] snapshotUnion_Inr [OF k(4) assms(2)] k
      prefix_sets.diff_ok [of i e] prefix_sets.diff_mem [of i e]
    by (auto simp: policy_includes_def selected_def set_Len_def)
qed

definition compiled_ok :: "Snapshot \<Rightarrow> compiledPolicy \<Rightarrow> bool" where
  "compiled_ok snapshot c =
     (set_ok (cp_included c) \<and> (\<forall>a. member (cp_included c) a \<longleftrightarrow> policy_includes snapshot (cp_policy c) a) \<and>
      po_Mode (cp_policy c) \<in> {''allowlist'', ''blocklist''})"

abbreviation enabled :: "Policy \<Rightarrow> bool" where
  "enabled p \<equiv> po_Mode p \<noteq> ''disabled''"

abbreviation slot :: "Policy \<Rightarrow> string \<times> int" where
  "slot p \<equiv> (po_Direction p, po_Priority p)"

lemma compile_loop_Inr:
  assumes "compile_loop snapshot names prios compiled ps = Inr cs" "snapshot_ok snapshot"
  shows "\<exists>new. cs = compiled @ new \<and> map cp_policy new = filter enabled ps \<and> (\<forall>c\<in>set new. compiled_ok snapshot c) \<and>
    distinct (map po_Name ps) \<and> set (map po_Name ps) \<inter> set names = {} \<and>
    distinct (map slot ps) \<and> set (map slot ps) \<inter> fst ` set prios = {} \<and>
    (\<forall>p\<in>set ps. po_Direction p \<in> {''ingress'', ''egress''})"
  using assms(1)
proof (induction ps arbitrary: names prios compiled)
  case (Cons p ps)
  have p: "po_Name p \<notin> set names" "po_Direction p \<in> {''ingress'', ''egress''}"
      "slot p \<notin> fst ` set prios"
    using Cons.prems by (auto split: if_splits option.splits simp: map_of_eq_None_iff)
  show ?case
  proof (cases "enabled p")
    case False
    then have "compile_loop snapshot (po_Name p # names) ((slot p, po_Name p) # prios) compiled ps = Inr cs"
      using Cons.prems by (auto split: if_splits option.splits)
    from Cons.IH [OF this] show ?thesis using p False by auto
  next
    case True
    then obtain e where e: "effective_set snapshot p = Inr e" "po_Mode p \<in> {''allowlist'', ''blocklist''}"
        "compile_loop snapshot (po_Name p # names) ((slot p, po_Name p) # prios)
          (compiled @ [\<lparr>cp_policy = p, cp_included = e\<rparr>]) ps = Inr cs"
      using Cons.prems by (auto split: if_splits option.splits)
    have "compiled_ok snapshot \<lparr>cp_policy = p, cp_included = e\<rparr>"
      using effective_set_Inr [OF e(1) assms(2)] e(2) by (simp add: compiled_ok_def)
    then show ?thesis using Cons.IH [OF e(3)] p True by auto
  qed
qed simp

lemma compilePolicies_Inr:
  assumes "compilePolicies ps snapshot = Inr cs" "snapshot_ok snapshot"
  shows "map cp_policy cs = filter enabled (sort_slice policy_order ps)" "\<forall>c\<in>set cs. compiled_ok snapshot c"
    "distinct (map po_Name ps)" "inj_on slot (set ps)" "distinct (map slot ps)"
proof -
  note l = compile_loop_Inr [OF assms(1) [unfolded compilePolicies_def] assms(2)]
  show "map cp_policy cs = filter enabled (sort_slice policy_order ps)" "\<forall>c\<in>set cs. compiled_ok snapshot c"
    using l by auto
  have m: "mset (map f (sort_slice policy_order ps)) = mset (map f ps)" for f :: "Policy \<Rightarrow> 'x" by simp
  show "distinct (map po_Name ps)" using l m [of po_Name] by (metis mset_eq_imp_distinct_iff)
  show "distinct (map slot ps)" using l m [of slot] by (metis mset_eq_imp_distinct_iff)
  then show "inj_on slot (set ps)" by (simp add: distinct_map)
qed

section \<open>Priorities\<close>

lemma least_priority_None [simp]: "least_priority ps = None \<longleftrightarrow> ps = []"
  by (cases ps) (auto split: option.splits)

lemma least_priority_least:
  "least_priority ps = Some p \<Longrightarrow> p \<in> set ps \<and> (\<forall>q\<in>set ps. po_Priority p \<le> po_Priority q)"
  by (induction ps arbitrary: p) (fastforce split: option.splits if_splits)+

lemma least_priority_unique:
  assumes "inj_on po_Priority (set ps)" "p \<in> set ps" "\<forall>q\<in>set ps. po_Priority p \<le> po_Priority q"
  shows "least_priority ps = Some p"
proof -
  obtain q where q: "least_priority ps = Some q" using assms(2) by (cases "least_priority ps") auto
  note l = least_priority_least [OF q]
  then have "po_Priority p = po_Priority q" using assms by (simp add: order_antisym)
  then show ?thesis using q l assms(1,2) by (metis inj_onD)
qed

text \<open>Within one direction the compiled order is the order of the priorities.\<close>

lemma sorted_policies_first:
  assumes inj: "inj_on slot (set ps)" and dir: "\<And>p. Q p \<Longrightarrow> po_Direction p = d"
  shows "find Q (sort_slice policy_order ps) = least_priority (filter Q ps)"
proof (cases "filter Q (sort_slice policy_order ps)")
  case Nil
  then have "\<forall>p\<in>set ps. \<not> Q p" by (simp add: filter_empty_conv)
  then show ?thesis using Nil by (simp add: find_filter_hd filter_empty_conv)
next
  case (Cons p rest)
  have mem: "set (p # rest) = {q \<in> set ps. Q q}" using arg_cong [OF Cons, of set] by simp
  have "sorted_wrt (\<lambda>x y. \<not> policy_order y x) (p # rest)"
    using policy_sort.sorted_sort_slice [of ps] Cons by (metis sorted_wrt_filter)
  then have "\<forall>q\<in>set rest. \<not> policy_order q p" by simp
  moreover have "po_Direction q = po_Direction p" if "q \<in> set rest" for q
  proof -
    have "Q q" "Q p" using mem that by auto
    then show ?thesis using dir by simp
  qed
  ultimately have "\<forall>q\<in>set rest. po_Priority p \<le> po_Priority q"
    by (auto simp: policy_order_def not_less split: if_splits)
  moreover have "inj_on po_Priority (set (filter Q ps))"
    using inj dir by (auto simp: inj_on_def)
  ultimately have "least_priority (filter Q ps) = Some p"
    using mem by (intro least_priority_unique) auto
  then show ?thesis using Cons by (simp add: find_filter_hd)
qed

section \<open>Rules of one policy\<close>

definition signature :: "Rule \<Rightarrow> Action \<times> string \<times> CounterRole" where
  "signature r = (ru_Action r, ru_Policy r, ru_Counter r)"

definition denied :: "Action \<Rightarrow> DenyReason \<Rightarrow> CounterRole" where
  "denied deny reason = \<lparr>cr_Kind = Some Denied, cr_Reason = Some reason, cr_Action = Some deny\<rparr>"

lemma portInRanges_trafficRanges [simp]: "portInRanges (trafficRanges rs) port = portInRanges rs port"
  by (auto simp: portInRanges_def trafficRanges_def)

lemma policyScope_matches:
  assumes "policyApplies traffic family"
  shows "\<exists>scope. policyScope traffic family = Some scope \<and>
    (scopeMatches scope protocol port \<longleftrightarrow> traffic_matches traffic family protocol port)"
proof (cases "ts_Any traffic")
  case True
  then show ?thesis using assms
    by (simp add: policyScope_def scopeMatches_def traffic_matches_def any_scope_def)
next
  case False
  define icmp where "icmp = (if family = IPv4 then ts_ICMP traffic else ts_ICMPv6 traffic)"
  define scope where "scope = \<lparr>sc_Any = False, sc_TCP = trafficRanges (ts_TCP traffic),
      sc_UDP = trafficRanges (ts_UDP traffic), sc_ICMP = icmp\<rparr>"
  have "\<not> (trafficRanges (ts_TCP traffic) = [] \<and> trafficRanges (ts_UDP traffic) = [] \<and> \<not> icmp)"
    using assms False by (auto simp: policyApplies_def icmp_def trafficRanges_def split: if_splits)
  then have "policyScope traffic family = Some scope"
    using assms False by (simp add: policyScope_def Let_def scope_def icmp_def)
  moreover have "scopeMatches scope protocol port \<longleftrightarrow> traffic_matches traffic family protocol port"
    using False by (cases family) (auto simp: scopeMatches_def traffic_matches_def scope_def icmp_def)
  ultimately show ?thesis by blast
qed

lemma traffic_matches_applies: "traffic_matches traffic family protocol port \<Longrightarrow> policyApplies traffic family"
  by (cases family) (auto simp: traffic_matches_def policyApplies_def portInRanges_def)

lemma policy_rules_fire:
  assumes bound: "bindings (po_Name (cp_policy c)) = Some setID" "setID \<noteq> ''''"
    and member: "set_member (fp_Sets plan) dynamic setID (remoteAddress path flow) \<longleftrightarrow> inside"
    and applies: "policyApplies (po_Traffic (cp_policy c)) family"
  shows "map_option signature (find (\<lambda>r. ruleMatches plan path r flow dynamic) (policy_rules family bindings deny c)) =
    (if traffic_matches (po_Traffic (cp_policy c)) family (fl_Protocol flow) (fl_Port flow)
     then Some (if (po_Mode (cp_policy c) = ''blocklist'') = inside
                then (deny, po_Name (cp_policy c), denied deny GeoPolicy)
                else (Return, po_Name (cp_policy c), no_counter))
     else None)"
proof -
  obtain scope where scope: "policyScope (po_Traffic (cp_policy c)) family = Some scope"
      "scopeMatches scope (fl_Protocol flow) (fl_Port flow) \<longleftrightarrow>
        traffic_matches (po_Traffic (cp_policy c)) family (fl_Protocol flow) (fl_Port flow)"
    using policyScope_matches [OF applies] by blast
  define name where "name = po_Name (cp_policy c)"
  define m where "m = zero_match\<lparr>ma_SetID := setID, ma_Traffic := scope\<rparr>"
  define n where "n = zero_match\<lparr>ma_Traffic := scope\<rparr>"
  have rules: "policy_rules family bindings deny c =
      (if po_Mode (cp_policy c) = ''blocklist'' then [deny_rule m deny GeoPolicy name, return_rule n name]
       else [return_rule m name, deny_rule n deny GeoPolicy name])"
    using bound by (simp add: policy_rules_def Let_def scope(1) m_def n_def name_def)
  have fires: "ruleMatches plan path (return_rule m x) flow dynamic \<longleftrightarrow> inside \<and> scopeMatches scope (fl_Protocol flow) (fl_Port flow)"
    "ruleMatches plan path (return_rule n x) flow dynamic \<longleftrightarrow> scopeMatches scope (fl_Protocol flow) (fl_Port flow)"
    "ruleMatches plan path (deny_rule m d r x) flow dynamic \<longleftrightarrow> inside \<and> scopeMatches scope (fl_Protocol flow) (fl_Port flow)"
    "ruleMatches plan path (deny_rule n d r x) flow dynamic \<longleftrightarrow> scopeMatches scope (fl_Protocol flow) (fl_Port flow)" for x d r
    using bound(2) member by (simp_all add: ruleMatches_def return_rule_def deny_rule_def m_def n_def zero_match_def Let_def)
  have sigs: "signature (return_rule m x) = (Return, x, no_counter)" "signature (return_rule n x) = (Return, x, no_counter)"
    "signature (deny_rule m d r x) = (d, x, denied d r)" "signature (deny_rule n d r x) = (d, x, denied d r)" for x d r
    by (simp_all add: signature_def return_rule_def deny_rule_def denied_def)
  show ?thesis unfolding rules scope(2) [symmetric] name_def [symmetric] by (simp add: fires sigs)
qed

lemma all_policy_rules_fire:
  assumes "\<And>c. c \<in> set cs \<Longrightarrow> \<exists>setID. bindings (po_Name (cp_policy c)) = Some setID \<and> setID \<noteq> '''' \<and>
      (set_member (fp_Sets plan) dynamic setID (remoteAddress path flow) \<longleftrightarrow> member (cp_included c) (remoteAddress path flow)) \<and>
      policyApplies (po_Traffic (cp_policy c)) family"
  shows "map_option signature (find (\<lambda>r. ruleMatches plan path r flow dynamic)
      (concat (map (policy_rules family bindings deny) cs))) =
    map_option (\<lambda>c. if (po_Mode (cp_policy c) = ''blocklist'') = member (cp_included c) (remoteAddress path flow)
                    then (deny, po_Name (cp_policy c), denied deny GeoPolicy)
                    else (Return, po_Name (cp_policy c), no_counter))
      (find (\<lambda>c. traffic_matches (po_Traffic (cp_policy c)) family (fl_Protocol flow) (fl_Port flow)) cs)"
  using assms
proof (induction cs)
  case (Cons c cs)
  obtain setID where s: "bindings (po_Name (cp_policy c)) = Some setID" "setID \<noteq> ''''"
      "set_member (fp_Sets plan) dynamic setID (remoteAddress path flow) \<longleftrightarrow> member (cp_included c) (remoteAddress path flow)"
      "policyApplies (po_Traffic (cp_policy c)) family"
    using Cons.prems [of c] by auto
  note fire = policy_rules_fire [where bindings = bindings and c = c and plan = plan and path = path and flow = flow and deny = deny, OF s]
  show ?case
  proof (cases "traffic_matches (po_Traffic (cp_policy c)) family (fl_Protocol flow) (fl_Port flow)")
    case True
    then obtain r where r: "find (\<lambda>r. ruleMatches plan path r flow dynamic) (policy_rules family bindings deny c) = Some r"
      using fire by auto
    show ?thesis using fire True by (simp add: find_append r)
  next
    case False
    then have "find (\<lambda>r. ruleMatches plan path r flow dynamic) (policy_rules family bindings deny c) = None"
      using fire by simp
    then show ?thesis using Cons False by (simp add: find_append)
  qed
qed simp

section \<open>Sets and paths of a family plan\<close>

definition family_matches :: "Family \<Rightarrow> addr \<Rightarrow> bool" where
  "family_matches family a = (case family of IPv4 \<Rightarrow> Is4 a | IPv6 \<Rightarrow> Is6 a)"

lemma allowFamily_member:
  "set_ok s \<Longrightarrow> family_matches f a \<Longrightarrow> member (allowFamily s f) a \<longleftrightarrow> member s a"
  by (cases f) (auto simp: allowFamily_def family_matches_def prefix_sets.v4_mem prefix_sets.v6_mem)

lemma includedFamily_member:
  "set_ok (cp_included c) \<Longrightarrow> family_matches f a \<Longrightarrow> member (includedFamily c f) a \<longleftrightarrow> member (cp_included c) a"
  by (cases f) (auto simp: includedFamily_def family_matches_def prefix_sets.v4_mem prefix_sets.v6_mem)

lemma member_Prefixes: "(\<exists>p\<in>set (set_Prefixes s). prefix_Contains p a) \<longleftrightarrow> member s a"
  by (simp add: member_def covers_def set_Prefixes_def)

lemma member_Len: "member s a \<Longrightarrow> set_Len s \<noteq> 0"
  by (auto simp: member_def covers_def set_Len_def)

text \<open>The four named sets, and a shared set behind them.\<close>

lemma find_geo_set:
  assumes ids: "\<forall>s\<in>set geoSets. \<exists>name. ps_ID s = ''geo/'' @ name" and named: "\<forall>s\<in>set named. ps_ID s \<in>
      {''global_allowlist'', ''global_blocklist'', ''crowdsec'', ''geo_eligible''}"
    and s: "distinct (map ps_ID geoSets)" "s \<in> set geoSets"
  shows "find (\<lambda>t. ps_ID t = ps_ID s) (named @ geoSets) = Some s"
proof -
  have "find (\<lambda>t. ps_ID t = ps_ID s) named = None"
    using ids named s(2) by (fastforce simp: find_None_iff)
  then show ?thesis using find_by_ID [OF s] by (simp add: find_append)
qed

lemma find_named_set:
  assumes "\<forall>s\<in>set geoSets. \<exists>name. ps_ID s = ''geo/'' @ name"
    and "i \<in> {''global_allowlist'', ''global_blocklist'', ''crowdsec'', ''geo_eligible''}"
  shows "find (\<lambda>t. ps_ID t = i) (named @ geoSets) = find (\<lambda>t. ps_ID t = i) named"
proof -
  have "find (\<lambda>t. ps_ID t = i) geoSets = None" using assms by (fastforce simp: find_None_iff)
  then show ?thesis by (simp add: find_append split: option.splits)
qed

lemma compileFamily_eval:
  fixes digest :: "8 word list \<Rightarrow> 'd" and crowdsec :: bool and deny :: Action
  assumes cs: "\<forall>c\<in>set cs. set_ok (cp_included c)" "distinct (map (\<lambda>c. po_Name (cp_policy c)) cs)"
    and sets: "set_ok allow" "set_ok block"
    and fam: "family_matches f (remote_of d flow)"
  defines "plan \<equiv> compileFamily digest f allow block cs crowdsec deny"
    and "remote \<equiv> remote_of d flow"
    and "mine \<equiv> filter (\<lambda>c. po_Direction (cp_policy c) = direction_string d \<and>
        traffic_matches (po_Traffic (cp_policy c)) f (fl_Protocol flow) (fl_Port flow)) cs"
  shows "\<exists>path. find (\<lambda>p. pa_Direction p = d) (fp_Paths plan) = Some path \<and>
    map_option signature (find (\<lambda>r. ruleMatches plan path r flow dynamic) (pa_Rules path)) = Some
      (if fl_Established flow \<or> \<not> fl_New flow then (Return, '''', no_counter)
       else if member allow remote then (Return, '''', no_counter)
       else if member block remote then (deny, '''', denied deny GlobalBlocklist)
       else if crowdsec \<and> d = Ingress \<and> covers dynamic remote then (deny, '''', denied deny CrowdSec)
       else if \<not> member (GeoEligible f) remote then (Return, '''', no_counter)
       else case mine of [] \<Rightarrow> (Return, '''', no_counter)
         | c # _ \<Rightarrow> if (po_Mode (cp_policy c) = ''blocklist'') = member (cp_included c) remote
             then (deny, po_Name (cp_policy c), denied deny GeoPolicy)
             else (Return, po_Name (cp_policy c), no_counter))"
proof -
  define fpol where "fpol = filter (\<lambda>c. policyApplies (po_Traffic (cp_policy c)) f) cs"
  obtain geoSets bindings where geo: "compileGeoSets digest f fpol = (geoSets, bindings)" by fastforce
  have names: "distinct (map (\<lambda>c. po_Name (cp_policy c)) fpol)" using cs(2) by (simp add: fpol_def distinct_map_filter)
  note gok = compileGeoSets_ok [OF names geo]
  define al where "al = allowFamily allow f"
  define bl where "bl = allowFamily block f"
  define named where "named =
      (if set_Len al \<noteq> 0 then [\<lparr>ps_ID = ''global_allowlist'', ps_Kind = StaticSet, ps_Prefixes = set_Prefixes al\<rparr>] else []) @
      (if set_Len bl \<noteq> 0 then [\<lparr>ps_ID = ''global_blocklist'', ps_Kind = StaticSet, ps_Prefixes = set_Prefixes bl\<rparr>] else []) @
      (if crowdsec then [\<lparr>ps_ID = ''crowdsec'', ps_Kind = DynamicCrowdSecSet, ps_Prefixes = []\<rparr>] else []) @
      (if length fpol \<noteq> 0 then [\<lparr>ps_ID = ''geo_eligible'', ps_Kind = StaticSet, ps_Prefixes = set_Prefixes (GeoEligible f)\<rparr>] else [])"
  define path where "path = compilePath d (case d of Ingress \<Rightarrow> SourceAddress | Egress \<Rightarrow> DestinationAddress)
      f al bl fpol bindings (crowdsec \<and> d = Ingress) deny"
  have plan: "fp_Sets plan = named @ geoSets" "find (\<lambda>p. pa_Direction p = d) (fp_Paths plan) = Some path"
    by (cases d; simp add: plan_def compileFamily_def Let_def fpol_def [symmetric] geo al_def bl_def named_def path_def
      compilePath_def)+
  have rem: "remoteAddress path flow = remote"
    by (cases d) (simp_all add: remote_def remote_of_def remoteAddress_def path_def compilePath_def Let_def)
  have ids: "\<forall>s\<in>set geoSets. \<exists>name. ps_ID s = ''geo/'' @ name" using gok(3) by blast
  note look = find_named_set [OF ids, of _ named]
  have in_allow: "set_Len al \<noteq> 0 \<Longrightarrow> set_member (fp_Sets plan) dynamic ''global_allowlist'' remote \<longleftrightarrow> member al remote"
    by (simp add: set_member_def plan(1) look member_Prefixes) (simp add: named_def member_Prefixes)
  have in_block: "set_Len bl \<noteq> 0 \<Longrightarrow> set_member (fp_Sets plan) dynamic ''global_blocklist'' remote \<longleftrightarrow> member bl remote"
    by (simp add: set_member_def plan(1) look) (simp add: named_def member_Prefixes)
  have in_crowd: "crowdsec \<Longrightarrow> set_member (fp_Sets plan) dynamic ''crowdsec'' remote \<longleftrightarrow> covers dynamic remote"
    by (simp add: set_member_def plan(1) look) (simp add: named_def covers_def)
  have in_geo: "fpol \<noteq> [] \<Longrightarrow> set_member (fp_Sets plan) dynamic ''geo_eligible'' remote \<longleftrightarrow> member (GeoEligible f) remote"
    by (simp add: set_member_def plan(1) look) (simp add: named_def member_Prefixes)
  define dir where "dir = filter (\<lambda>c. po_Direction (cp_policy c) = direction_string d) fpol"
  have bound: "\<exists>setID. bindings (po_Name (cp_policy c)) = Some setID \<and> setID \<noteq> '''' \<and>
      (set_member (fp_Sets plan) dynamic setID (remoteAddress path flow) \<longleftrightarrow> member (cp_included c) (remoteAddress path flow)) \<and>
      policyApplies (po_Traffic (cp_policy c)) f" if c: "c \<in> set dir" for c
  proof -
    have cf: "c \<in> set fpol" "c \<in> set cs" using c by (auto simp: dir_def fpol_def)
    obtain s where s: "s \<in> set geoSets" "bindings (po_Name (cp_policy c)) = Some (ps_ID s)"
        "ps_Prefixes s = set_Prefixes (includedFamily c f)" using gok(4) [OF cf(1)] by blast
    have "find (\<lambda>t. ps_ID t = ps_ID s) (named @ geoSets) = Some s"
      by (rule find_geo_set [OF ids _ gok(1) s(1)]) (auto simp: named_def)
    then have "set_member (fp_Sets plan) dynamic (ps_ID s) remote \<longleftrightarrow> member (includedFamily c f) remote"
      using gok(3) [OF s(1)] s(3) by (simp add: set_member_def plan(1) member_Prefixes)
    also have "\<dots> \<longleftrightarrow> member (cp_included c) remote"
      using cs(1) cf(2) fam by (simp add: includedFamily_member remote_def)
    finally show ?thesis using s(2) gok(3) [OF s(1)] cf(1) by (auto simp: rem fpol_def)
  qed
  have al: "member al remote = member allow remote" "member bl remote = member block remote"
    using sets fam by (simp_all add: al_def bl_def allowFamily_member remote_def)
  have mine: "find (\<lambda>c. traffic_matches (po_Traffic (cp_policy c)) f (fl_Protocol flow) (fl_Port flow)) dir =
      (case mine of [] \<Rightarrow> None | c # _ \<Rightarrow> Some c)"
    using traffic_matches_applies
    by (simp add: dir_def fpol_def find_filter find_filter_hd [of _ cs] mine_def)
      (metis (no_types, lifting) filter_cong)
  define M where "M r = ruleMatches plan path r flow dynamic" for r
  define any where "any = zero_match\<lparr>ma_Traffic := any_scope\<rparr>"
  define geoRules where "geoRules = concat (map (policy_rules f bindings deny) dir)"
  have rules: "pa_Rules path =
      [return_rule (any\<lparr>ma_Flow := EstablishedRelated\<rparr>) '''', return_rule (any\<lparr>ma_Flow := NotNew\<rparr>) ''''] @
      (if set_Len al \<noteq> 0 then [return_rule (any\<lparr>ma_SetID := ''global_allowlist''\<rparr>) ''''] else []) @
      (if set_Len bl \<noteq> 0 then [deny_rule (any\<lparr>ma_SetID := ''global_blocklist''\<rparr>) deny GlobalBlocklist ''''] else []) @
      (if crowdsec \<and> d = Ingress then [deny_rule (any\<lparr>ma_SetID := ''crowdsec''\<rparr>) deny CrowdSec ''''] else []) @
      (if dir \<noteq> [] then [return_rule (any\<lparr>ma_SetID := ''geo_eligible'', ma_NegateSet := True\<rparr>) ''''] else []) @
      geoRules @ [return_rule any '''']"
    by (simp add: path_def compilePath_def Let_def any_def dir_def geoRules_def)
  have fires: "M (return_rule (any\<lparr>ma_Flow := EstablishedRelated\<rparr>) '''') \<longleftrightarrow> fl_Established flow"
      "M (return_rule (any\<lparr>ma_Flow := NotNew\<rparr>) '''') \<longleftrightarrow> \<not> fl_New flow"
      "M (return_rule any '''')"
      "x \<noteq> '''' \<Longrightarrow> M (return_rule (any\<lparr>ma_SetID := x\<rparr>) '''') \<longleftrightarrow> set_member (fp_Sets plan) dynamic x remote"
      "x \<noteq> '''' \<Longrightarrow> M (deny_rule (any\<lparr>ma_SetID := x\<rparr>) deny reason '''') \<longleftrightarrow> set_member (fp_Sets plan) dynamic x remote"
      "x \<noteq> '''' \<Longrightarrow> M (return_rule (any\<lparr>ma_SetID := x, ma_NegateSet := True\<rparr>) '''') \<longleftrightarrow>
        \<not> set_member (fp_Sets plan) dynamic x remote" for x reason
    by (simp_all add: M_def any_def ruleMatches_def return_rule_def deny_rule_def zero_match_def any_scope_def
      scopeMatches_def rem Let_def)
  have sigs: "signature (return_rule m x) = (Return, x, no_counter)" "signature (deny_rule m a r x) = (a, x, denied a r)" for m x a r
    by (simp_all add: signature_def return_rule_def deny_rule_def denied_def)
  have geo_sig: "map_option signature (find M geoRules) =
      map_option (\<lambda>c. if (po_Mode (cp_policy c) = ''blocklist'') = member (cp_included c) remote
          then (deny, po_Name (cp_policy c), denied deny GeoPolicy) else (Return, po_Name (cp_policy c), no_counter))
        (case mine of [] \<Rightarrow> None | c # _ \<Rightarrow> Some c)"
    using all_policy_rules_fire [where cs = dir and deny = deny, OF bound] mine unfolding rem geoRules_def M_def by simp
  have none: "dir = [] \<Longrightarrow> mine = []" "dir \<noteq> [] \<Longrightarrow> fpol \<noteq> []"
    using mine by (auto simp: dir_def split: list.splits)
  have tail: "map_option signature (find M (geoRules @ [return_rule any ''''])) = Some
      (case mine of [] \<Rightarrow> (Return, '''', no_counter)
       | c # _ \<Rightarrow> if (po_Mode (cp_policy c) = ''blocklist'') = member (cp_included c) remote
           then (deny, po_Name (cp_policy c), denied deny GeoPolicy) else (Return, po_Name (cp_policy c), no_counter))"
    using geo_sig by (cases mine; cases "find M geoRules") (simp_all add: find_append fires sigs)
  have empty: "set_Len al = 0 \<Longrightarrow> \<not> member allow remote" "set_Len bl = 0 \<Longrightarrow> \<not> member block remote"
    using member_Len al by blast+
  define T where "T = (if dir \<noteq> [] then [return_rule (any\<lparr>ma_SetID := ''geo_eligible'', ma_NegateSet := True\<rparr>) ''''] else []) @
         geoRules @ [return_rule any '''']"
  define V where "V = (if \<not> member (GeoEligible f) remote then (Return, '''', no_counter)
       else case mine of [] \<Rightarrow> (Return, '''', no_counter)
       | c # _ \<Rightarrow> if (po_Mode (cp_policy c) = ''blocklist'') = member (cp_included c) remote
           then (deny, po_Name (cp_policy c), denied deny GeoPolicy) else (Return, po_Name (cp_policy c), no_counter))"
  have geo_tail: "map_option signature (find M T) = Some V"
    using tail none in_geo unfolding T_def V_def by (cases "dir = []") (auto simp: fires sigs)
  have "map_option signature (find M (pa_Rules path)) = Some
      (if fl_Established flow \<or> \<not> fl_New flow then (Return, '''', no_counter)
       else if member allow remote then (Return, '''', no_counter)
       else if member block remote then (deny, '''', denied deny GlobalBlocklist)
       else if crowdsec \<and> d = Ingress \<and> covers dynamic remote then (deny, '''', denied deny CrowdSec)
       else V)"
    unfolding rules T_def [symmetric] using geo_tail in_allow in_block in_crowd empty al
    by (cases "set_Len al = 0"; cases "set_Len bl = 0"; cases "crowdsec \<and> d = Ingress")
      (auto simp: fires sigs find_append)
  then show ?thesis using plan(2) unfolding M_def V_def by blast
qed

section \<open>What Compile returns\<close>

lemma Compile_Inr:
  assumes "Compile digest cfg snapshot = Inr st"
  obtains deny allow block cs where
    "denyAction (fw_DenyAction (cg_Firewall cfg)) = Inr deny" "deny \<noteq> Return"
    "set_New (gl_Allowlist (cg_Global cfg)) = Inr allow" "set_New (gl_Blocklist (cg_Global cfg)) = Inr block"
    "compilePolicies (cg_Policies cfg) snapshot = Inr cs"
    "st_families st =
      (if cs = [] \<and> set_Len block = 0 \<and> \<not> cs_Enabled (cg_CrowdSec cfg) then []
       else (if fw_IPv4 (cg_Firewall cfg) then [compileFamily digest IPv4 allow block cs (cs_Enabled (cg_CrowdSec cfg)) deny] else []) @
            (if fw_IPv6 (cg_Firewall cfg) then [compileFamily digest IPv6 allow block cs (cs_Enabled (cg_CrowdSec cfg)) deny] else []))"
    "\<not> (cs = [] \<and> set_Len block = 0 \<and> \<not> cs_Enabled (cg_CrowdSec cfg)) \<Longrightarrow> st_families st \<noteq> []"
proof -
  obtain deny allow block cs where c:
    "denyAction (fw_DenyAction (cg_Firewall cfg)) = Inr deny"
    "set_New (gl_Allowlist (cg_Global cfg)) = Inr allow" "set_New (gl_Blocklist (cg_Global cfg)) = Inr block"
    "compilePolicies (cg_Policies cfg) snapshot = Inr cs"
    using assms by (auto simp: Compile_def)
  have "deny \<noteq> Return" using c(1) by (auto simp: denyAction_def split: if_splits)
  then show thesis
    using c assms by (intro that [OF c(1) _ c(2,3,4)]) (auto simp: Compile_def Let_def split: if_splits)
qed

lemma compileFamily_Family [simp]: "fp_Family (compileFamily digest f allow block cs crowdsec deny) = f"
  by (simp add: compileFamily_def Let_def split: prod.splits)

fun verdict_signature :: "Action \<Rightarrow> verdict \<Rightarrow> Action \<times> string \<times> CounterRole" where
  "verdict_signature deny (Pass trace) = (Return, trace, no_counter)"
| "verdict_signature deny (Deny reason trace) = (deny, trace, denied deny reason)"

lemma verdict_signature_if:
  "verdict_signature deny (if b then v else w) = (if b then verdict_signature deny v else verdict_signature deny w)"
  "verdict_signature deny (case xs of [] \<Rightarrow> v | x # _ \<Rightarrow> g x) =
    (case xs of [] \<Rightarrow> verdict_signature deny v | x # _ \<Rightarrow> verdict_signature deny (g x))"
  by (auto split: list.splits)

lemma reported_signature:
  "deny \<noteq> Return \<Longrightarrow> reported deny v =
     (case verdict_signature deny v of (a, t, k) \<Rightarrow> (a, t, if a \<noteq> Return then Some k else None))"
  by (cases v) (auto simp: denied_def)

lemma governing_policy:
  assumes c: "compilePolicies ps snapshot = Inr cs" "snapshot_ok snapshot"
  shows "least_priority (filter (policy_governs f d flow) ps) =
    map_option cp_policy (find (\<lambda>c. po_Direction (cp_policy c) = direction_string d \<and>
        traffic_matches (po_Traffic (cp_policy c)) f (fl_Protocol flow) (fl_Port flow)) cs)"
proof -
  note ok = compilePolicies_Inr [OF c]
  have "least_priority (filter (policy_governs f d flow) ps) =
      find (policy_governs f d flow) (sort_slice policy_order ps)"
    by (rule sorted_policies_first [OF ok(4), symmetric]) (auto simp: policy_governs_def)
  also have "\<dots> = find (\<lambda>p. po_Direction p = direction_string d \<and>
      traffic_matches (po_Traffic p) f (fl_Protocol flow) (fl_Port flow)) (map cp_policy cs)"
    unfolding ok(1) find_filter by (simp add: policy_governs_def [abs_def])
  also have "\<dots> = map_option cp_policy (find (\<lambda>c. po_Direction (cp_policy c) = direction_string d \<and>
        traffic_matches (po_Traffic (cp_policy c)) f (fl_Protocol flow) (fl_Port flow)) cs)"
    by (induction cs) auto
  finally show ?thesis .
qed

lemma decide_compiled:
  fixes f :: Family and d :: Direction and flow :: Flow
  assumes comp: "set_New (gl_Allowlist (cg_Global cfg)) = Inr allow" "set_New (gl_Blocklist (cg_Global cfg)) = Inr block"
      "compilePolicies (cg_Policies cfg) snapshot = Inr cs" "snapshot_ok snapshot"
  defines "mine \<equiv> filter (\<lambda>c. po_Direction (cp_policy c) = direction_string d \<and>
        traffic_matches (po_Traffic (cp_policy c)) f (fl_Protocol flow) (fl_Port flow)) cs"
    and "remote \<equiv> remote_of d flow"
  shows "decide cfg snapshot f d flow dynamic =
      (if fl_Established flow \<or> \<not> fl_New flow then Pass ''''
       else if member allow remote then Pass ''''
       else if member block remote then Deny GlobalBlocklist ''''
       else if cs_Enabled (cg_CrowdSec cfg) \<and> d = Ingress \<and> covers dynamic remote then Deny CrowdSec ''''
       else if \<not> member (GeoEligible f) remote then Pass ''''
       else case mine of [] \<Rightarrow> Pass ''''
         | c # _ \<Rightarrow> if (po_Mode (cp_policy c) = ''blocklist'') = member (cp_included c) remote
             then Deny GeoPolicy (po_Name (cp_policy c)) else Pass (po_Name (cp_policy c)))"
proof -
  note ok = compilePolicies_Inr [OF comp(3,4)]
  have inc: "member (cp_included c) remote = policy_includes snapshot (cp_policy c) remote" if "c \<in> set mine" for c
    using ok(2) that by (auto simp: compiled_ok_def mine_def)
  have "least_priority (filter (policy_governs f d flow) (cg_Policies cfg)) =
      (case mine of [] \<Rightarrow> None | c # _ \<Rightarrow> Some (cp_policy c))"
    unfolding governing_policy [OF comp(3,4)] find_filter_hd mine_def [symmetric] by (cases mine) auto
  then show ?thesis
    using set_New_member [OF comp(1)] set_New_member [OF comp(2)] inc
    by (cases mine) (simp_all add: decide_def remote_def [symmetric] Let_def)
qed

lemma compiled_names:
  assumes "compilePolicies ps snapshot = Inr cs" "snapshot_ok snapshot"
  shows "distinct (map (\<lambda>c. po_Name (cp_policy c)) cs)"
proof -
  note ok = compilePolicies_Inr [OF assms]
  have "mset (map po_Name (sort_slice policy_order ps)) = mset (map po_Name ps)" by simp
  then have "distinct (map po_Name (sort_slice policy_order ps))"
    using ok(3) by (rule iffD2 [OF mset_eq_imp_distinct_iff])
  then have "distinct (map po_Name (map cp_policy cs))" unfolding ok(1) by (rule distinct_map_filter)
  then show ?thesis by (simp add: comp_def)
qed

section \<open>Properties\<close>

lemma compiled_decides:
  assumes compiled: "Compile digest cfg snapshot = Inr st" and "snapshot_ok snapshot"
    and plan: "plan \<in> set (state_Families st)" and fam: "family_matches (fp_Family plan) (remote_of d flow)"
  shows "\<exists>deny ev. denyAction (fw_DenyAction (cg_Firewall cfg)) = Inr deny \<and>
    ev = evaluate plan d flow dynamic \<and>
    (ev_Action ev, ev_Trace ev, ev_Denied ev) = reported deny (decide cfg snapshot (fp_Family plan) d flow dynamic)"
proof -
  obtain deny allow block cs where c: "denyAction (fw_DenyAction (cg_Firewall cfg)) = Inr deny" "deny \<noteq> Return"
    "set_New (gl_Allowlist (cg_Global cfg)) = Inr allow" "set_New (gl_Blocklist (cg_Global cfg)) = Inr block"
    "compilePolicies (cg_Policies cfg) snapshot = Inr cs"
    "plan = compileFamily digest (fp_Family plan) allow block cs (cs_Enabled (cg_CrowdSec cfg)) deny"
  proof (rule Compile_Inr [OF compiled], goal_cases)
    case (1 deny allow block cs)
    then show ?case using plan by (intro 1(1) [of deny allow block cs]) (auto split: if_splits)
  qed
  note ok = compilePolicies_Inr [OF c(5) assms(2)]
  note names = compiled_names [OF c(5) assms(2)]
  have sets: "\<forall>c\<in>set cs. set_ok (cp_included c)" using ok(2) by (simp add: compiled_ok_def)
  obtain path r where p: "find (\<lambda>p. pa_Direction p = d) (fp_Paths plan) = Some path"
    "find (\<lambda>r. ruleMatches plan path r flow dynamic) (pa_Rules path) = Some r"
    "signature r = verdict_signature deny (decide cfg snapshot (fp_Family plan) d flow dynamic)"
    using compileFamily_eval [where digest = digest and crowdsec = "cs_Enabled (cg_CrowdSec cfg)" and deny = deny and
        dynamic = dynamic, OF sets names set_New_ok [OF c(3)] set_New_ok [OF c(4)] fam, folded c(6)]
    unfolding decide_compiled [OF c(3-5) assms(2)] verdict_signature_if verdict_signature.simps
      map_option_eq_Some by blast
  then have "evaluate plan d flow dynamic = \<lparr>ev_Action = ru_Action r, ev_Trace = ru_Policy r,
      ev_Processed = pa_Processed path, ev_Denied = (if ru_Action r \<noteq> Return then Some (ru_Counter r) else None)\<rparr>"
    by (simp add: evaluate_def evaluate_path_def)
  moreover have "reported deny (decide cfg snapshot (fp_Family plan) d flow dynamic) =
      (ru_Action r, ru_Policy r, if ru_Action r \<noteq> Return then Some (ru_Counter r) else None)"
    unfolding reported_signature [OF c(2)] p(3) [symmetric] by (simp add: signature_def)
  ultimately show ?thesis using c(1) by simp
qed

text \<open>
  (C1) The compiler is correct: evaluating the rules of a compiled plan on any packet of the
  plan's family reports exactly the verdict that the configuration prescribes, with the
  action, the policy trace and the denial counter. The verdict follows the flow guards, the
  global allow and block lists, the CrowdSec decisions (ingress only), geo eligibility and
  the applicable policy of least priority, in this order; it does not depend on the digest
  used for sharing sets.
\<close>

theorem Compile_decides:
  assumes compiled: "Compile digest cfg snapshot = Inr st" and "snapshot_ok snapshot"
    and plan: "plan \<in> set (state_Families st)" and fam: "family_matches (fp_Family plan) (remote_of d flow)"
  shows "\<exists>deny ev. denyAction (fw_DenyAction (cg_Firewall cfg)) = Inr deny \<and>
    ev = evaluate plan d flow dynamic \<and>
    (ev_Action ev, ev_Trace ev, ev_Denied ev) = reported deny (decide cfg snapshot (fp_Family plan) d flow dynamic)"
  by (rule compiled_decides [OF assms])

theorem Compile_decides_witness:
  "let cfg = zero_config\<lparr>cg_Firewall := (cg_Firewall zero_config)\<lparr>fw_DenyAction := ''drop'', fw_IPv4 := True\<rparr>,
         cg_Global := \<lparr>gl_Allowlist = [], gl_Blocklist = [Prefix (IP4 0x08080808) 33]\<rparr>\<rparr>;
       flow = \<lparr>fl_Source = IP4 0x08080808, fl_Destination = NoAddr, fl_Protocol = ''tcp'', fl_Port = 22,
         fl_New = True, fl_Established = False\<rparr>
   in \<exists>st plan ev. Compile length cfg \<lparr>sn_entries = []\<rparr> = Inr st \<and> plan \<in> set (state_Families st) \<and>
        ev = evaluate plan Ingress flow [] \<and> (ev_Action ev, ev_Trace ev) = (Drop, '''') \<and>
        decide cfg \<lparr>sn_entries = []\<rparr> IPv4 Ingress flow [] = Deny GlobalBlocklist ''''"
proof -
  define cfg where "cfg = zero_config\<lparr>cg_Firewall := (cg_Firewall zero_config)\<lparr>fw_DenyAction := ''drop'', fw_IPv4 := True\<rparr>,
         cg_Global := \<lparr>gl_Allowlist = [], gl_Blocklist = [Prefix (IP4 0x08080808) 33]\<rparr>\<rparr>"
  define flow where "flow = \<lparr>fl_Source = IP4 0x08080808, fl_Destination = NoAddr, fl_Protocol = ''tcp'', fl_Port = 22,
         fl_New = True, fl_Established = False\<rparr>"
  define plan where "plan = compileFamily length IPv4 empty_set (fromCanonical [Prefix (IP4 0x08080808) 33]) [] False Drop"
  have new: "set_New [] = Inr empty_set" "set_New [Prefix (IP4 0x08080808) 33] = Inr (fromCanonical [Prefix (IP4 0x08080808) 33])"
    by code_simp+
  have c: "Compile length cfg \<lparr>sn_entries = []\<rparr> = Inr \<lparr>st_families = [plan]\<rparr>"
    by (simp add: Compile_def cfg_def zero_config_def new denyAction_def compilePolicies_def plan_def
      fromCanonical_def set_Len_def empty_set_def)
  have snap: "snapshot_ok \<lparr>sn_entries = []\<rparr>" by (simp add: snapshot_ok_def)
  have mem: "plan \<in> set (state_Families \<lparr>st_families = [plan]\<rparr>)" by simp
  have fam: "family_matches (fp_Family plan) (remote_of Ingress flow)"
    by (simp add: plan_def family_matches_def remote_of_def flow_def)
  have con: "prefix_Contains (Prefix (IP4 0x08080808) 33) (IP4 0x08080808)" by code_simp
  have dec: "decide cfg \<lparr>sn_entries = []\<rparr> (fp_Family plan) Ingress flow [] = Deny GlobalBlocklist ''''"
    by (simp add: decide_def cfg_def flow_def remote_of_def con plan_def)
  have "denyAction (fw_DenyAction (cg_Firewall cfg)) = Inr Drop"
    by (simp add: cfg_def zero_config_def denyAction_def)
  then have "\<exists>ev. ev = evaluate plan Ingress flow [] \<and> (ev_Action ev, ev_Trace ev) = (Drop, '''')"
    using Compile_decides [OF c snap mem fam, of "[]"] unfolding dec by auto
  moreover have "fp_Family plan = IPv4" by (simp add: plan_def)
  ultimately show ?thesis
    using c mem dec unfolding Let_def cfg_def [symmetric] flow_def [symmetric] by metis
qed

text \<open>
  (C13) A state without plans is returned only for a configuration that never denies anything;
  otherwise there is one plan per enabled family, in the order IPv4, IPv6.
\<close>

theorem Compile_families:
  assumes "Compile digest cfg snapshot = Inr st" "snapshot_ok snapshot"
  shows "(state_Empty st \<longrightarrow> (\<forall>f d flow dynamic. \<exists>t. decide cfg snapshot f d flow dynamic = Pass t)) \<and>
    (\<not> state_Empty st \<longrightarrow> map fp_Family (state_Families st) =
       (if fw_IPv4 (cg_Firewall cfg) then [IPv4] else []) @ (if fw_IPv6 (cg_Firewall cfg) then [IPv6] else []))"
proof (rule Compile_Inr [OF assms(1)], goal_cases)
  case (1 deny allow block cs)
  show ?case
  proof (cases "cs = [] \<and> set_Len block = 0 \<and> \<not> cs_Enabled (cg_CrowdSec cfg)")
    case True
    then have "state_Empty st" using 1(6) by (simp add: state_Empty_def)
    moreover have "\<not> member block a" for a using True member_Len [of block a] by blast
    then have "decide cfg snapshot f d flow dynamic = Pass ''''" for f d flow dynamic
      using True unfolding decide_compiled [OF 1(3-5) assms(2)] by auto
    ultimately show ?thesis by auto
  next
    case False
    then show ?thesis using 1(6) 1(7) [OF False] by (auto simp: state_Empty_def split: if_splits)
  qed
qed

theorem Compile_families_witness:
  "let cfg = zero_config\<lparr>cg_Firewall := (cg_Firewall zero_config)\<lparr>fw_DenyAction := ''reject''\<rparr>\<rparr> in
   Compile length cfg \<lparr>sn_entries = []\<rparr> = Inr \<lparr>st_families = []\<rparr> \<and>
   (\<exists>t. decide cfg \<lparr>sn_entries = []\<rparr> IPv6 Egress
      \<lparr>fl_Source = NoAddr, fl_Destination = NoAddr, fl_Protocol = ''icmp'', fl_Port = 0, fl_New = True, fl_Established = False\<rparr> [] = Pass t)"
proof -
  define cfg where "cfg = zero_config\<lparr>cg_Firewall := (cg_Firewall zero_config)\<lparr>fw_DenyAction := ''reject''\<rparr>\<rparr>"
  have new: "set_New [] = Inr empty_set" by code_simp
  have c: "Compile length cfg \<lparr>sn_entries = []\<rparr> = Inr \<lparr>st_families = []\<rparr>"
    by (simp add: Compile_def cfg_def zero_config_def new denyAction_def compilePolicies_def set_Len_def empty_set_def)
  have "snapshot_ok \<lparr>sn_entries = []\<rparr>" by (simp add: snapshot_ok_def)
  from Compile_families [OF c this] c show ?thesis unfolding Let_def cfg_def [symmetric] by (simp add: state_Empty_def)
qed

text \<open>Which errors the selector stage can raise.\<close>

definition resolution_error :: "compile_error \<Rightarrow> bool" where
  "resolution_error e =
     (case e of Policy_keys _ _ _ \<Rightarrow> True | Missing_selector _ _ _ \<Rightarrow> True | _ \<Rightarrow> False)"

lemma resolution_error_simps [simp]:
  "\<not> resolution_error (Duplicate_name n)" "\<not> resolution_error (Unsupported_direction n d)"
  "\<not> resolution_error (Duplicate_priority n m p d)" "\<not> resolution_error (Unsupported_mode n d)"
  "\<not> resolution_error (Empty_selector_set n)" "\<not> resolution_error No_enabled_family"
  "\<not> resolution_error (Unsupported_deny_action n)" "\<not> resolution_error (Global_allowlist i v)"
  "\<not> resolution_error (Global_blocklist i v)"
  by (simp_all add: resolution_error_def)

lemma snapshotUnion_present:
  assumes "\<forall>k\<in>set keys. snapshot_Lookup snapshot k \<noteq> None"
  shows "\<exists>s. snapshotUnion name side keys snapshot = Inr s"
proof -
  let ?f = "\<lambda>k. case snapshot_Lookup snapshot k of None \<Rightarrow> Inl (Missing_selector name side k) | Some s \<Rightarrow> Inr s"
  have "\<not> (\<exists>e. map_result ?f keys = Inl e)" unfolding map_result_Inl using assms by (auto split: option.splits)
  then obtain sets where "map_result ?f keys = Inr sets" by (meson sumE)
  then show ?thesis by (simp add: snapshotUnion_def)
qed

lemma effective_set_present:
  assumes "selectorKeys (po_Include p) = Inr inc" "selectorKeys (po_Exclude p) = Inr exc"
    "\<forall>k\<in>set inc \<union> set exc. snapshot_Lookup snapshot k \<noteq> None" "effective_set snapshot p = Inl e"
  shows "\<not> resolution_error e"
proof -
  obtain i x where "snapshotUnion (po_Name p) Include inc snapshot = Inr i"
      "snapshotUnion (po_Name p) Exclude exc snapshot = Inr x"
    using assms(3) snapshotUnion_present by (meson UnI1 UnI2)
  then show ?thesis
    using assms by (auto simp: effective_set_def Let_def split: if_splits)
qed

lemma compile_loop_present:
  assumes "\<forall>p\<in>set ps. enabled p \<longrightarrow> (\<exists>inc exc. selectorKeys (po_Include p) = Inr inc \<and>
      selectorKeys (po_Exclude p) = Inr exc \<and> (\<forall>k\<in>set inc \<union> set exc. snapshot_Lookup snapshot k \<noteq> None))"
    "compile_loop snapshot names prios compiled ps = Inl e"
  shows "\<not> resolution_error e"
  using assms
proof (induction ps arbitrary: names prios compiled)
  case (Cons p ps)
  have eff: "\<not> resolution_error e'" if "enabled p" "effective_set snapshot p = Inl e'" for e'
    using Cons.prems(1) effective_set_present that by (metis list.set_intros(1))
  have rest: "\<not> resolution_error e" if "compile_loop snapshot n q c ps = Inl e" for n q c
    using Cons.IH [OF _ that] Cons.prems(1) by simp
  show ?case
  proof (cases "effective_set snapshot p")
    case (Inl e')
    then show ?thesis using Cons.prems(2) eff rest
      by (auto simp: Let_def split: if_splits option.splits)
  next
    case (Inr s)
    then show ?thesis using Cons.prems(2) rest
      by (auto simp: Let_def split: if_splits option.splits)
  qed
qed simp

lemma required_suffice:
  assumes "RequiredSelectors cfg = Inr sels" "\<forall>s\<in>set sels. snapshot_Lookup snapshot s \<noteq> None"
    "Compile digest cfg snapshot = Inl e"
  shows "\<not> resolution_error e"
proof -
  obtain seen where seen: "required_loop 0 [] (cg_Policies cfg) = Inr seen" "sels = sortSelectors (remdups seen)"
    using assms(1) by (auto simp: RequiredSelectors_def)
  note r = required_loop_Inr [OF seen(1)]
  have "\<exists>inc exc. selectorKeys (po_Include p) = Inr inc \<and> selectorKeys (po_Exclude p) = Inr exc \<and>
      (\<forall>k\<in>set inc \<union> set exc. snapshot_Lookup snapshot k \<noteq> None)"
    if p: "p \<in> set (cg_Policies cfg)" "enabled p" for p
  proof -
    obtain inc exc where k: "selectorKeys (po_Include p) = Inr inc" "selectorKeys (po_Exclude p) = Inr exc"
      using r p by blast
    then have "set inc \<union> set exc = policy_keys p" by (simp add: policy_keys_def)
    then have "set inc \<union> set exc \<subseteq> set sels" using r p seen(2) by auto
    then show ?thesis using k assms(2) by blast
  qed
  then have "\<forall>p\<in>set (sort_slice policy_order (cg_Policies cfg)). enabled p \<longrightarrow> (\<exists>inc exc. selectorKeys (po_Include p) = Inr inc \<and>
      selectorKeys (po_Exclude p) = Inr exc \<and> (\<forall>k\<in>set inc \<union> set exc. snapshot_Lookup snapshot k \<noteq> None))"
    by simp
  note loop = compile_loop_present [OF this]
  show ?thesis
    using assms(3) loop
    by (auto simp: Compile_def compilePolicies_def result_bind_Inl denyAction_def Let_def split: if_splits)
qed



text \<open>
  (C16) The compiled state does not depend on the order in which the policies are declared.
\<close>

theorem Compile_order_independent:
  assumes "mset (cg_Policies cfg) = mset policies" "distinct (map po_Name policies)"
  shows "Compile digest (cfg\<lparr>cg_Policies := policies\<rparr>) snapshot = Compile digest cfg snapshot"
proof -
  have "inj_on (\<lambda>p. (po_Direction p, po_Priority p, po_Name p)) (set policies)"
    using assms(2) by (auto simp: inj_on_def distinct_map)
  then have "sort_slice policy_order policies = sort_slice policy_order (cg_Policies cfg)"
    using assms(1) by (intro sort_slice_key_unique [OF policy_order_key]) auto
  then show ?thesis by (simp add: Compile_def compilePolicies_def Let_def cong: if_cong)
qed

theorem Compile_order_independent_witness:
  "let p = zero_policy\<lparr>po_Name := ''p''\<rparr>; q = zero_policy\<lparr>po_Name := ''q''\<rparr> in
   Compile length (zero_config\<lparr>cg_Policies := [p, q]\<rparr>) \<lparr>sn_entries = []\<rparr> =
   Compile length (zero_config\<lparr>cg_Policies := [q, p]\<rparr>) \<lparr>sn_entries = []\<rparr>"
proof -
  define p where "p = zero_policy\<lparr>po_Name := ''p''\<rparr>"
  define q where "q = zero_policy\<lparr>po_Name := ''q''\<rparr>"
  have "mset (cg_Policies (zero_config\<lparr>cg_Policies := [q, p]\<rparr>)) = mset [p, q]" "distinct (map po_Name [p, q])"
    by (simp_all add: p_def q_def)
  from Compile_order_independent [OF this, of length "\<lparr>sn_entries = []\<rparr>"] show ?thesis
    unfolding Let_def p_def q_def by simp
qed

lemma compilePath_rules:
  assumes "r \<in> set (pa_Rules (compilePath d rf f allow block pol bindings crowdsec deny))"
    "\<forall>c\<in>set pol. r \<notin> set (policy_rules f bindings deny c)"
  shows "ma_SetID (ru_Match r) = '''' \<or>
    ma_SetID (ru_Match r) = ''global_allowlist'' \<and> set_Len allow \<noteq> 0 \<or>
    ma_SetID (ru_Match r) = ''global_blocklist'' \<and> set_Len block \<noteq> 0 \<or>
    ma_SetID (ru_Match r) = ''crowdsec'' \<and> crowdsec \<or>
    ma_SetID (ru_Match r) = ''geo_eligible'' \<and> pol \<noteq> []"
proof -
  have "r \<notin> set (concat (map (policy_rules f bindings deny) (filter P pol)))" for P using assms(2) by auto
  then show ?thesis using assms(1)
    by (auto simp: compilePath_def Let_def return_rule_def deny_rule_def zero_match_def simp del: set_concat split: if_splits)
qed

lemma compileFamily_references:
  fixes digest :: "8 word list \<Rightarrow> 'd" and crowdsec :: bool and deny :: Action and allow block :: prefix_set and f :: Family
  assumes names: "distinct (map (\<lambda>c. po_Name (cp_policy c)) cs)"
  defines "plan \<equiv> compileFamily digest f allow block cs crowdsec deny"
  shows "distinct (map ps_ID (fp_Sets plan)) \<and>
    (\<forall>path\<in>set (fp_Paths plan). \<forall>r\<in>set (pa_Rules path).
       ma_SetID (ru_Match r) = '''' \<or> ma_SetID (ru_Match r) \<in> ps_ID ` set (fp_Sets plan))"
proof -
  define fpol where "fpol = filter (\<lambda>c. policyApplies (po_Traffic (cp_policy c)) f) cs"
  obtain geoSets bindings where geo: "compileGeoSets digest f fpol = (geoSets, bindings)" by fastforce
  have "distinct (map (\<lambda>c. po_Name (cp_policy c)) fpol)" using names by (simp add: fpol_def distinct_map_filter)
  note gok = compileGeoSets_ok [OF this geo]
  have ids: "\<exists>name. ps_ID s = ''geo/'' @ name" if "s \<in> set geoSets" for s using gok(3) [OF that] by blast
  have sets: "fp_Sets plan =
      (if set_Len (allowFamily allow f) \<noteq> 0
       then [\<lparr>ps_ID = ''global_allowlist'', ps_Kind = StaticSet, ps_Prefixes = set_Prefixes (allowFamily allow f)\<rparr>] else []) @
      (if set_Len (allowFamily block f) \<noteq> 0
       then [\<lparr>ps_ID = ''global_blocklist'', ps_Kind = StaticSet, ps_Prefixes = set_Prefixes (allowFamily block f)\<rparr>] else []) @
      (if crowdsec then [\<lparr>ps_ID = ''crowdsec'', ps_Kind = DynamicCrowdSecSet, ps_Prefixes = []\<rparr>] else []) @
      (if length fpol \<noteq> 0
       then [\<lparr>ps_ID = ''geo_eligible'', ps_Kind = StaticSet, ps_Prefixes = set_Prefixes (GeoEligible f)\<rparr>] else []) @ geoSets"
    by (simp add: plan_def compileFamily_def Let_def fpol_def [symmetric] geo)
  have "\<forall>s\<in>set geoSets. ps_ID s \<notin> {''global_allowlist'', ''global_blocklist'', ''crowdsec'', ''geo_eligible''}"
    using ids by fastforce
  then have dist: "distinct (map ps_ID (fp_Sets plan))" using gok(1) unfolding sets by force
  have rules: "ma_SetID (ru_Match r) \<in> ps_ID ` set geoSets \<or> ma_SetID (ru_Match r) = ''''"
    if "c \<in> set fpol" "r \<in> set (policy_rules f bindings deny c)" for c r
    using that gok(4) [OF that(1)]
    by (auto simp: policy_rules_def Let_def return_rule_def deny_rule_def zero_match_def split: option.splits if_splits)
  have "ma_SetID (ru_Match r) = '''' \<or> ma_SetID (ru_Match r) \<in> ps_ID ` set (fp_Sets plan)"
    if path: "path \<in> set (fp_Paths plan)" and r: "r \<in> set (pa_Rules path)" for path r
  proof -
    obtain d rf cr where p: "path = compilePath d rf f (allowFamily allow f) (allowFamily block f) fpol bindings cr deny"
        "cr \<longrightarrow> crowdsec"
      using path by (auto simp: plan_def compileFamily_def Let_def fpol_def [symmetric] geo)
    show ?thesis
    proof (cases "\<exists>c\<in>set fpol. r \<in> set (policy_rules f bindings deny c)")
      case True
      then show ?thesis using rules unfolding sets by auto
    next
      case False
      then have "\<forall>c\<in>set fpol. r \<notin> set (policy_rules f bindings deny c)" by blast
      from compilePath_rules [OF r [unfolded p(1)] this] p(2) show ?thesis unfolding sets by auto
    qed
  qed
  then show ?thesis using dist by blast
qed

text \<open>
  (C14) Every set a compiled rule refers to exists exactly once in its plan: set identifiers are
  unique, and no rule names a set that the plan does not carry.
\<close>

theorem Compile_references:
  assumes compiled: "Compile digest cfg snapshot = Inr st" "snapshot_ok snapshot" and plan: "plan \<in> set (state_Families st)"
  shows "distinct (map ps_ID (fp_Sets plan)) \<and>
    (\<forall>path\<in>set (fp_Paths plan). \<forall>r\<in>set (pa_Rules path).
       ma_SetID (ru_Match r) = '''' \<or> ma_SetID (ru_Match r) \<in> ps_ID ` set (fp_Sets plan))"
proof (rule Compile_Inr [OF compiled(1)], goal_cases)
  case (1 deny allow block cs)
  have "plan = compileFamily digest (fp_Family plan) allow block cs (cs_Enabled (cg_CrowdSec cfg)) deny"
    using 1(6) plan by (auto split: if_splits)
  then show ?case using compileFamily_references [OF compiled_names [OF 1(5) compiled(2)]] by metis
qed

theorem Compile_references_witness:
  "let cfg = zero_config\<lparr>cg_Firewall := (cg_Firewall zero_config)\<lparr>fw_DenyAction := ''drop'', fw_IPv6 := True\<rparr>,
         cg_CrowdSec := (cg_CrowdSec zero_config)\<lparr>cs_Enabled := True\<rparr>\<rparr>
   in \<exists>st plan. Compile length cfg \<lparr>sn_entries = []\<rparr> = Inr st \<and> plan \<in> set (state_Families st) \<and>
        distinct (map ps_ID (fp_Sets plan))"
proof -
  define cfg where "cfg = zero_config\<lparr>cg_Firewall := (cg_Firewall zero_config)\<lparr>fw_DenyAction := ''drop'', fw_IPv6 := True\<rparr>,
         cg_CrowdSec := (cg_CrowdSec zero_config)\<lparr>cs_Enabled := True\<rparr>\<rparr>"
  define plan where "plan = compileFamily length IPv6 empty_set empty_set [] True Drop"
  have new: "set_New [] = Inr empty_set" by code_simp
  have c: "Compile length cfg \<lparr>sn_entries = []\<rparr> = Inr \<lparr>st_families = [plan]\<rparr>"
    by (simp add: Compile_def cfg_def zero_config_def new denyAction_def compilePolicies_def plan_def)
  have snap: "snapshot_ok \<lparr>sn_entries = []\<rparr>" by (simp add: snapshot_ok_def)
  have mem: "plan \<in> set (state_Families \<lparr>st_families = [plan]\<rparr>)" by simp
  show ?thesis unfolding Let_def cfg_def [symmetric] using c mem Compile_references [OF c snap mem] by blast
qed

end
