(* ===== verification/Config_Compile.thy ===== *)
theory Config_Compile
  imports Config_Normalize Policy_Compile
begin

text \<open>
  From a configuration file to compiled rules: what normalisation (\<open>internal/config\<close>) promises
  is what the compiler (\<open>internal/policy\<close>) needs.
\<close>

section \<open>The selectors of a well-formed configuration\<close>

lemma group_countries_ok:
  assumes "\<And>name members. groups name = Some members \<Longrightarrow> group_ok name members" "groups g \<noteq> None \<or> Countries g \<noteq> None"
  shows "group_countries groups g \<noteq> [] \<and> (\<forall>c\<in>set (group_countries groups g). ValidCountry c)"
  using assms Countries_valid [of g] builtin_nonempty [of g]
  by (cases "groups g"; cases "Countries g") (auto simp: group_countries_def group_ok_def list_all_iff)

lemma selectorKeys_total:
  assumes sel: "selection_ok groups ipLists s"
    and groups: "\<And>name members. groups name = Some members \<Longrightarrow> group_ok name members"
    and lists: "\<And>name l. ipLists name = Some l \<Longrightarrow> ValidName name"
  shows "\<exists>keys. selectorKeys s = Inr keys"
proof -
  have e: "set (se_ExpandedCountries s) = set (se_Countries s) \<union> \<Union> (set ` group_countries groups ` set (se_Groups s))"
    and g: "\<forall>g\<in>set (se_Groups s). groups g \<noteq> None \<or> Countries g \<noteq> None"
    using sel by (simp_all add: selection_ok_def list_all_iff)
  have members: "group_countries groups g \<noteq> [] \<and> (\<forall>c\<in>set (group_countries groups g). ValidCountry c)"
    if "g \<in> set (se_Groups s)" for g
    using that g groups by (intro group_countries_ok) auto
  have c: "ValidCountry c" if "c \<in> set (se_Countries s @ se_ExpandedCountries s)" for c
    using that sel e members by (auto simp: selection_ok_def list_all_iff)
  have "set (group_countries groups g) \<subseteq> set (se_ExpandedCountries s)" if "g \<in> set (se_Groups s)" for g
    using that e by auto
  then have "\<not> (se_Groups s \<noteq> [] \<and> se_ExpandedCountries s = [])"
    using members by (cases "se_Groups s") force+
  moreover obtain countries where "map_result (CanonicalSelector Country) (se_Countries s @ se_ExpandedCountries s) = Inr countries"
    using map_result_total [of _ "CanonicalSelector Country"] c by (fastforce simp: CanonicalSelector_def ToUpper_catalogue)
  moreover obtain rirs where "map_result rir_keys (se_RIRs s) = Inr rirs"
  proof -
    have "\<exists>ks. rir_keys r = Inr ks" if "r \<in> set (se_RIRs s)" for r
    proof -
      have "CanonicalSelector RIR r = Inr \<lparr>sl_Kind = RIR, sl_Value = r\<rparr>"
        using that sel by (simp add: selection_ok_def list_all_iff CanonicalSelector_def ToUpper_catalogue)
      moreover obtain ks where "map_result (CanonicalSelector Country) (RIRCountries r) = Inr ks"
        using map_result_total [of "RIRCountries r"] RIR_member_valid by metis
      ultimately show ?thesis by (simp add: rir_keys_def)
    qed
    then show thesis using map_result_total that by metis
  qed
  moreover obtain asns where "map_result (CanonicalSelector ASN) (se_ASNs s) = Inr asns"
    using sel map_result_total [of "se_ASNs s" "CanonicalSelector ASN"]
    by (auto simp: selection_ok_def list_all_iff CanonicalSelector_def)
  moreover obtain ls where "map_result (CanonicalSelector IPList) (se_IPLists s) = Inr ls"
  proof -
    have "\<exists>k. CanonicalSelector IPList l = Inr k" if "l \<in> set (se_IPLists s)" for l
    proof -
      have "ipLists l \<noteq> None" using sel that by (simp add: selection_ok_def list_all_iff)
      then show ?thesis using lists by (auto simp: CanonicalSelector_def)
    qed
    then show thesis using map_result_total that by metis
  qed
  moreover obtain providers where "map_result (CanonicalSelector Provider) (se_Providers s) = Inr providers"
    using sel map_result_total [of "se_Providers s" "CanonicalSelector Provider"]
    by (auto simp: selection_ok_def list_all_iff CanonicalSelector_def)
  ultimately show ?thesis by (simp add: selectorKeys_def)
qed

section \<open>Compiling a normalized configuration\<close>

lemma required_loop_total:
  "\<forall>p\<in>set ps. (\<exists>k. selectorKeys (po_Include p) = Inr k) \<and> (\<exists>k. selectorKeys (po_Exclude p) = Inr k) \<Longrightarrow>
     \<exists>r. required_loop i seen ps = Inr r"
  by (induction ps arbitrary: i seen) fastforce+

lemma config_ok_selectors:
  assumes "config_ok cfg" "p \<in> set (cg_Policies cfg)"
  shows "(\<exists>k. selectorKeys (po_Include p) = Inr k) \<and> (\<exists>k. selectorKeys (po_Exclude p) = Inr k)"
proof -
  have p: "policy_ok (cg_Groups cfg) (cg_IPLists cfg) p"
    using assms by (simp add: config_ok_def policies_ok_def list_all_iff)
  have g: "group_ok name members" if "cg_Groups cfg name = Some members" for name members
    using assms(1) that by (simp add: config_ok_def)
  have l: "ValidName name" if "cg_IPLists cfg name = Some v" for name v
    using assms(1) that by (simp add: config_ok_def)
  have "\<exists>k. selectorKeys s = Inr k" if "selection_ok (cg_Groups cfg) (cg_IPLists cfg) s" for s
    by (rule selectorKeys_total [OF that g l])
  then show ?thesis using p by (simp add: policy_ok_def)
qed

lemma canonical_New: "canonical ps \<Longrightarrow> \<exists>s. set_New ps = Inr s"
  by (intro set_New_total) (auto simp: canonical_def prefix_validate_None dest: pfx_okD)

text \<open>The errors of the policy loop that a well-formed configuration leaves open.\<close>

definition content_error :: "compile_error \<Rightarrow> bool" where
  "content_error e = (resolution_error e \<or> (\<exists>n. e = Empty_selector_set n))"

lemma snapshotUnion_error: "snapshotUnion name sd keys snapshot = Inl e \<Longrightarrow> \<exists>k. e = Missing_selector name sd k"
  by (auto simp: snapshotUnion_def result_bind_Inl dest!: map_result_error split: option.splits)

lemma effective_set_error: "effective_set snapshot p = Inl e \<Longrightarrow> content_error e"
  by (auto simp: effective_set_def content_error_def resolution_error_def result_bind_Inl Let_def
      dest!: snapshotUnion_error split: if_splits)

lemma compile_loop_error:
  assumes "distinct (map po_Name ps)" "set (map po_Name ps) \<inter> set names = {}"
    and "distinct (map (\<lambda>p. (po_Direction p, po_Priority p)) ps)"
    and "set (map (\<lambda>p. (po_Direction p, po_Priority p)) ps) \<inter> fst ` set prios = {}"
    and "\<forall>p\<in>set ps. policy_ok groups ipLists p"
    and "compile_loop snapshot names prios compiled ps = Inl e"
  shows "content_error e"
  using assms
proof (induction ps arbitrary: names prios compiled)
  case (Cons p ps)
  have "map_of prios (po_Direction p, po_Priority p) = None"
    using Cons.prems(4) by (auto simp: map_of_eq_None_iff)
  moreover have "po_Direction p = ''ingress'' \<or> po_Direction p = ''egress''"
    "po_Mode p = ''allowlist'' \<or> po_Mode p = ''blocklist'' \<or> po_Mode p = ''disabled''"
    using Cons.prems(5) by (auto simp: policy_ok_def)
  moreover have "po_Name p \<notin> set names" using Cons.prems(2) by auto
  ultimately have step: "compile_loop snapshot names prios compiled (p # ps) =
    (if po_Mode p = ''disabled''
     then compile_loop snapshot (po_Name p # names) (((po_Direction p, po_Priority p), po_Name p) # prios) compiled ps
     else result_bind (effective_set snapshot p) (\<lambda>effective.
       compile_loop snapshot (po_Name p # names) (((po_Direction p, po_Priority p), po_Name p) # prios)
         (compiled @ [\<lparr>cp_policy = p, cp_included = effective\<rparr>]) ps))"
    by (auto simp: Let_def)
  have rest: "content_error e"
    if "compile_loop snapshot (po_Name p # names) (((po_Direction p, po_Priority p), po_Name p) # prios) c ps = Inl e" for c
    using Cons.prems by (intro Cons.IH [OF _ _ _ _ _ that]) auto
  show ?case
    using Cons.prems(6) rest effective_set_error unfolding step
    by (cases "po_Mode p = ''disabled''") (auto simp: result_bind_Inl)
qed simp

lemma config_compile_error:
  assumes ok: "config_ok cfg" and e: "Compile digest cfg snapshot = Inl e"
  shows "content_error e \<or> e = No_enabled_family"
proof -
  have "canonical (gl_Allowlist (cg_Global cfg))" "canonical (gl_Blocklist (cg_Global cfg))"
    and deny: "fw_DenyAction (cg_Firewall cfg) \<in> {''drop'', ''reject''}" and policies: "policies_ok cfg"
    using ok unfolding config_ok_def firewall_ok_def by simp_all
  then obtain allow block where new: "set_New (gl_Allowlist (cg_Global cfg)) = Inr allow"
    "set_New (gl_Blocklist (cg_Global cfg)) = Inr block"
    using canonical_New by metis
  have "\<exists>a. denyAction (fw_DenyAction (cg_Firewall cfg)) = Inr a" using deny by (auto simp: denyAction_def)
  let ?ps = "sort_slice policy_order (cg_Policies cfg)" and ?key = "\<lambda>p. (po_Direction p, po_Priority p)"
  have p: "\<forall>p\<in>set ?ps. policy_ok (cg_Groups cfg) (cg_IPLists cfg) p" "distinct (map po_Name (cg_Policies cfg))"
    using policies by (simp_all add: policies_ok_def list_all_iff)
  have k: "distinct (map ?key (cg_Policies cfg))"
    using policies strict_sorted_distinct_key [of ?key "cg_Policies cfg"] unfolding policies_ok_def by blast
  have d: "distinct (map po_Name ?ps)" "distinct (map ?key ?ps)"
    using p(2) k distinct_map_sort_slice by blast+
  have "content_error e" if "compilePolicies (cg_Policies cfg) snapshot = Inl e"
    using compile_loop_error [OF d(1) _ d(2) _ p(1) that [unfolded compilePolicies_def]] by simp
  then show ?thesis
    using e \<open>\<exists>a. denyAction _ = Inr a\<close> unfolding Compile_def new wrap_error.simps
    by (auto simp: result_bind_Inl Let_def split: if_split_asm)
qed

section \<open>Properties\<close>

text \<open>
  (C37) Normalisation and compilation fit together: the selectors of an accepted configuration
  always resolve, and with a snapshot of them compilation fails in only two ways, a policy whose
  selected address set is empty or no enabled address family.
\<close>

theorem normalized_compiles:
  assumes "normalize_config lib raw = Inr cfg"
  shows "\<exists>sels. RequiredSelectors cfg = Inr sels \<and>
    (\<forall>snapshot e. (\<forall>s\<in>set sels. snapshot_Lookup snapshot s \<noteq> None) \<longrightarrow> Compile digest cfg snapshot = Inl e \<longrightarrow>
      (\<exists>n. e = Empty_selector_set n) \<or> e = No_enabled_family)"
proof -
  have ok: "config_ok cfg" by (rule normalized_config_ok [OF assms])
  obtain seen where "required_loop 0 [] (cg_Policies cfg) = Inr seen"
    using required_loop_total [of "cg_Policies cfg"] config_ok_selectors [OF ok] by blast
  then have sels: "RequiredSelectors cfg = Inr (sortSelectors (remdups seen))" by (simp add: RequiredSelectors_def)
  show ?thesis
    using sels config_compile_error [OF ok] required_suffice [OF sels] unfolding content_error_def by blast
qed


theorem normalized_compiles_witness:
  "\<exists>cfg. normalize_config sample_lib sample_raw = Inr cfg \<and> (\<exists>sels. RequiredSelectors cfg = Inr sels)"
proof -
  obtain cfg where c: "normalize_config sample_lib sample_raw = Inr cfg" using sample_normalizes by blast
  from c normalized_compiles [OF c, of length] show ?thesis by blast
qed

text \<open>A flow from a private address that a policy and the blocklist would deny.\<close>

definition local_flow :: Flow where
  "local_flow = \<lparr>fl_Source = IP4 0x0A000001, fl_Destination = NoAddr, fl_Protocol = ''icmp'', fl_Port = 0, fl_New = True,
     fl_Established = False\<rparr>"

definition local_raw :: rawConfig where
  "local_raw = sample_raw\<lparr>rcg_Policies := [], rcg_Groups := [],
     rcg_Global := Some \<lparr>rg_Allowlist = None, rg_Blocklist = Some [''10.0.0.1'']\<rparr>\<rparr>"


end
