(* ===== verification/Source_Records.thy ===== *)
theory Source_Records
  imports Config_Compile
begin

text \<open>
  What a source result is and which configuration it belongs to: \<open>internal/source/source.go\<close>
  (selector descriptions, required identities, \<open>ValidateConfig\<close>), the matching functions of
  \<open>internal/source/resolve.go\<close>, \<open>internal/source/dbip_metadata.go\<close> and
  \<open>internal/upstream/binding.go\<close>.

  A Go map with string keys is an association list with distinct keys; instants are nanosecond
  counts with 0 for the zero time. URL handling and number printing of the standard library are
  arguments, as in the configuration theories.
\<close>

section \<open>Bindings\<close>

record Binding =
  bi_Type :: string
  bi_Identity :: string
  bi_IdentityGeneration :: string
  bi_Service :: string

definition zero_binding :: Binding where
  "zero_binding = \<lparr>bi_Type = '''', bi_Identity = '''', bi_IdentityGeneration = '''', bi_Service = ''''\<rparr>"

abbreviation TypeDirect :: string where "TypeDirect \<equiv> ''direct''"
abbreviation TypeOpenZiti :: string where "TypeOpenZiti \<equiv> ''openziti''"

text \<open>
  \<open>hex.DecodeString\<close> accepts hexadecimal digits of either case; lower case leaves such a text
  alone when it has no capital letter.
\<close>

definition validGeneration :: "string \<Rightarrow> bool" where
  "validGeneration v =
     (length v = 64 \<and> list_all (\<lambda>c. hex_value c \<noteq> None) v \<and> list_all (\<lambda>c. \<not> (CHR ''A'' \<le> c \<and> c \<le> CHR ''Z'')) v)"

datatype binding_error = Direct_with_identity | Identity_required | Service_required | Malformed_generation
  | Unsupported_binding string

definition binding_Validate :: "Binding \<Rightarrow> binding_error option" where
  "binding_Validate b =
     (if bi_Type b = TypeDirect then
        (if bi_Identity b \<noteq> '''' \<or> bi_IdentityGeneration b \<noteq> '''' \<or> bi_Service b \<noteq> '''' then Some Direct_with_identity
         else None)
      else if bi_Type b = TypeOpenZiti then
        (if blank (bi_Identity b) then Some Identity_required
         else if blank (bi_Service b) then Some Service_required
         else if \<not> validGeneration (bi_IdentityGeneration b) then Some Malformed_generation
         else None)
      else Some (Unsupported_binding (bi_Type b)))"

definition binding_MatchesConfig :: "Binding \<Rightarrow> TransportConfig \<Rightarrow> bool" where
  "binding_MatchesConfig b route =
     (let routeType = (if tc_Type route = '''' then TypeDirect else tc_Type route) in
      if routeType \<noteq> bi_Type b then False
      else if routeType = TypeDirect then tc_Identity route = '''' \<and> tc_Service route = '''' \<and> binding_Validate b = None
      else bi_Identity b = tc_Identity route \<and> bi_Service b = tc_Service route \<and> binding_Validate b = None)"

definition isDirectBinding :: "Binding \<Rightarrow> bool" where
  "isDirectBinding b = (bi_Type b = '''' \<or> bi_Type b = TypeDirect)"

definition bindingMatchesConfig :: "Binding \<Rightarrow> TransportConfig \<Rightarrow> bool" where
  "bindingMatchesConfig b route =
     (if tc_Type route = '''' \<or> tc_Type route = TypeDirect
      then isDirectBinding b \<and> binding_MatchesConfig (zero_binding\<lparr>bi_Type := TypeDirect\<rparr>) route
      else binding_MatchesConfig b route)"

definition canonicalBinding :: "Binding \<Rightarrow> binding_error + Binding" where
  "canonicalBinding b =
     (if bi_Type b = '''' \<or> bi_Type b = TypeDirect then
        (if bi_Identity b \<noteq> '''' \<or> bi_IdentityGeneration b \<noteq> '''' \<or> bi_Service b \<noteq> '''' then Inl Direct_with_identity
         else Inr zero_binding)
      else if bi_Type b \<noteq> TypeOpenZiti then Inl (Unsupported_binding (bi_Type b))
      else (case binding_Validate b of Some e \<Rightarrow> Inl e | None \<Rightarrow> Inr b))"

section \<open>Selector descriptions\<close>

abbreviation ripeSourceKind :: string where "ripeSourceKind \<equiv> ''ripestat''"
abbreviation listSourceKind :: string where "listSourceKind \<equiv> ''ip_list''"
abbreviation providerSourceKind :: string where "providerSourceKind \<equiv> ''provider''"
abbreviation listFormatVersion :: string where "listFormatVersion \<equiv> ''1''"
abbreviation csvFormatVersion :: string where "csvFormatVersion \<equiv> ''csv-1''"
abbreviation dbipSourceKind :: string where "dbipSourceKind \<equiv> ''dbip-lite''"
abbreviation dbipFormatVersion :: string where "dbipFormatVersion \<equiv> ''dbip-country-csv-1''"

definition countryEndpoint :: string where
  "countryEndpoint = ''https://stat.ripe.net/data/country-resource-list/data.json''"

definition asnEndpoint :: string where
  "asnEndpoint = ''https://stat.ripe.net/data/announced-prefixes/data.json''"

definition endpointVersions :: "string \<Rightarrow> string" where
  "endpointVersions e = (if e = countryEndpoint then ''0.2'' else if e = asnEndpoint then ''1.2'' else '''')"

record SelectorSpec =
  ss_RefreshInterval :: duration
  ss_RequestTimeout :: duration
  ss_RefreshJitter :: duration
  ss_Transport :: TransportConfig
  ss_Endpoint :: string
  ss_SourceKind :: string
  ss_SourceName :: string
  ss_APIVersion :: string
  ss_Parameters :: "(string \<times> string) list"

definition zero_spec :: SelectorSpec where
  "zero_spec = \<lparr>ss_RefreshInterval = 0, ss_RequestTimeout = 0, ss_RefreshJitter = 0, ss_Transport = zero_transport,
     ss_Endpoint = '''', ss_SourceKind = '''', ss_SourceName = '''', ss_APIVersion = '''', ss_Parameters = []\<rparr>"

datatype source_error =
    Selectors_unresolved "nat \<times> side \<times> keys_error"
  | List_not_configured string
  | List_url string
  | List_csv string config_error
  | Provider_id string
  | Selector_kind string
  | Unknown_identity "string option" string
  | Unsupported_transport "string option" string
  | Coverage_mismatch
  | Identity_mismatch string string
  | Inconsistent_providers
  | DBIP_record nat
  | Inconsistent_batch

definition csv_IsZero :: "CSVConfig \<Rightarrow> bool" where
  "csv_IsZero c = (cv_Delimiter c = '''' \<and> \<not> cv_Header c \<and> cv_IPColumn c = 0 \<and> filter_IsZero (cv_Filter c))"

definition providerEndpoint :: "string \<Rightarrow> source_error + string" where
  "providerEndpoint i =
     (if \<not> ValidProviderID i then Inl (Provider_id i)
      else Inr (''https://cdn.jsdelivr.net/gh/rezmoss/cloud-provider-ip-addresses@main/'' @ i @ ''/'' @ i @ ''_ips_merged.txt''))"

definition DescribeSelector ::
  "golib \<Rightarrow> (float64 \<Rightarrow> string) \<Rightarrow> Config \<Rightarrow> Selector \<Rightarrow> source_error + SelectorSpec" where
  "DescribeSelector lib FormatFloat cfg selector =
     (let geo = zero_spec\<lparr>ss_RefreshInterval := ge_RefreshInterval (cg_Geo cfg), ss_RequestTimeout := ge_RequestTimeout (cg_Geo cfg),
            ss_RefreshJitter := ge_RefreshJitter (cg_Geo cfg)\<rparr> in
      if sl_Kind selector = IPList then
        (case cg_IPLists cfg (sl_Value selector) of
           None \<Rightarrow> Inl (List_not_configured (sl_Value selector))
         | Some l \<Rightarrow>
             (case NormalizeIPListURL lib (il_URL l) of
                Inl _ \<Rightarrow> Inl (List_url (sl_Value selector))
              | Inr endpoint \<Rightarrow>
                  result_bind
                    (if csv_IsZero (il_CSV l) then Inr ([], listFormatVersion)
                     else
                       (case csv_Parameters FormatFloat (il_CSV l) of
                          Inl e \<Rightarrow> Inl (List_csv (sl_Value selector) e)
                        | Inr parameters \<Rightarrow> Inr (parameters, csvFormatVersion)))
                    (\<lambda>(parameters, version).
                      Inr (zero_spec\<lparr>ss_RefreshInterval := il_RefreshInterval l, ss_RequestTimeout := il_RequestTimeout l,
                        ss_Transport := il_Transport l, ss_Endpoint := endpoint, ss_SourceKind := listSourceKind,
                        ss_SourceName := sl_Value selector, ss_APIVersion := version, ss_Parameters := parameters\<rparr>))))
      else if sl_Kind selector = Provider then
        result_bind (providerEndpoint (sl_Value selector)) (\<lambda>endpoint.
          Inr (zero_spec\<lparr>ss_RefreshInterval := pv_RefreshInterval (cg_Providers cfg),
            ss_RequestTimeout := pv_RequestTimeout (cg_Providers cfg), ss_Endpoint := endpoint,
            ss_SourceKind := providerSourceKind, ss_SourceName := sl_Value selector, ss_APIVersion := listFormatVersion\<rparr>))
      else if sl_Kind selector = Country then
        (if EffectiveCountryProvider (cg_Geo cfg) = CountryProviderDBIPLite
         then Inr (geo\<lparr>ss_SourceKind := dbipSourceKind, ss_APIVersion := dbipFormatVersion\<rparr>)
         else Inr (geo\<lparr>ss_Endpoint := countryEndpoint, ss_SourceKind := ripeSourceKind,
           ss_APIVersion := endpointVersions countryEndpoint\<rparr>))
      else if sl_Kind selector = ASN then
        Inr (geo\<lparr>ss_Endpoint := asnEndpoint, ss_SourceKind := ripeSourceKind, ss_APIVersion := endpointVersions asnEndpoint\<rparr>)
      else Inl (Selector_kind (sl_Kind selector)))"

section \<open>Required identities\<close>

text \<open>
  The label of a transport is the name of its list, or \<open>None\<close> for CrowdSec; the result is the
  map from identity names to profiles.
\<close>

definition add_identity ::
  "Config \<Rightarrow> string option \<Rightarrow> TransportConfig \<Rightarrow> (string \<times> OpenZitiIdentityConfig) list \<Rightarrow>
   source_error + (string \<times> OpenZitiIdentityConfig) list" where
  "add_identity cfg label transport required =
     (if tc_Type transport = '''' \<or> tc_Type transport = TypeDirect then Inr required
      else if tc_Type transport = TypeOpenZiti then
        (case oz_Identities (cg_OpenZiti cfg) (tc_Identity transport) of
           None \<Rightarrow> Inl (Unknown_identity label (tc_Identity transport))
         | Some profile \<Rightarrow> Inr (map_put (tc_Identity transport) profile required))
      else Inl (Unsupported_transport label (tc_Type transport)))"

fun identities_loop ::
  "Config \<Rightarrow> (string \<times> OpenZitiIdentityConfig) list \<Rightarrow> Selector list \<Rightarrow>
   source_error + (string \<times> OpenZitiIdentityConfig) list" where
  "identities_loop cfg required [] = Inr required"
| "identities_loop cfg required (selector # rest) =
     (if sl_Kind selector \<noteq> IPList then identities_loop cfg required rest
      else
        (case cg_IPLists cfg (sl_Value selector) of
           None \<Rightarrow> Inl (List_not_configured (sl_Value selector))
         | Some l \<Rightarrow>
             result_bind (add_identity cfg (Some (sl_Value selector)) (il_Transport l) required) (\<lambda>required.
               identities_loop cfg required rest)))"

definition RequiredIdentities :: "Config \<Rightarrow> source_error + (string \<times> OpenZitiIdentityConfig) list" where
  "RequiredIdentities cfg =
     result_bind (wrap_error Selectors_unresolved (RequiredSelectors cfg)) (\<lambda>selectors.
     result_bind (identities_loop cfg [] selectors) (\<lambda>required.
       if cs_Enabled (cg_CrowdSec cfg) then add_identity cfg None (cs_Transport (cg_CrowdSec cfg)) required else Inr required))"

section \<open>Records\<close>

record Record =
  sr_Selector :: Selector
  sr_SourceKind :: string
  sr_SourceName :: string
  sr_Endpoint :: string
  sr_APIVersion :: string
  sr_Release :: string
  sr_Parameters :: "(string \<times> string) list"
  sr_QueryStart :: int
  sr_QueryEnd :: int
  sr_RetrievedAt :: int
  sr_IPv4 :: "prefix list"
  sr_IPv6 :: "prefix list"
  sr_Transport :: Binding

text \<open>\<open>maps.Equal\<close>, and the lookup that gives the empty string for a missing key.\<close>

definition maps_Equal :: "(string \<times> string) list \<Rightarrow> (string \<times> string) list \<Rightarrow> bool" where
  "maps_Equal a b = (length a = length b \<and> list_all (\<lambda>(k, v). map_of b k = Some v) a)"

definition parameter :: "Record \<Rightarrow> string \<Rightarrow> string" where
  "parameter r k = (case map_of (sr_Parameters r) k of None \<Rightarrow> '''' | Some v \<Rightarrow> v)"

definition dbipEndpoint :: "string \<Rightarrow> string" where
  "dbipEndpoint release = ''https://download.db-ip.com/free/dbip-country-lite-'' @ release @ ''.csv.gz''"

text \<open>
  A release that \<open>time.Parse("2006-01", ...)\<close> reads, that prints as itself, and whose year is
  not zero: four digits, a dash, and a month from 01 to 12.
\<close>

definition canonical_release :: "string \<Rightarrow> bool" where
  "canonical_release v =
     (length v = 7 \<and> list_all is_digit (take 4 v) \<and> v ! 4 = CHR ''-'' \<and> list_all is_digit (drop 5 v) \<and>
      0 < digits_value (take 4 v) \<and> 1 \<le> digits_value (drop 5 v) \<and> digits_value (drop 5 v) \<le> 12)"

definition validateCacheID :: "string \<Rightarrow> bool" where
  "validateCacheID v = (length v = 64 \<and> list_all (\<lambda>c. is_digit c \<or> CHR ''a'' \<le> c \<and> c \<le> CHR ''f'') v)"

definition validateDBIPRecord :: "Record \<Rightarrow> bool" where
  "validateDBIPRecord r =
     (case CanonicalSelector (sl_Kind (sr_Selector r)) (sl_Value (sr_Selector r)) of
        Inl _ \<Rightarrow> False
      | Inr selector \<Rightarrow>
          selector = sr_Selector r \<and> sl_Kind selector = Country \<and>
          sr_SourceKind r = dbipSourceKind \<and> sr_SourceName r = '''' \<and> sr_APIVersion r = dbipFormatVersion \<and>
          canonical_release (sr_Release r) \<and> sr_Endpoint r = dbipEndpoint (sr_Release r) \<and>
          length (sr_Parameters r) = 2 \<and> parameter r ''resource'' = sl_Value selector \<and>
          validateCacheID (parameter r ''sha256'') \<and>
          sr_QueryStart r = 0 \<and> sr_QueryEnd r = 0 \<and> sr_RetrievedAt r \<noteq> 0 \<and>
          (case canonicalBinding (sr_Transport r) of Inl _ \<Rightarrow> False | Inr b \<Rightarrow> bi_Type b = ''''))"

definition record_provider :: "Record \<Rightarrow> string" where
  "record_provider r = (if sr_SourceKind r = '''' then ripeSourceKind else sr_SourceKind r)"

fun batch_loop :: "nat \<Rightarrow> Record option \<Rightarrow> string \<Rightarrow> Record list \<Rightarrow> source_error option" where
  "batch_loop i first countryProvider [] = None"
| "batch_loop i first countryProvider (r # rest) =
     (if sl_Kind (sr_Selector r) = Country \<and> countryProvider \<noteq> '''' \<and> countryProvider \<noteq> record_provider r
      then Some Inconsistent_providers
      else
        (let countryProvider = (if sl_Kind (sr_Selector r) = Country then record_provider r else countryProvider) in
         if sr_SourceKind r \<noteq> dbipSourceKind then batch_loop (Suc i) first countryProvider rest
         else if \<not> validateDBIPRecord r then Some (DBIP_record i)
         else
           (case first of
              None \<Rightarrow> batch_loop (Suc i) (Some r) countryProvider rest
            | Some f \<Rightarrow>
                if sr_Release r \<noteq> sr_Release f \<or> parameter r ''sha256'' \<noteq> parameter f ''sha256'' \<or>
                   sr_RetrievedAt r \<noteq> sr_RetrievedAt f
                then Some Inconsistent_batch
                else batch_loop (Suc i) first countryProvider rest)))"

definition validateDBIPBatch :: "Record list \<Rightarrow> source_error option" where
  "validateDBIPBatch records = batch_loop 0 None '''' records"

definition recordMatchesConfig :: "golib \<Rightarrow> (float64 \<Rightarrow> string) \<Rightarrow> Record \<Rightarrow> Config \<Rightarrow> bool" where
  "recordMatchesConfig lib FormatFloat r cfg =
     (case DescribeSelector lib FormatFloat cfg (sr_Selector r) of
        Inl _ \<Rightarrow> False
      | Inr spec \<Rightarrow>
          (let kind = sl_Kind (sr_Selector r) in
           if kind = Country \<and> ss_SourceKind spec = dbipSourceKind then validateDBIPRecord r
           else if sr_Release r \<noteq> '''' then False
           else if kind = IPList then
             sr_SourceKind r = ss_SourceKind spec \<and> sr_SourceName r = ss_SourceName spec \<and>
             sr_Endpoint r = ss_Endpoint spec \<and> sr_APIVersion r = ss_APIVersion spec \<and>
             maps_Equal (sr_Parameters r) (ss_Parameters spec) \<and> bindingMatchesConfig (sr_Transport r) (ss_Transport spec)
           else if kind = Provider then
             sr_SourceKind r = ss_SourceKind spec \<and> sr_SourceName r = ss_SourceName spec \<and>
             sr_Endpoint r = ss_Endpoint spec \<and> sr_APIVersion r = ss_APIVersion spec \<and> isDirectBinding (sr_Transport r)
           else if kind = Country \<or> kind = ASN then
             (if sr_SourceKind r \<noteq> '''' \<and> sr_SourceKind r \<noteq> ss_SourceKind spec then False
              else sr_Endpoint r = ss_Endpoint spec \<and> sr_APIVersion r = ss_APIVersion spec \<and> isDirectBinding (sr_Transport r))
           else False))"

section \<open>Snapshots\<close>

record source_Snapshot =
  sn_manifest :: string
  sn_policy :: Snapshot
  sn_records :: "Record list"
  sn_oldest :: int

fun coverage_loop ::
  "golib \<Rightarrow> (float64 \<Rightarrow> string) \<Rightarrow> Config \<Rightarrow> Record list \<Rightarrow> Selector list \<Rightarrow> source_error option" where
  "coverage_loop lib FormatFloat cfg (r # records) (selector # required) =
     (if sr_Selector r \<noteq> selector then Some Coverage_mismatch
      else if \<not> recordMatchesConfig lib FormatFloat r cfg then Some (Identity_mismatch (sl_Kind selector) (sl_Value selector))
      else coverage_loop lib FormatFloat cfg records required)"
| "coverage_loop lib FormatFloat cfg _ _ = None"

definition snapshot_ValidateConfig ::
  "golib \<Rightarrow> (float64 \<Rightarrow> string) \<Rightarrow> source_Snapshot \<Rightarrow> Config \<Rightarrow> source_error option" where
  "snapshot_ValidateConfig lib FormatFloat s cfg =
     (case RequiredSelectors cfg of
        Inl e \<Rightarrow> Some (Selectors_unresolved e)
      | Inr required \<Rightarrow>
          if length (sn_records s) \<noteq> length required then Some Coverage_mismatch
          else
            (case coverage_loop lib FormatFloat cfg (sn_records s) required of
               Some e \<Rightarrow> Some e
             | None \<Rightarrow> validateDBIPBatch (sn_records s)))"

end
