(* ===== verification/Crowdsec_Store.thy ===== *)
theory Crowdsec_Store
  imports Prefix_Set
begin

text \<open>
  \<open>internal/crowdsec/store.go\<close>: the authoritative set of CrowdSec decisions.

  Instants are nanosecond counts from the zero \<open>time.Time\<close>, which is 0, so
  \<open>After\<close>, \<open>Before\<close>, \<open>Equal\<close> and \<open>IsZero\<close> are comparisons of integers. Sequences,
  epochs and revisions keep their 64 bits. A method returns the store it leaves behind
  together with its error, so that an error path that touched the store would show; a nil
  receiver is \<open>None\<close>.
\<close>

type_synonym instant = int

section \<open>The store\<close>

record Decision =
  de_ID :: int
  de_Prefix :: prefix
  de_Deadline :: instant

record Batch =
  ba_Startup :: bool
  ba_New :: "Decision list"
  ba_Deleted :: "int list"

record retainedDecision =
  rd_decision :: Decision
  rd_sequence :: "64 word"

record Store =
  so_endpoint :: string
  so_epoch :: "64 word"
  so_revision :: "64 word"
  so_decisions :: "(int \<times> retainedDecision) list"
  so_lastSequence :: "64 word"
  so_hasSequence :: bool

definition NewStore :: "string \<Rightarrow> 64 word \<Rightarrow> Store" where
  "NewStore endpoint epoch =
     \<lparr>so_endpoint = endpoint, so_epoch = epoch, so_revision = 0, so_decisions = [],
      so_lastSequence = 0, so_hasSequence = False\<rparr>"

definition store_Endpoint :: "Store option \<Rightarrow> string" where
  "store_Endpoint s = (case s of None \<Rightarrow> '''' | Some s \<Rightarrow> so_endpoint s)"

definition store_Epoch :: "Store option \<Rightarrow> 64 word" where
  "store_Epoch s = (case s of None \<Rightarrow> 0 | Some s \<Rightarrow> so_epoch s)"

definition store_Revision :: "Store option \<Rightarrow> 64 word" where
  "store_Revision s = (case s of None \<Rightarrow> 0 | Some s \<Rightarrow> so_revision s)"

definition cmpInt64 :: "int \<Rightarrow> int \<Rightarrow> int" where
  "cmpInt64 a b = (if a < b then -1 else if b < a then 1 else 0)"

definition store_Decisions :: "Store option \<Rightarrow> Decision list" where
  "store_Decisions s =
     (case s of
        None \<Rightarrow> []
      | Some s \<Rightarrow>
          if length (so_decisions s) = 0 then []
          else sort_slice (\<lambda>a b. cmpInt64 (de_ID a) (de_ID b) < 0)
                 (map (\<lambda>e. rd_decision (snd e)) (so_decisions s)))"

definition store_CountFamilies :: "Store option \<Rightarrow> instant \<Rightarrow> nat \<times> nat" where
  "store_CountFamilies s now =
     (case s of
        None \<Rightarrow> (0, 0)
      | Some s \<Rightarrow>
          foldl (\<lambda>(ipv4, ipv6) (_, retained).
              if \<not> now < de_Deadline (rd_decision retained) then (ipv4, ipv6)
              else if Is4 (pAddr (de_Prefix (rd_decision retained))) then (Suc ipv4, ipv6)
              else (ipv4, Suc ipv6))
            (0, 0) (so_decisions s))"

section \<open>Admitting a batch\<close>

datatype store_error =
    Nil_store
  | Zero_sequence
  | Stale_sequence "64 word" "64 word"
  | Revision_exhausted
  | Invalid_deleted_ID int
  | Invalid_decision_ID int
  | Invalid_decision_prefix nat
  | Zero_deadline nat
  | Duplicate_decision_ID int

fun validate_deleted :: "int list \<Rightarrow> store_error option" where
  "validate_deleted [] = None"
| "validate_deleted (i # rest) = (if i \<le> 0 then Some (Invalid_deleted_ID i) else validate_deleted rest)"

definition decision_prefix_ok :: "prefix \<Rightarrow> bool" where
  "decision_prefix_ok p =
     (\<not> (\<not> prefix_IsValid p \<or> p \<noteq> prefix_Masked p \<or> Zone (pAddr p) \<noteq> '''' \<or> Is4In6 (pAddr p)))"

fun validate_new :: "int list \<Rightarrow> nat \<Rightarrow> Decision list \<Rightarrow> store_error option" where
  "validate_new seen index [] = None"
| "validate_new seen index (decision # rest) =
     (if de_ID decision \<le> 0 then Some (Invalid_decision_ID (de_ID decision))
      else if \<not> decision_prefix_ok (de_Prefix decision) then Some (Invalid_decision_prefix index)
      else if de_Deadline decision = 0 then Some (Zero_deadline index)
      else if de_ID decision \<in> set seen then Some (Duplicate_decision_ID (de_ID decision))
      else validate_new (de_ID decision # seen) (Suc index) rest)"

definition validateBatch :: "Batch \<Rightarrow> store_error option" where
  "validateBatch batch =
     (case validate_deleted (ba_Deleted batch) of
        Some e \<Rightarrow> Some e
      | None \<Rightarrow> validate_new [] 0 (ba_New batch))"

definition batchChanges :: "(int \<times> retainedDecision) list \<Rightarrow> Batch \<Rightarrow> 64 word \<Rightarrow> instant \<Rightarrow> bool" where
  "batchChanges decisions batch sequence now =
     (if ba_Startup batch then
        length decisions \<noteq> 0 \<or> (\<exists>decision\<in>set (ba_New batch). now < de_Deadline decision)
      else
        (\<exists>(_, retained)\<in>set decisions. \<not> now < de_Deadline (rd_decision retained)) \<or>
        (\<exists>i\<in>set (ba_Deleted batch). map_of decisions i \<noteq> None) \<or>
        (\<exists>decision\<in>set (ba_New batch).
           case map_of decisions (de_ID decision) of
             Some retained \<Rightarrow>
               rd_sequence retained \<noteq> sequence \<or> de_Prefix (rd_decision retained) \<noteq> de_Prefix decision \<or>
               de_Deadline (rd_decision retained) \<noteq> de_Deadline decision
           | None \<Rightarrow> now < de_Deadline decision))"

definition drop_expired :: "instant \<Rightarrow> (int \<times> retainedDecision) list \<Rightarrow> (int \<times> retainedDecision) list" where
  "drop_expired now decisions = filter (\<lambda>e. now < de_Deadline (rd_decision (snd e))) decisions"

definition admit :: "64 word \<Rightarrow> instant \<Rightarrow> Decision \<Rightarrow> (int \<times> retainedDecision) list \<Rightarrow> (int \<times> retainedDecision) list" where
  "admit sequence now decision decisions =
     (if now < de_Deadline decision
      then map_put (de_ID decision) \<lparr>rd_decision = decision, rd_sequence = sequence\<rparr> decisions
      else map_delete (de_ID decision) decisions)"

definition applied_decisions ::
  "Batch \<Rightarrow> 64 word \<Rightarrow> instant \<Rightarrow> (int \<times> retainedDecision) list \<Rightarrow> (int \<times> retainedDecision) list" where
  "applied_decisions batch sequence now decisions =
     fold (admit sequence now) (ba_New batch)
       (fold map_delete (ba_Deleted batch)
         (if ba_Startup batch then [] else drop_expired now decisions))"

definition store_Apply :: "Store option \<Rightarrow> Batch \<Rightarrow> 64 word \<Rightarrow> instant \<Rightarrow> Store option \<times> store_error option" where
  "store_Apply s' batch sequence now =
     (case s' of
        None \<Rightarrow> (None, Some Nil_store)
      | Some s \<Rightarrow>
          if sequence = 0 then (s', Some Zero_sequence)
          else if so_hasSequence s \<and> sequence \<le> so_lastSequence s
          then (s', Some (Stale_sequence sequence (so_lastSequence s)))
          else case validateBatch batch of
            Some e \<Rightarrow> (s', Some e)
          | None \<Rightarrow>
              (let changed = batchChanges (so_decisions s) batch sequence now in
               if changed \<and> so_revision s = NOT 0 then (s', Some Revision_exhausted)
               else
                 (Some (s\<lparr>so_decisions := applied_decisions batch sequence now (so_decisions s),
                          so_lastSequence := sequence, so_hasSequence := True,
                          so_revision := (if changed then so_revision s + 1 else so_revision s)\<rparr>),
                  None)))"

section \<open>Expiry\<close>

definition store_Expire :: "Store option \<Rightarrow> instant \<Rightarrow> Store option \<times> bool" where
  "store_Expire s' now =
     (case s' of
        None \<Rightarrow> (None, False)
      | Some s \<Rightarrow>
          if length (so_decisions s) = 0 then (s', False)
          else if so_revision s = NOT 0 then (s', False)
          else
            (let changed = (\<exists>(_, retained)\<in>set (so_decisions s). \<not> now < de_Deadline (rd_decision retained)) in
             (Some (s\<lparr>so_decisions := drop_expired now (so_decisions s),
                      so_revision := (if changed then so_revision s + 1 else so_revision s)\<rparr>),
              changed)))"

definition store_NextExpiry :: "Store option \<Rightarrow> instant" where
  "store_NextExpiry s =
     (case s of
        None \<Rightarrow> 0
      | Some s \<Rightarrow>
          foldl (\<lambda>next (_, retained).
              if next = 0 \<or> de_Deadline (rd_decision retained) < next then de_Deadline (rd_decision retained) else next)
            0 (so_decisions s))"

section \<open>The state machine\<close>

text \<open>Everything that happens to a store after \<open>NewStore\<close>: batches and expiry, in any order.\<close>

inductive store_step :: "Store \<Rightarrow> Store \<Rightarrow> bool" where
  apply_step: "store_Apply (Some s) batch sequence now = (Some s', e) \<Longrightarrow> store_step s s'"
| expire_step: "store_Expire (Some s) now = (Some s', c) \<Longrightarrow> store_step s s'"

inductive store_reachable :: "string \<Rightarrow> 64 word \<Rightarrow> Store \<Rightarrow> bool" for endpoint epoch where
  reach_new: "store_reachable endpoint epoch (NewStore endpoint epoch)"
| reach_step: "store_reachable endpoint epoch s \<Longrightarrow> store_step s s' \<Longrightarrow> store_reachable endpoint epoch s'"

inductive_cases store_stepE: "store_step s s'"

definition retained_ok :: "64 word \<Rightarrow> int \<times> retainedDecision \<Rightarrow> bool" where
  "retained_ok last' entry =
     (case entry of (i, r) \<Rightarrow>
        i = de_ID (rd_decision r) \<and> 0 < i \<and> decision_prefix_ok (de_Prefix (rd_decision r)) \<and>
        de_Deadline (rd_decision r) \<noteq> 0 \<and> 0 < rd_sequence r \<and> rd_sequence r \<le> last')"

definition store_ok :: "Store \<Rightarrow> bool" where
  "store_ok s =
     (map_keys_ok (so_decisions s) \<and> (\<forall>e\<in>set (so_decisions s). retained_ok (so_lastSequence s) e) \<and>
      (\<not> so_hasSequence s \<longrightarrow> so_decisions s = []))"

section \<open>Validation\<close>

definition decision_ok :: "Decision \<Rightarrow> bool" where
  "decision_ok d = (0 < de_ID d \<and> decision_prefix_ok (de_Prefix d) \<and> de_Deadline d \<noteq> 0)"

lemma validate_deleted_None: "validate_deleted is = None \<longleftrightarrow> (\<forall>i\<in>set is. 0 < i)"
  by (induction "is") (auto simp: not_le)

lemma validate_new_None:
  "validate_new seen i ds = None \<longleftrightarrow>
     (\<forall>d\<in>set ds. decision_ok d) \<and> distinct (map de_ID ds) \<and> set (map de_ID ds) \<inter> set seen = {}"
  by (induction ds arbitrary: seen i) (auto simp: decision_ok_def not_le)

definition batch_ok :: "Batch \<Rightarrow> bool" where
  "batch_ok b = ((\<forall>i\<in>set (ba_Deleted b). 0 < i) \<and> (\<forall>d\<in>set (ba_New b). decision_ok d) \<and> distinct (map de_ID (ba_New b)))"

lemma validateBatch_None: "validateBatch b = None \<longleftrightarrow> batch_ok b"
  by (auto simp: validateBatch_def batch_ok_def validate_deleted_None [symmetric] validate_new_None split: option.splits)

section \<open>The decisions after a batch\<close>

text \<open>The value of one identifier after a batch, read off the batch directly.\<close>

definition batch_value :: "Batch \<Rightarrow> 64 word \<Rightarrow> instant \<Rightarrow> (int \<rightharpoonup> retainedDecision) \<Rightarrow> int \<Rightarrow> retainedDecision option" where
  "batch_value b sequence now old i =
     (case find (\<lambda>d. de_ID d = i) (ba_New b) of
        Some d \<Rightarrow> if now < de_Deadline d then Some \<lparr>rd_decision = d, rd_sequence = sequence\<rparr> else None
      | None \<Rightarrow>
          if i \<in> set (ba_Deleted b) \<or> ba_Startup b then None
          else (case old i of None \<Rightarrow> None
                | Some r \<Rightarrow> if now < de_Deadline (rd_decision r) then Some r else None))"

lemma map_of_drop_expired:
  "map_keys_ok m \<Longrightarrow> map_of (drop_expired now m) i =
     (case map_of m i of None \<Rightarrow> None | Some r \<Rightarrow> if now < de_Deadline (rd_decision r) then Some r else None)"
  by (simp add: drop_expired_def map_of_filter_value [of m "\<lambda>r. now < de_Deadline (rd_decision r)"])

lemma map_of_deletes: "map_of (fold map_delete ks m) i = (if i \<in> set ks then None else map_of m i)"
  by (induction ks arbitrary: m) (auto simp: map_of_delete)

lemma map_of_admits:
  assumes "distinct (map de_ID ds)"
  shows "map_of (fold (admit sequence now) ds m) i =
    (case find (\<lambda>d. de_ID d = i) ds of
       Some d \<Rightarrow> if now < de_Deadline d then Some \<lparr>rd_decision = d, rd_sequence = sequence\<rparr> else None
     | None \<Rightarrow> map_of m i)"
  using assms
proof (induction ds arbitrary: m)
  case (Cons d ds)
  have "find (\<lambda>x. de_ID x = de_ID d) ds = None"
    using Cons.prems by (auto simp: find_None_iff image_iff)
  then show ?case using Cons by (auto simp: admit_def map_of_put map_of_delete split: option.splits)
qed simp

lemma applied_decisions_value:
  assumes "batch_ok b" "map_keys_ok m"
  shows "map_of (applied_decisions b sequence now m) i = batch_value b sequence now (map_of m) i"
  using assms
  by (auto simp: applied_decisions_def batch_ok_def batch_value_def map_of_admits map_of_deletes map_of_drop_expired
    split: option.splits)

lemma map_keys_ok_admits: "map_keys_ok m \<Longrightarrow> map_keys_ok (fold (admit sequence now) ds m)"
  by (induction ds arbitrary: m) (auto simp: admit_def map_keys_ok_put map_keys_ok_delete)

lemma map_keys_ok_deletes: "map_keys_ok m \<Longrightarrow> map_keys_ok (fold map_delete ks m)"
  by (induction ks arbitrary: m) (auto simp: map_keys_ok_delete)

lemma map_keys_ok_applied: "map_keys_ok m \<Longrightarrow> map_keys_ok (applied_decisions b sequence now m)"
  by (auto simp: applied_decisions_def drop_expired_def intro!: map_keys_ok_admits map_keys_ok_deletes map_keys_ok_filter)

lemma applied_retained:
  assumes "batch_ok b" "map_keys_ok m" "\<forall>e\<in>set m. retained_ok last' e" "0 < sequence" "last' \<le> sequence"
  shows "\<forall>e\<in>set (applied_decisions b sequence now m). retained_ok sequence e"
proof
  fix e assume e: "e \<in> set (applied_decisions b sequence now m)"
  obtain i r where ir: "e = (i, r)" by (cases e)
  have "map_of (applied_decisions b sequence now m) i = Some r"
    using e ir map_of_in_set [OF map_keys_ok_applied [OF assms(2)]] by simp
  then have v: "batch_value b sequence now (map_of m) i = Some r" using applied_decisions_value [OF assms(1,2)] by simp
  show "retained_ok sequence e"
  proof (cases "find (\<lambda>d. de_ID d = i) (ba_New b)")
    case None
    then have "map_of m i = Some r" using v by (auto simp: batch_value_def split: if_splits option.splits)
    then have "retained_ok last' (i, r)" using assms(2,3) by (simp add: map_of_in_set)
    then show ?thesis using assms(5) ir by (auto simp: retained_ok_def)
  next
    case (Some d)
    then have "d \<in> set (ba_New b)" "de_ID d = i" using find_SomeD by fastforce+
    moreover have "r = \<lparr>rd_decision = d, rd_sequence = sequence\<rparr>"
      using v Some by (auto simp: batch_value_def split: if_splits)
    ultimately show ?thesis using assms(1,4) ir by (auto simp: retained_ok_def batch_ok_def decision_ok_def)
  qed
qed

lemma retained_sequence:
  assumes "map_keys_ok m" "\<forall>e\<in>set m. retained_ok last' e" "last' < sequence" "map_of m i = Some r"
  shows "rd_sequence r \<noteq> sequence"
proof -
  have "retained_ok last' (i, r)" using assms by (simp add: map_of_in_set)
  then show ?thesis using assms(3) by (auto simp: retained_ok_def)
qed

lemma batch_value_new:
  "batch_ok b \<Longrightarrow> d \<in> set (ba_New b) \<Longrightarrow> batch_value b sequence now old (de_ID d) =
     (if now < de_Deadline d then Some \<lparr>rd_decision = d, rd_sequence = sequence\<rparr> else None)"
  by (simp add: batch_value_def batch_ok_def find_key)

lemma batch_value_fresh:
  assumes "old i = Some r" "rd_sequence r \<noteq> sequence"
    and "i \<in> set (ba_Deleted b) \<or> ba_Startup b \<or> \<not> now < de_Deadline (rd_decision r)"
  shows "batch_value b sequence now old i \<noteq> old i"
  using assms by (auto simp: batch_value_def split: option.splits)

lemma batchChanges_differs:
  assumes b: "batch_ok b" and m: "map_keys_ok m" "\<forall>e\<in>set m. retained_ok last' e" and s: "last' < sequence"
    and c: "batchChanges m b sequence now"
  shows "\<exists>i. batch_value b sequence now (map_of m) i \<noteq> map_of m i"
proof -
  note seq = retained_sequence [OF m s]
  from c consider
      i r where "map_of m i = Some r" "i \<in> set (ba_Deleted b) \<or> ba_Startup b \<or> \<not> now < de_Deadline (rd_decision r)"
    | d r where "d \<in> set (ba_New b)" "map_of m (de_ID d) = Some r"
    | d where "d \<in> set (ba_New b)" "map_of m (de_ID d) = None" "now < de_Deadline d"
  proof (cases "ba_Startup b")
    case True
    then show ?thesis using c that(1) [of "fst (hd m)" "snd (hd m)"] that(3)
      by (cases m) (auto simp: batchChanges_def)
  next
    case False
    then consider e where "e \<in> set m" "\<not> now < de_Deadline (rd_decision (snd e))"
      | i where "i \<in> set (ba_Deleted b)" "map_of m i \<noteq> None"
      | d where "d \<in> set (ba_New b)" "map_of m (de_ID d) \<noteq> None \<or> now < de_Deadline d"
      using c by (fastforce simp: batchChanges_def split: option.splits)
    then show ?thesis
      using that m(1) by cases (force simp: map_of_in_set)+
  qed
  then show ?thesis
  proof cases
    case 1
    show ?thesis using batch_value_fresh [of "map_of m" i r, OF 1(1) seq [OF 1(1)] 1(2)] by blast
  next
    case 2
    then show ?thesis using b seq [OF 2(2)] by (intro exI [of _ "de_ID d"]) (auto simp: batch_value_new)
  next
    case 3
    then show ?thesis using b by (intro exI [of _ "de_ID d"]) (auto simp: batch_value_new)
  qed
qed

lemma no_batchChanges_same:
  assumes b: "batch_ok b" and m: "map_keys_ok m" "\<forall>e\<in>set m. retained_ok last' e" and s: "last' < sequence"
    and n: "\<not> batchChanges m b sequence now"
  shows "batch_value b sequence now (map_of m) i = map_of m i"
proof (cases "ba_Startup b")
  case True
  then have "m = []" "\<forall>d\<in>set (ba_New b). \<not> now < de_Deadline d" using n by (auto simp: batchChanges_def)
  then show ?thesis using True by (auto simp: batch_value_def dest: find_SomeD split: option.splits)
next
  case False
  have live: "now < de_Deadline (rd_decision r)" if "map_of m i = Some r" for r
    using n that False m(1) by (fastforce simp: batchChanges_def map_of_in_set)
  have del: "map_of m i = None" if "i \<in> set (ba_Deleted b)"
    using n that False by (auto simp: batchChanges_def)
  show ?thesis
  proof (cases "find (\<lambda>d. de_ID d = i) (ba_New b)")
    case None
    then show ?thesis using live del False by (auto simp: batch_value_def split: option.splits)
  next
    case (Some d)
    then have d: "d \<in> set (ba_New b)" "de_ID d = i" using find_SomeD by fastforce+
    have "map_of m i = None \<and> \<not> now < de_Deadline d"
      using n d False retained_sequence [OF m s, of i]
      by (cases "map_of m i") (auto simp: batchChanges_def split: option.splits)
    then show ?thesis using Some by (simp add: batch_value_def)
  qed
qed

text \<open>The change test is exact: it says whether the map of decisions differs afterwards.\<close>

lemma batchChanges_exact:
  assumes "batch_ok b" "map_keys_ok m" "\<forall>e\<in>set m. retained_ok last' e" "last' < sequence"
  shows "batchChanges m b sequence now \<longleftrightarrow> map_of (applied_decisions b sequence now m) \<noteq> map_of m"
  using batchChanges_differs [OF assms] no_batchChanges_same [OF assms] applied_decisions_value [OF assms(1,2)]
  by (metis ext)

section \<open>The invariant\<close>

lemma store_Apply_cases:
  assumes "store_Apply (Some s) batch sequence now = (s', e)"
  obtains (rejected) "s' = Some s" "e \<noteq> None"
  | (applied) "e = None" "0 < sequence" "so_hasSequence s \<longrightarrow> so_lastSequence s < sequence" "batch_ok batch"
      "\<not> (batchChanges (so_decisions s) batch sequence now \<and> so_revision s = NOT 0)"
      "s' = Some (s\<lparr>so_decisions := applied_decisions batch sequence now (so_decisions s),
                    so_lastSequence := sequence, so_hasSequence := True,
                    so_revision := (if batchChanges (so_decisions s) batch sequence now
                                    then so_revision s + 1 else so_revision s)\<rparr>)"
proof (cases "e = None")
  case True
  with assms show ?thesis
    by (intro applied) (auto simp: store_Apply_def validateBatch_None [symmetric] Let_def not_le word_gt_0 split: if_splits option.splits)
next
  case False
  with assms show ?thesis
    by (intro rejected) (auto simp: store_Apply_def Let_def split: if_splits option.splits)
qed

lemma store_Expire_cases:
  assumes "store_Expire (Some s) now = (s', c)"
  obtains (kept) "s' = Some s" "\<not> c" "so_decisions s = [] \<or> so_revision s = NOT 0"
  | (swept) "so_revision s \<noteq> NOT 0"
      "c = (\<exists>e\<in>set (so_decisions s). \<not> now < de_Deadline (rd_decision (snd e)))"
      "s' = Some (s\<lparr>so_decisions := drop_expired now (so_decisions s),
                    so_revision := (if c then so_revision s + 1 else so_revision s)\<rparr>)"
  using assms by (auto simp: store_Expire_def Let_def case_prod_beta split: if_splits)

lemma store_okD:
  assumes "store_ok s"
  shows "map_keys_ok (so_decisions s)" "\<And>e. e \<in> set (so_decisions s) \<Longrightarrow> retained_ok (so_lastSequence s) e"
    "\<not> so_hasSequence s \<Longrightarrow> so_decisions s = []"
  using assms by (auto simp: store_ok_def)

lemma store_ok_retained:
  assumes "store_ok s" "so_hasSequence s \<longrightarrow> so_lastSequence s < sequence" "0 < sequence"
  obtains last' where "\<forall>e\<in>set (so_decisions s). retained_ok last' e" "last' < sequence"
proof (cases "so_hasSequence s")
  case True
  then show ?thesis using that [of "so_lastSequence s"] assms store_okD(2) [OF assms(1)] by blast
next
  case False
  then show ?thesis using that [of 0] assms(3) store_okD(3) [OF assms(1)] by simp
qed

lemma store_ok_NewStore: "store_ok (NewStore endpoint epoch)"
  by (simp add: store_ok_def NewStore_def map_keys_ok_def)

lemma store_ok_Apply:
  assumes ok: "store_ok s" and a: "store_Apply (Some s) batch sequence now = (Some s', e)"
  shows "store_ok s'"
  using a
proof (cases rule: store_Apply_cases)
  case rejected
  then show ?thesis using ok by simp
next
  case applied
  from store_ok_retained [OF ok applied(3,2)] obtain last'
    where l: "\<forall>e\<in>set (so_decisions s). retained_ok last' e" "last' < sequence" .
  show ?thesis
    using applied(6) map_keys_ok_applied [OF store_okD(1) [OF ok], of batch sequence now]
      applied_retained [OF applied(4) store_okD(1) [OF ok] l(1) applied(2) less_imp_le [OF l(2)], of now]
    by (simp add: store_ok_def)
qed

lemma store_ok_Expire:
  assumes ok: "store_ok s" and a: "store_Expire (Some s) now = (Some s', c)"
  shows "store_ok s'"
  using a
proof (cases rule: store_Expire_cases)
  case kept
  then show ?thesis using ok by simp
next
  case swept
  then show ?thesis using ok by (auto simp: store_ok_def drop_expired_def map_keys_ok_filter)
qed

lemma store_ok_step: "store_step s s' \<Longrightarrow> store_ok s \<Longrightarrow> store_ok s'"
  by (elim store_stepE) (auto intro: store_ok_Apply store_ok_Expire)

lemma store_reachable_ok: "store_reachable endpoint epoch s \<Longrightarrow> store_ok s"
  by (induction rule: store_reachable.induct) (auto intro: store_ok_NewStore store_ok_step)

lemma store_reachable_ident:
  "store_reachable endpoint epoch s \<Longrightarrow> so_endpoint s = endpoint \<and> so_epoch s = epoch"
proof (induction rule: store_reachable.induct)
  case reach_new
  then show ?case by (simp add: NewStore_def)
next
  case (reach_step s s')
  from reach_step(2) have "so_endpoint s' = so_endpoint s \<and> so_epoch s' = so_epoch s"
    by (elim store_stepE) (auto elim!: store_Apply_cases store_Expire_cases)
  then show ?case using reach_step by simp
qed



lemma batchChanges_store:
  assumes ok: "store_ok s" and "so_hasSequence s \<longrightarrow> so_lastSequence s < sequence" "0 < sequence" "batch_ok batch"
  shows "batchChanges (so_decisions s) batch sequence now \<longleftrightarrow>
    map_of (applied_decisions batch sequence now (so_decisions s)) \<noteq> map_of (so_decisions s)"
proof -
  from store_ok_retained [OF assms(1-3)] obtain last'
    where l: "\<forall>e\<in>set (so_decisions s). retained_ok last' e" "last' < sequence" .
  show ?thesis by (rule batchChanges_exact [OF assms(4) store_okD(1) [OF ok] l])
qed

lemma drop_expired_differs:
  assumes "map_keys_ok m"
  shows "map_of (drop_expired now m) \<noteq> map_of m \<longleftrightarrow> (\<exists>e\<in>set m. \<not> now < de_Deadline (rd_decision (snd e)))"
proof
  assume "map_of (drop_expired now m) \<noteq> map_of m"
  then show "\<exists>e\<in>set m. \<not> now < de_Deadline (rd_decision (snd e))"
    by (auto simp: drop_expired_def intro: ccontr dest!: filter_True)
next
  assume "\<exists>e\<in>set m. \<not> now < de_Deadline (rd_decision (snd e))"
  then obtain e where e: "e \<in> set m" "\<not> now < de_Deadline (rd_decision (snd e))" by blast
  then have "map_of m (fst e) = Some (snd e)" using assms by (simp add: map_of_in_set)
  then have "map_of (drop_expired now m) (fst e) \<noteq> map_of m (fst e)" using assms e by (simp add: map_of_drop_expired)
  then show "map_of (drop_expired now m) \<noteq> map_of m" by metis
qed

lemma store_step_revision:
  assumes "store_ok s" "store_step s s'"
  shows "so_revision s' = (if map_of (so_decisions s') = map_of (so_decisions s) then so_revision s else so_revision s + 1)
    \<and> so_revision s \<le> so_revision s'"
  using assms(2)
proof (cases rule: store_step.cases)
  case (apply_step batch sequence now e)
  from apply_step show ?thesis
  proof (cases rule: store_Apply_cases)
    case rejected
    then show ?thesis by simp
  next
    case applied
    then show ?thesis using batchChanges_store [OF assms(1) applied(3,2,4), of now] word_less_succ [of "so_revision s"]
      by (auto intro: less_imp_le)
  qed
next
  case (expire_step now c)
  from expire_step show ?thesis
  proof (cases rule: store_Expire_cases)
    case kept
    then show ?thesis by simp
  next
    case swept
    then show ?thesis using drop_expired_differs [OF store_okD(1) [OF assms(1)], of now] word_less_succ [of "so_revision s"]
      by (auto intro: less_imp_le)
  qed
qed

section \<open>Expiry and listing\<close>

definition deadlines :: "Store \<Rightarrow> instant list" where
  "deadlines s = map (\<lambda>e. de_Deadline (rd_decision (snd e))) (so_decisions s)"

lemma store_NextExpiry_fold:
  "store_NextExpiry (Some s) = foldl (\<lambda>n d. if n = 0 \<or> d < n then d else n) 0 (deadlines s)"
  by (simp add: store_NextExpiry_def deadlines_def foldl_map split_def)

lemma foldl_min:
  "0 \<notin> set (n # ds) \<Longrightarrow> foldl (\<lambda>n d. if n = 0 \<or> d < n then d else n) n ds = Min (set (n # ds))" for n :: int
proof (induction ds arbitrary: n)
  case (Cons d ds)
  have "(if n = 0 \<or> d < n then d else n) = min n d" using Cons.prems by auto
  moreover have "Min (insert n (insert d (set ds))) = Min (insert (min n d) (set ds))"
    by (cases "ds = []") (auto simp: min.assoc)
  ultimately show ?case using Cons.IH [of "min n d"] Cons.prems by (auto simp: min_def split: if_splits)
qed simp

lemma store_NextExpiry_Min:
  assumes "store_ok s" "so_decisions s \<noteq> []"
  shows "store_NextExpiry (Some s) = Min (set (deadlines s))"
proof -
  have z: "0 \<notin> set (deadlines s)" using store_okD(2) [OF assms(1)] by (auto simp: deadlines_def retained_ok_def)
  obtain d ds where d: "deadlines s = d # ds" using assms(2) by (cases "deadlines s") (auto simp: deadlines_def)
  have "store_NextExpiry (Some s) = foldl (\<lambda>n d. if n = 0 \<or> d < n then d else n) d ds"
    by (simp add: store_NextExpiry_fold d)
  also have "\<dots> = Min (set (d # ds))" by (rule foldl_min) (use z d in auto)
  finally show ?thesis using d by simp
qed

lemma store_NextExpiry_due:
  assumes "store_ok s" "so_decisions s \<noteq> []"
  shows "store_NextExpiry (Some s) \<le> now \<longleftrightarrow> (\<exists>e\<in>set (so_decisions s). \<not> now < de_Deadline (rd_decision (snd e)))"
proof -
  have ne: "finite (set (deadlines s))" "set (deadlines s) \<noteq> {}" using assms(2) by (auto simp: deadlines_def)
  then show ?thesis unfolding store_NextExpiry_Min [OF assms] Min_le_iff [OF ne] by (auto simp: deadlines_def not_less)
qed

lemma cmpInt64_less: "cmpInt64 a b < 0 \<longleftrightarrow> a < b"
  by (simp add: cmpInt64_def)

section \<open>Properties\<close>

text \<open>
  (C23) Every store the program can reach is well formed: identifiers are positive, unique
  and match their decisions, prefixes are valid, masked, without zone and never IPv4-mapped,
  deadlines are set, and no decision carries a sequence newer than the last one applied.
\<close>

theorem store_invariant:
  assumes "store_reachable endpoint epoch s"
  shows "store_ok s \<and> store_Endpoint (Some s) = endpoint \<and> store_Epoch (Some s) = epoch"
  using store_reachable_ok [OF assms] store_reachable_ident [OF assms] by (simp add: store_Endpoint_def store_Epoch_def)

text \<open>
  (C24) \<open>Apply\<close> succeeds exactly on a new sequence with a valid batch for which the revision
  counter has room. A failure leaves the store as it was. After a success each identifier has
  the value the batch gives it: the new decision when it is live, nothing when it is deleted,
  expired or dropped by a startup batch, and the unexpired old decision otherwise.
\<close>

theorem store_Apply_exact:
  assumes "store_ok s" "store_Apply (Some s) batch sequence now = (s', e)"
  shows "(e = None \<longleftrightarrow>
           0 < sequence \<and> (so_hasSequence s \<longrightarrow> so_lastSequence s < sequence) \<and> batch_ok batch \<and>
           (batch_value batch sequence now (map_of (so_decisions s)) = map_of (so_decisions s) \<or> so_revision s \<noteq> NOT 0))
    \<and> (e \<noteq> None \<longrightarrow> s' = Some s)
    \<and> (e = None \<longrightarrow> (\<exists>t. s' = Some t \<and> so_lastSequence t = sequence \<and> so_hasSequence t \<and>
         map_of (so_decisions t) = batch_value batch sequence now (map_of (so_decisions s))))"
proof -
  have val: "map_of (applied_decisions batch sequence now (so_decisions s)) = batch_value batch sequence now (map_of (so_decisions s))"
    if "batch_ok batch" using applied_decisions_value [OF that store_okD(1) [OF assms(1)]] by blast
  have e: "e = None" if "0 < sequence" "so_hasSequence s \<longrightarrow> so_lastSequence s < sequence" "batch_ok batch"
    "\<not> (batchChanges (so_decisions s) batch sequence now \<and> so_revision s = NOT 0)"
    using assms(2) that
    by (auto simp: store_Apply_def validateBatch_None [symmetric] Let_def not_le word_gt_0 split: if_splits)
  show ?thesis
    using assms(2)
  proof (cases rule: store_Apply_cases)
    case rejected
    then show ?thesis using e batchChanges_store [OF assms(1), of sequence batch now] val by auto
  next
    case applied
    then show ?thesis using batchChanges_store [OF assms(1) applied(3,2,4), of now] val by auto
  qed
qed

text \<open>
  (C25) The revision identifies the decisions: a step leaves it alone when the decisions by
  identifier stay the same, advances it by one when they change, and never wraps around.
\<close>

theorem store_revision_tracks:
  assumes "store_reachable endpoint epoch s" "store_step s s'"
  shows "store_Revision (Some s') =
      (if map_of (so_decisions s') = map_of (so_decisions s) then store_Revision (Some s) else store_Revision (Some s) + 1)
    \<and> store_Revision (Some s) \<le> store_Revision (Some s')"
  unfolding store_Revision_def option.case by (rule store_step_revision [OF store_reachable_ok [OF assms(1)] assms(2)])


text \<open>
  (C27) \<open>Decisions\<close> lists exactly the retained decisions, in strictly ascending order of
  their identifiers, whatever order the map is walked in.
\<close>

theorem store_Decisions_exact:
  assumes "store_ok s"
  shows "set (store_Decisions (Some s)) = {rd_decision r |i r. map_of (so_decisions s) i = Some r}
    \<and> sorted_wrt (\<lambda>a b. de_ID a < de_ID b) (store_Decisions (Some s))"
proof -
  have "distinct (map de_ID (map (\<lambda>e. rd_decision (snd e)) (so_decisions s)))"
  proof -
    have "map de_ID (map (\<lambda>e. rd_decision (snd e)) (so_decisions s)) = map fst (so_decisions s)"
      using store_okD(2) [OF assms] by (auto simp: retained_ok_def)
    then show ?thesis using store_okD(1) [OF assms] by (simp only: map_keys_ok_def)
  qed
  from sort_slice_key_strict [OF cmpInt64_less this]
  have "sorted_wrt (\<lambda>a b. de_ID a < de_ID b) (store_Decisions (Some s))"
    by (simp add: store_Decisions_def)
  moreover have "set (store_Decisions (Some s)) = (\<lambda>e. rd_decision (snd e)) ` set (so_decisions s)"
    by (auto simp: store_Decisions_def)
  ultimately show ?thesis using store_okD(1) [OF assms] by (force simp: map_of_in_set)
qed

text \<open>A store with one decision, for the concrete instances.\<close>

definition sample_decision :: Decision where
  "sample_decision = \<lparr>de_ID = 1, de_Prefix = Prefix (IP4 0x0A000000) 9, de_Deadline = 5\<rparr>"

definition sample_batch :: Batch where
  "sample_batch = \<lparr>ba_Startup = True, ba_New = [sample_decision], ba_Deleted = []\<rparr>"

definition sample_store :: Store where
  "sample_store = \<lparr>so_endpoint = ''a'', so_epoch = 7, so_revision = 1,
     so_decisions = [(1, \<lparr>rd_decision = sample_decision, rd_sequence = 1\<rparr>)], so_lastSequence = 1, so_hasSequence = True\<rparr>"

lemma sample_Apply: "store_Apply (Some (NewStore ''a'' 7)) sample_batch 1 3 = (Some sample_store, None)"
  by code_simp

lemma sample_reachable: "store_reachable ''a'' 7 sample_store"
  by (rule reach_step [OF reach_new]) (rule apply_step [OF sample_Apply])

lemma sample_Expire: "store_Expire (Some sample_store) 5 = (Some (sample_store\<lparr>so_decisions := [], so_revision := 2\<rparr>), True)"
  by code_simp

theorem store_invariant_witness: "store_ok sample_store \<and> store_Endpoint (Some sample_store) = ''a''"
  using store_invariant [OF sample_reachable] by simp

theorem store_Apply_exact_witness:
  "map_of (so_decisions sample_store) = batch_value sample_batch 1 3 (map_of [])"
  using store_Apply_exact [OF store_ok_NewStore sample_Apply] by (simp add: NewStore_def)

theorem store_revision_tracks_witness:
  "store_Revision (Some (sample_store\<lparr>so_decisions := [], so_revision := 2\<rparr>)) = store_Revision (Some sample_store) + 1"
  using store_revision_tracks [OF sample_reachable expire_step [OF sample_Expire]]
  by (simp add: sample_store_def fun_eq_iff)


theorem store_Decisions_exact_witness: "set (store_Decisions (Some sample_store)) = {sample_decision}"
  using store_Decisions_exact [OF store_reachable_ok [OF sample_reachable]]
  by (auto simp: sample_store_def split: if_splits)

end
