(* ===== verification/Go_Heap.thy ===== *)
theory Go_Heap
  imports Prelude
begin

text \<open>
  The part of Go's \<open>container/heap\<close> package that perimeterd uses, over the list that holds
  the items: \<open>Push\<close> appends an item and moves it up, \<open>Pop\<close> swaps the first item to the
  end, moves the new first item down and removes the last one. The locale \<open>heap_order\<close> shows
  for every strict weak order that both keep the heap order, that they keep the other items,
  and that the first item of a heap is a least one.
\<close>

definition swap :: "nat \<Rightarrow> nat \<Rightarrow> 'a list \<Rightarrow> 'a list" where
  "swap i j xs = xs[i := xs ! j, j := xs ! i]"

function heap_up :: "('a \<Rightarrow> 'a \<Rightarrow> bool) \<Rightarrow> 'a list \<Rightarrow> nat \<Rightarrow> 'a list" where
  "heap_up lt xs j =
     (let i = (j - 1) div 2 in
      if i = j \<or> \<not> lt (xs ! j) (xs ! i) then xs else heap_up lt (swap i j xs) i)"
  by pat_completeness auto

termination by (relation "measure (\<lambda>(_, _, j). j)") auto

function heap_down :: "('a \<Rightarrow> 'a \<Rightarrow> bool) \<Rightarrow> 'a list \<Rightarrow> nat \<Rightarrow> nat \<Rightarrow> 'a list" where
  "heap_down lt xs i n =
     (let j1 = 2 * i + 1 in
      if n \<le> j1 then xs
      else
        (let j2 = j1 + 1; j = (if j2 < n \<and> lt (xs ! j2) (xs ! j1) then j2 else j1) in
         if \<not> lt (xs ! j) (xs ! i) then xs else heap_down lt (swap i j xs) j n))"
  by pat_completeness auto

termination by (relation "measure (\<lambda>(_, _, i, n). n - i)") (auto split: if_splits)

declare heap_up.simps [simp del] heap_down.simps [simp del]

definition heap_Push :: "('a \<Rightarrow> 'a \<Rightarrow> bool) \<Rightarrow> 'a list \<Rightarrow> 'a \<Rightarrow> 'a list" where
  "heap_Push lt xs x = heap_up lt (xs @ [x]) (length xs)"

definition heap_Pop :: "('a \<Rightarrow> 'a \<Rightarrow> bool) \<Rightarrow> 'a list \<Rightarrow> 'a list" where
  "heap_Pop lt xs = (let n = length xs - 1 in butlast (heap_down lt (swap 0 n xs) 0 n))"

section \<open>The items are kept\<close>

lemma length_swap [simp]: "length (swap i j xs) = length xs"
  by (simp add: swap_def)

lemma mset_swap: "i < length xs \<Longrightarrow> j < length xs \<Longrightarrow> mset (swap i j xs) = mset xs"
  by (simp add: swap_def mset_swap)

lemma nth_swap:
  "i < length xs \<Longrightarrow> j < length xs \<Longrightarrow> k < length xs \<Longrightarrow>
     swap i j xs ! k = (if k = j then xs ! i else if k = i then xs ! j else xs ! k)"
  by (auto simp: swap_def nth_list_update)

lemma mset_heap_up: "j < length xs \<Longrightarrow> mset (heap_up lt xs j) = mset xs"
proof (induction lt xs j rule: heap_up.induct)
  case (1 lt xs j)
  then show ?case by (subst heap_up.simps) (auto simp: Let_def mset_swap)
qed

lemma mset_heap_down: "n \<le> length xs \<Longrightarrow> mset (heap_down lt xs i n) = mset xs"
proof (induction lt xs i n rule: heap_down.induct)
  case (1 lt xs i n)
  then show ?case by (subst heap_down.simps) (auto simp: Let_def mset_swap)
qed

lemma nth_heap_down: "n \<le> length xs \<Longrightarrow> n \<le> k \<Longrightarrow> k < length xs \<Longrightarrow> heap_down lt xs i n ! k = xs ! k"
proof (induction lt xs i n rule: heap_down.induct)
  case (1 lt xs i n)
  then show ?case by (subst heap_down.simps) (auto simp: Let_def nth_swap)
qed

lemma length_heap_down [simp]: "n \<le> length xs \<Longrightarrow> length (heap_down lt xs i n) = length xs"
  by (metis mset_heap_down size_mset)

lemma mset_heap_Push: "mset (heap_Push lt xs x) = add_mset x (mset xs)"
  by (simp add: heap_Push_def mset_heap_up)

lemma mset_heap_Pop:
  assumes "xs \<noteq> []"
  shows "add_mset (xs ! 0) (mset (heap_Pop lt xs)) = mset xs"
proof -
  let ?n = "length xs - 1" and ?ys = "heap_down lt (swap 0 (length xs - 1) xs) 0 (length xs - 1)"
  have l: "length ?ys = length xs" by simp
  have "last ?ys = ?ys ! ?n" using assms l by (metis last_conv_nth length_0_conv)
  also have "\<dots> = xs ! 0" using assms by (simp add: nth_heap_down nth_swap)
  finally have "?ys = heap_Pop lt xs @ [xs ! 0]"
    using append_butlast_last_id [of ?ys] assms l by (metis heap_Pop_def length_0_conv)
  then have "mset ?ys = add_mset (xs ! 0) (mset (heap_Pop lt xs))" by simp
  moreover have "mset ?ys = mset xs" using assms by (simp add: mset_heap_down mset_swap)
  ultimately show ?thesis by simp
qed

section \<open>The order is kept\<close>

abbreviation parent :: "nat \<Rightarrow> nat" where
  "parent k \<equiv> (k - 1) div 2"

locale heap_order = strict_weak
begin

definition heap :: "'a list \<Rightarrow> nat \<Rightarrow> bool" where
  "heap xs n = (\<forall>k<n. 0 < k \<longrightarrow> \<not> lt (xs ! k) (xs ! parent k))"

text \<open>A heap except between \<open>j\<close> and its parent, or except between \<open>i\<close> and its children.\<close>

definition heap_but_up :: "'a list \<Rightarrow> nat \<Rightarrow> nat \<Rightarrow> bool" where
  "heap_but_up xs j n =
     ((\<forall>k<n. 0 < k \<longrightarrow> k \<noteq> j \<longrightarrow> \<not> lt (xs ! k) (xs ! parent k)) \<and>
      (\<forall>k<n. 0 < k \<longrightarrow> parent k = j \<longrightarrow> 0 < j \<longrightarrow> \<not> lt (xs ! k) (xs ! parent j)))"

definition heap_but_down :: "'a list \<Rightarrow> nat \<Rightarrow> nat \<Rightarrow> bool" where
  "heap_but_down xs i n =
     ((\<forall>k<n. 0 < k \<longrightarrow> parent k \<noteq> i \<longrightarrow> \<not> lt (xs ! k) (xs ! parent k)) \<and>
      (\<forall>k<n. 0 < k \<longrightarrow> parent k = i \<longrightarrow> 0 < i \<longrightarrow> \<not> lt (xs ! k) (xs ! parent i)))"

lemma heap_up_step:
  assumes h: "heap_but_up xs j (length xs)" and j: "j < length xs" "parent j \<noteq> j" "lt (xs ! j) (xs ! parent j)"
  shows "heap_but_up (swap (parent j) j xs) (parent j) (length xs)"
proof -
  define i where "i = parent j"
  have ij: "i < j" "0 < j" "i < length xs" using j by (auto simp: i_def)
  have lt: "lt (xs ! j) (xs ! i)" using j by (simp add: i_def)
  have child: "\<not> lt (xs ! k) (xs ! i)" if "k < length xs" "0 < k" "parent k = j" for k
    using h that ij(2) unfolding heap_but_up_def i_def by blast
  have edge: "\<not> lt (xs ! k) (xs ! p)" if "k < length xs" "0 < k" "k \<noteq> j" "parent k = p" for k p
    using h that unfolding heap_but_up_def by blast
  note s = nth_swap [OF ij(3) j(1)]
  have 1: "\<not> lt (swap i j xs ! k) (swap i j xs ! p)" if k: "k < length xs" "0 < k" "k \<noteq> i" "parent k = p" for k p
  proof -
    have p: "p < length xs" using k by auto
    consider "k = j" | "k \<noteq> j" "p = j" | "k \<noteq> j" "p = i" | "k \<noteq> j" "p \<noteq> j" "p \<noteq> i" by blast
    then show ?thesis
    proof cases
      case 1
      then have "p = i" using k(4) i_def by simp
      then show ?thesis using 1 s [OF k(1)] s [OF p] ij(1) less_asym [OF lt] by simp
    next
      case 2
      then show ?thesis using s [OF k(1)] s [OF p] k(3) child [OF k(1,2)] k(4) by simp
    next
      case 3
      have "\<not> lt (xs ! k) (xs ! i)" using edge [OF k(1,2) 3(1) k(4)] 3(2) by simp
      then have "\<not> lt (xs ! k) (xs ! j)" using less_asym [OF lt] less_negtrans by blast
      then show ?thesis using 3 s [OF k(1)] s [OF p] ij(1) k(3) by simp
    next
      case 4
      then show ?thesis using s [OF k(1)] s [OF p] edge [OF k(1,2) 4(1) k(4)] k(3) by simp
    qed
  qed
  have 2: "\<not> lt (swap i j xs ! k) (swap i j xs ! q)"
    if k: "k < length xs" "0 < k" "parent k = i" "0 < i" "parent i = q" for k q
  proof -
    have q: "q < i" "q < length xs" using k(4,5) ij by auto
    have i: "\<not> lt (xs ! i) (xs ! q)" using edge [OF ij(3) k(4) _ k(5)] ij(1) by simp
    show ?thesis
    proof (cases "k = j")
      case True
      then show ?thesis using s [OF k(1)] s [OF q(2)] ij q i by simp
    next
      case False
      then have "\<not> lt (xs ! k) (xs ! i)" using edge [OF k(1,2) _ k(3)] by simp
      then have "\<not> lt (xs ! k) (xs ! q)" using i less_negtrans by blast
      moreover have "k \<noteq> i" using k(2,3) by auto
      ultimately show ?thesis using False s [OF k(1)] s [OF q(2)] ij(1) q by simp
    qed
  qed
  show ?thesis using 1 2 unfolding heap_but_up_def i_def [symmetric] by simp
qed

lemma heap_up_heap: "heap_but_up xs j (length xs) \<Longrightarrow> j < length xs \<Longrightarrow> heap (heap_up lt xs j) (length xs)"
proof (induction j arbitrary: xs rule: less_induct)
  case (less j)
  show ?case
  proof (cases "parent j = j \<or> \<not> lt (xs ! j) (xs ! parent j)")
    case True
    then have "heap_up lt xs j = xs" by (subst heap_up.simps) (auto simp: Let_def)
    moreover have "0 < j \<Longrightarrow> parent j \<noteq> j" by auto
    ultimately show ?thesis using True less.prems by (auto simp: heap_def heap_but_up_def)
  next
    case False
    then have "heap_up lt xs j = heap_up lt (swap (parent j) j xs) (parent j)"
      by (subst heap_up.simps) (simp add: Let_def)
    moreover have "heap_but_up (swap (parent j) j xs) (parent j) (length xs)"
      using heap_up_step less.prems False by blast
    moreover have "parent j < j" using False by auto
    ultimately show ?thesis using less.IH [of "parent j" "swap (parent j) j xs"] less.prems(2) by simp
  qed
qed

lemma heap_down_step:
  assumes h: "heap_but_down xs i n" and n: "n \<le> length xs" "j < n" "0 < j" "parent j = i" "lt (xs ! j) (xs ! i)"
    and least: "\<And>k. k < n \<Longrightarrow> 0 < k \<Longrightarrow> parent k = i \<Longrightarrow> \<not> lt (xs ! k) (xs ! j)"
  shows "heap_but_down (swap i j xs) j n"
proof -
  have ij: "i < j" "j < length xs" "i < length xs" using n by auto
  note s = nth_swap [OF ij(3,2)]
  have 1: "\<not> lt (swap i j xs ! k) (swap i j xs ! parent k)" if k: "k < n" "0 < k" "parent k \<noteq> j" for k
  proof -
    have p: "parent k < length xs" "k < length xs" using k n by auto
    consider "k = i" | "k \<noteq> i" "parent k = i" | "k \<noteq> i" "parent k \<noteq> i" by blast
    then show ?thesis
    proof cases
      case 1
      then have "\<not> lt (xs ! j) (xs ! parent i)" using h n k by (auto simp: heap_but_down_def)
      then show ?thesis using 1 s [OF p(1)] s [OF p(2)] ij k by auto
    next
      case 2
      then have "\<not> lt (xs ! k) (xs ! j)" using least k by blast
      then show ?thesis using 2 s [OF p(1)] s [OF p(2)] ij n(5) less_asym by auto
    next
      case 3
      then have "k \<noteq> j" using n by blast
      then show ?thesis using 3 s [OF p(1)] s [OF p(2)] h k by (auto simp: heap_but_down_def)
    qed
  qed
  have 2: "\<not> lt (swap i j xs ! k) (swap i j xs ! i)" if k: "k < n" "0 < k" "parent k = j" for k
  proof -
    have "k < length xs" "k \<noteq> i" "k \<noteq> j" using k n ij by auto
    moreover have "\<not> lt (xs ! k) (xs ! j)" using h k ij by (auto simp: heap_but_down_def)
    ultimately show ?thesis using s [of k] s [of i] ij by auto
  qed
  show ?thesis using 1 2 n(4) by (simp add: heap_but_down_def)
qed

lemma heap_down_heap: "heap_but_down xs i n \<Longrightarrow> n \<le> length xs \<Longrightarrow> heap (heap_down lt xs i n) n"
proof (induction "n - i" arbitrary: xs i rule: less_induct)
  case less
  define j where "j = (if 2 * i + 2 < n \<and> lt (xs ! (2 * i + 2)) (xs ! (2 * i + 1)) then 2 * i + 2 else 2 * i + 1)"
  have kids: "k = 2 * i + 1 \<or> k = 2 * i + 2" if "0 < k" "parent k = i" for k using that by presburger
  have step: "heap_down lt xs i n =
      (if n \<le> 2 * i + 1 \<or> \<not> lt (xs ! j) (xs ! i) then xs else heap_down lt (swap i j xs) j n)"
    by (subst heap_down.simps) (simp add: Let_def j_def)
  show ?case
  proof (cases "n \<le> 2 * i + 1")
    case True
    then have "\<not> (k < n \<and> 0 < k \<and> parent k = i)" for k using kids [of k] by auto
    then show ?thesis using step True less.prems by (auto simp: heap_def heap_but_down_def)
  next
    case False
    have j: "j < n" "0 < j" "parent j = i" using False by (auto simp: j_def)
    have least: "\<not> lt (xs ! k) (xs ! j)" if "k < n" "0 < k" "parent k = i" for k
      using kids [OF that(2,3)] that(1) less_asym by (auto simp: j_def)
    show ?thesis
    proof (cases "lt (xs ! j) (xs ! i)")
      case True
      have "heap_but_down (swap i j xs) j n" by (rule heap_down_step [OF less.prems j True least])
      moreover have "heap_down lt xs i n = heap_down lt (swap i j xs) j n" using step False True by simp
      moreover have "n - j < n - i" using j False by auto
      ultimately show ?thesis using less.hyps [of j "swap i j xs"] less.prems(2) by simp
    next
      case nl: False
      have "\<not> lt (xs ! k) (xs ! parent k)" if "k < n" "0 < k" for k
      proof (cases "parent k = i")
        case True
        then show ?thesis using least [OF that] nl less_negtrans by metis
      next
        case False
        then show ?thesis using less.prems(1) that unfolding heap_but_down_def by blast
      qed
      then show ?thesis using step nl by (simp add: heap_def)
    qed
  qed
qed

lemma heap_Push_heap: "heap xs (length xs) \<Longrightarrow> heap (heap_Push lt xs x) (length (heap_Push lt xs x))"
proof -
  assume h: "heap xs (length xs)"
  have l: "length (heap_Push lt xs x) = length (xs @ [x])"
    using mset_heap_up [of "length xs" "xs @ [x]" lt] unfolding heap_Push_def by (metis length_append_singleton lessI size_mset)
  have p: "parent k < k" if "0 < k" for k :: nat using that by auto
  have "heap_but_up (xs @ [x]) (length xs) (length (xs @ [x]))"
    using h p by (force simp: heap_but_up_def heap_def nth_append less_Suc_eq)
  then show ?thesis using heap_up_heap [of "xs @ [x]" "length xs"] l by (simp add: heap_Push_def)
qed

lemma heap_Pop_heap:
  assumes "heap xs (length xs)" "xs \<noteq> []"
  shows "heap (heap_Pop lt xs) (length (heap_Pop lt xs))"
proof -
  let ?n = "length xs - 1" let ?ys = "heap_down lt (swap 0 ?n xs) 0 ?n"
  have "heap_but_down (swap 0 ?n xs) 0 ?n"
    using assms by (auto simp: heap_but_down_def heap_def nth_swap)
  then have "heap ?ys ?n" by (rule heap_down_heap) simp
  then show ?thesis by (auto simp: heap_def heap_Pop_def Let_def nth_butlast)
qed

lemma heap_first_least:
  assumes "heap xs (length xs)" "x \<in> set xs"
  shows "\<not> lt x (xs ! 0)"
proof -
  have "\<not> lt (xs ! k) (xs ! 0)" if "k < length xs" for k
    using that
  proof (induction k rule: less_induct)
    case (less k)
    show ?case
    proof (cases "k = 0")
      case True
      then show ?thesis using less_asym by blast
    next
      case False
      then have "\<not> lt (xs ! k) (xs ! parent k)" "\<not> lt (xs ! parent k) (xs ! 0)"
        using less assms(1) by (auto simp: heap_def)
      then show ?thesis using less_negtrans by blast
    qed
  qed
  then show ?thesis using assms(2) by (auto simp: in_set_conv_nth)
qed

end

end
