(* ===== verification/Crowdsec_Projection.thy ===== *)
theory Crowdsec_Projection
  imports Crowdsec_Store Go_Heap Prefix_Range Netip_Text
begin

text \<open>
  \<open>internal/crowdsec/projection.go\<close> and \<open>internal/policy/timed.go\<close>: the disjoint
  timed prefixes a store stands for. A sweep over the starts and ends of the live decisions
  keeps the active ones in a heap ordered by deadline, from which inactive items are removed
  only when they reach the top; each stretch between two boundaries gets the latest deadline
  of its active decisions, and the stretches are cut into blocks.

  Addresses are \<open>uint128\<close> values of two 64-bit words, with the carries of
  \<open>bits.Add64\<close>. The sum over the last address of a family is the boundary \<open>top\<close>.
  A panic is \<open>None\<close>.
\<close>

section \<open>128-bit boundaries\<close>

record TimedPrefix =
  tp_Prefix :: prefix
  tp_Deadline :: instant

record uint128 =
  u_hi :: "64 word"
  u_lo :: "64 word"

record projectionBoundary =
  pb_value :: uint128
  pb_top :: bool

definition zero128 :: uint128 where
  "zero128 = \<lparr>u_hi = 0, u_lo = 0\<rparr>"

abbreviation top_boundary :: projectionBoundary where
  "top_boundary \<equiv> \<lparr>pb_value = zero128, pb_top = True\<rparr>"

abbreviation at_value :: "uint128 \<Rightarrow> projectionBoundary" where
  "at_value v \<equiv> \<lparr>pb_value = v, pb_top = False\<rparr>"

text \<open>\<open>bits.Add64\<close> for a carry of 0 or 1.\<close>

definition Add64 :: "64 word \<Rightarrow> 64 word \<Rightarrow> 64 word \<Rightarrow> 64 word \<times> 64 word" where
  "Add64 x y carry = (let s = x + y + carry in (s, if s < x \<or> carry \<noteq> 0 \<and> s = x then 1 else 0))"

definition addr128 :: "addr \<Rightarrow> uint128" where
  "addr128 v =
     (let bytes = As16 v in
      \<lparr>u_hi = push_bit 56 (ucast (bytes ! 0)) OR push_bit 48 (ucast (bytes ! 1)) OR
              push_bit 40 (ucast (bytes ! 2)) OR push_bit 32 (ucast (bytes ! 3)) OR
              push_bit 24 (ucast (bytes ! 4)) OR push_bit 16 (ucast (bytes ! 5)) OR
              push_bit 8 (ucast (bytes ! 6)) OR ucast (bytes ! 7),
       u_lo = push_bit 56 (ucast (bytes ! 8)) OR push_bit 48 (ucast (bytes ! 9)) OR
              push_bit 40 (ucast (bytes ! 10)) OR push_bit 32 (ucast (bytes ! 11)) OR
              push_bit 24 (ucast (bytes ! 12)) OR push_bit 16 (ucast (bytes ! 13)) OR
              push_bit 8 (ucast (bytes ! 14)) OR ucast (bytes ! 15)\<rparr>)"

definition addr128v4 :: "8 word list \<Rightarrow> uint128" where
  "addr128v4 v =
     \<lparr>u_hi = 0,
      u_lo = push_bit 24 (ucast (v ! 0)) OR push_bit 16 (ucast (v ! 1)) OR
             push_bit 8 (ucast (v ! 2)) OR ucast (v ! 3)\<rparr>"

definition addPower :: "uint128 \<Rightarrow> nat \<Rightarrow> nat \<Rightarrow> projectionBoundary" where
  "addPower start sizeBits width =
     (if sizeBits = width then top_boundary
      else if sizeBits < 64 then
        (let increment = push_bit sizeBits 1;
             (lo, carry) = Add64 (u_lo start) increment 0;
             (hi, overflow) = Add64 (u_hi start) 0 carry in
         if overflow \<noteq> 0 \<or> width < 64 \<and> (hi \<noteq> 0 \<or> push_bit width 1 \<le> lo) then top_boundary
         else at_value \<lparr>u_hi = hi, u_lo = lo\<rparr>)
      else if sizeBits = 64 then
        (let (hi, overflow) = Add64 (u_hi start) 1 0 in
         if overflow \<noteq> 0 then top_boundary else at_value (start\<lparr>u_hi := hi\<rparr>))
      else
        (let increment = push_bit (sizeBits - 64) 1;
             (hi, overflow) = Add64 (u_hi start) increment 0 in
         if overflow \<noteq> 0 then top_boundary else at_value (start\<lparr>u_hi := hi\<rparr>)))"

definition projection_prefixEnd :: "uint128 \<Rightarrow> int \<Rightarrow> nat \<Rightarrow> projectionBoundary" where
  "projection_prefixEnd start prefixBits width = addPower start (nat (int width - prefixBits)) width"

definition compareUint128 :: "uint128 \<Rightarrow> uint128 \<Rightarrow> int" where
  "compareUint128 left right =
     (if u_hi left < u_hi right then -1
      else if u_hi right < u_hi left then 1
      else if u_lo left < u_lo right then -1
      else if u_lo right < u_lo left then 1
      else 0)"

definition compareBoundary :: "projectionBoundary \<Rightarrow> projectionBoundary \<Rightarrow> int" where
  "compareBoundary left right =
     (if pb_top left then (if pb_top right then 0 else 1)
      else if pb_top right then -1
      else compareUint128 (pb_value left) (pb_value right))"

definition aligned :: "uint128 \<Rightarrow> nat \<Rightarrow> nat \<Rightarrow> bool" where
  "aligned start sizeBits width =
     (if sizeBits = 0 then True
      else if sizeBits = width then u_hi start = 0 \<and> u_lo start = 0
      else if sizeBits < 64 then u_lo start AND (push_bit sizeBits 1 - 1) = 0
      else if sizeBits = 64 then u_lo start = 0
      else u_lo start = 0 \<and> u_hi start AND (push_bit (sizeBits - 64) 1 - 1) = 0)"

section \<open>Cutting a range into blocks\<close>

definition range_prefix :: "uint128 \<Rightarrow> nat \<Rightarrow> bool \<Rightarrow> prefix" where
  "range_prefix start prefixBits ipv4 =
     (if ipv4 then PrefixFrom (AddrFrom4 (drop 4 (be_bytes 8 (u_lo start)))) (int prefixBits)
      else PrefixFrom (AddrFrom16 (be_bytes 8 (u_hi start) @ be_bytes 8 (u_lo start))) (int prefixBits))"

definition chosen_size :: "uint128 \<Rightarrow> projectionBoundary \<Rightarrow> nat \<Rightarrow> nat option" where
  "chosen_size start end' width =
     find (\<lambda>sizeBits. aligned start sizeBits width \<and> compareBoundary (addPower start sizeBits width) end' \<le> 0)
       (rev [0..<Suc width])"

definition uval :: "uint128 \<Rightarrow> nat" where
  "uval v = unat (u_hi v) * 2 ^ 64 + unat (u_lo v)"

section \<open>Values of boundaries\<close>

lemma uval_less: "uval v < 2 ^ 128"
proof -
  have "unat (u_hi v) < 2 ^ 64" "unat (u_lo v) < 2 ^ 64"
    using unsigned_less [of "u_hi v", where ?'a = nat] unsigned_less [of "u_lo v", where ?'a = nat] by simp_all
  then show ?thesis unfolding uval_def by simp
qed

lemma uval_inj: "uval a = uval b \<longleftrightarrow> a = b"
proof
  assume e: "uval a = uval b"
  have l: "unat (u_lo v) < 2 ^ 64" for v using unsigned_less [of "u_lo v", where ?'a = nat] by simp
  have "unat (u_lo v) = uval v mod 2 ^ 64 \<and> unat (u_hi v) = uval v div 2 ^ 64" for v
    using l [of v] by (simp add: uval_def)
  then have "u_lo a = u_lo b \<and> u_hi a = u_hi b" using e by (metis word_unat_eq_iff)
  then show "a = b" by (cases a; cases b) simp
qed simp

lemma compareUint128_less: "compareUint128 a b < 0 \<longleftrightarrow> uval a < uval b"
  and compareUint128_eq: "compareUint128 a b = 0 \<longleftrightarrow> uval a = uval b"
proof -
  have l: "unat (u_lo a) < 2 ^ 64" "unat (u_lo b) < 2 ^ 64"
    using unsigned_less [of "u_lo a", where ?'a = nat] unsigned_less [of "u_lo b", where ?'a = nat] by simp_all
  define x y where "x = unat (u_hi a)" and "y = unat (u_hi b)"
  consider "x < y" | "x = y" | "y < x" by linarith
  then have "(compareUint128 a b < 0 \<longleftrightarrow> uval a < uval b) \<and> (compareUint128 a b = 0 \<longleftrightarrow> uval a = uval b)"
  proof cases
    case 1
    then have "Suc x * 2 ^ 64 \<le> y * 2 ^ 64" by (simp add: Suc_leI)
    then have "uval a < uval b" using l by (simp add: uval_def x_def y_def)
    then show ?thesis using 1 by (simp add: compareUint128_def word_less_nat_alt x_def y_def)
  next
    case 2
    then show ?thesis using l by (auto simp: compareUint128_def word_less_nat_alt uval_def x_def y_def)
  next
    case 3
    then have "Suc y * 2 ^ 64 \<le> x * 2 ^ 64" by (simp add: Suc_leI)
    then have "uval b < uval a" using l by (simp add: uval_def x_def y_def)
    then show ?thesis using 3 by (auto simp: compareUint128_def word_less_nat_alt x_def y_def)
  qed
  then show "compareUint128 a b < 0 \<longleftrightarrow> uval a < uval b" "compareUint128 a b = 0 \<longleftrightarrow> uval a = uval b" by auto
qed

text \<open>The value of a boundary in a family of the given width, and the boundaries inside it.\<close>

definition bval :: "nat \<Rightarrow> projectionBoundary \<Rightarrow> nat" where
  "bval w b = (if pb_top b then 2 ^ w else uval (pb_value b))"

definition bound_ok :: "nat \<Rightarrow> projectionBoundary \<Rightarrow> bool" where
  "bound_ok w b = (pb_top b \<or> uval (pb_value b) < 2 ^ w)"

lemma bval_le: "bound_ok w b \<Longrightarrow> bval w b \<le> 2 ^ w"
  by (auto simp: bval_def bound_ok_def)

lemma compareBoundary_less: "bound_ok w a \<Longrightarrow> bound_ok w b \<Longrightarrow> compareBoundary a b < 0 \<longleftrightarrow> bval w a < bval w b"
  and compareBoundary_eq: "bound_ok w a \<Longrightarrow> bound_ok w b \<Longrightarrow> compareBoundary a b = 0 \<longleftrightarrow> bval w a = bval w b"
  by (auto simp: compareBoundary_def bval_def bound_ok_def compareUint128_less compareUint128_eq)

lemma compareBoundary_le: "bound_ok w a \<Longrightarrow> bound_ok w b \<Longrightarrow> compareBoundary a b \<le> 0 \<longleftrightarrow> bval w a \<le> bval w b"
  using compareBoundary_less [of w a b] compareBoundary_eq [of w a b] by linarith

lemma Add64_value:
  assumes "c = 0 \<or> c = 1" "Add64 x y c = (s, k)"
  shows "unat s + unat k * 2 ^ 64 = unat x + unat y + unat c" "k = 0 \<or> k = 1"
proof -
  have l: "unat x < 2 ^ 64" "unat y < 2 ^ 64"
    using unsigned_less [of x, where ?'a = nat] unsigned_less [of y, where ?'a = nat] by simp_all
  have c: "unat c \<le> 1" "c \<noteq> 0 \<longleftrightarrow> unat c = 1" using assms(1) by auto
  have s: "s = x + y + c" and k: "k = (if s < x \<or> c \<noteq> 0 \<and> s = x then 1 else 0)"
    using assms(2) by (auto simp: Add64_def Let_def)
  have m: "unat s = (unat x + unat y + unat c) mod 2 ^ 64" by (simp add: s unat_word_ariths mod_simps)
  show "k = 0 \<or> k = 1" by (simp add: k)
  show "unat s + unat k * 2 ^ 64 = unat x + unat y + unat c"
  proof (cases "unat x + unat y + unat c < 2 ^ 64")
    case True
    then have e: "unat s = unat x + unat y + unat c" using m by simp
    then have "k = 0" using c(2) by (auto simp: k word_less_nat_alt word_unat_eq_iff)
    then show ?thesis using e by simp
  next
    case False
    have "unat s = unat x + unat y + unat c - 2 ^ 64"
    proof -
      have "(unat x + unat y + unat c) mod 2 ^ 64 = (unat x + unat y + unat c - 2 ^ 64) mod 2 ^ 64"
        using False by (simp add: le_mod_geq)
      also have "\<dots> = unat x + unat y + unat c - 2 ^ 64" using l c(1) by (intro mod_less) linarith
      finally show ?thesis using m by simp
    qed
    moreover from this have "k = 1" using c l False by (auto simp: k word_less_nat_alt word_unat_eq_iff)
    ultimately show ?thesis using False by simp
  qed
qed

lemma unat_power: "n < 64 \<Longrightarrow> unat (2 ^ n :: 64 word) = 2 ^ n"
  by (simp add: unat_exp)

lemma top_boundary_value: "bound_ok w top_boundary" "bval w top_boundary = 2 ^ w"
  by (simp_all add: bound_ok_def bval_def)

lemma at_value_value: "bound_ok w (at_value v) \<longleftrightarrow> uval v < 2 ^ w" "bval w (at_value v) = uval v"
  by (simp_all add: bound_ok_def bval_def)

text \<open>Adding to the high word, and adding to the low word with its carry.\<close>

lemma add_high:
  assumes "Add64 (u_hi start) inc 0 = (hi, overflow)"
  shows "if overflow \<noteq> 0 then 2 ^ 128 \<le> uval start + unat inc * 2 ^ 64
         else uval (start\<lparr>u_hi := hi\<rparr>) = uval start + unat inc * 2 ^ 64"
proof -
  note a = Add64_value [OF _ assms]
  have e: "unat hi + unat overflow * 2 ^ 64 = unat (u_hi start) + unat inc" using a(1) by simp
  show ?thesis
  proof (cases "overflow = 0")
    case True
    then have "unat hi = unat (u_hi start) + unat inc" using e by simp
    then show ?thesis using True by (simp add: uval_def)
  next
    case False
    then have "2 ^ 64 \<le> unat (u_hi start) + unat inc" using e a(2) by auto
    then show ?thesis using False by (simp add: uval_def)
  qed
qed

lemma add_low:
  assumes "Add64 (u_lo start) inc 0 = (lo, carry)" "Add64 (u_hi start) 0 carry = (hi, overflow)"
  shows "if overflow \<noteq> 0 then 2 ^ 128 \<le> uval start + unat inc
         else uval \<lparr>u_hi = hi, u_lo = lo\<rparr> = uval start + unat inc"
proof -
  note a = Add64_value [OF _ assms(1)]
  have c: "carry = 0 \<or> carry = 1" using a(2) by simp
  note b = Add64_value [OF c assms(2)]
  have e: "unat lo + unat carry * 2 ^ 64 = unat (u_lo start) + unat inc"
    "unat hi + unat overflow * 2 ^ 64 = unat (u_hi start) + unat carry" using a(1) b(1) by simp_all
  show ?thesis
  proof (cases "overflow = 0")
    case True
    then show ?thesis using e c by (auto simp: uval_def)
  next
    case False
    then show ?thesis using e c b(2) by (auto simp: uval_def)
  qed
qed

lemma uval_small: "uval v < 2 ^ 32 \<longleftrightarrow> u_hi v = 0 \<and> u_lo v < 4294967296"
proof -
  have lo: "u_lo v < 4294967296 \<longleftrightarrow> unat (u_lo v) < 4294967296" by (simp add: word_less_nat_alt)
  show ?thesis
  proof (cases "u_hi v = 0")
    case False
    then have "1 \<le> unat (u_hi v)" by (simp add: Suc_le_eq unat_gt_0)
    then show ?thesis using False by (simp add: uval_def)
  qed (simp add: lo uval_def)
qed

lemma addPower_value:
  assumes w: "w = 32 \<or> w = 128" and s: "s \<le> w" and v: "uval start < 2 ^ w"
  shows "bound_ok w (addPower start s w)" "bval w (addPower start s w) = min (uval start + 2 ^ s) (2 ^ w)"
proof -
  have "bound_ok w (addPower start s w) \<and> bval w (addPower start s w) = min (uval start + 2 ^ s) (2 ^ w)"
  proof (cases "s = w")
    case True
    then show ?thesis by (simp add: addPower_def top_boundary_value)
  next
    case sw: False
    show ?thesis
    proof (cases "s < 64")
      case True
      obtain lo carry where lo: "Add64 (u_lo start) (2 ^ s) 0 = (lo, carry)" by fastforce
      obtain hi overflow where hi: "Add64 (u_hi start) 0 carry = (hi, overflow)" by fastforce
      note a = add_low [OF lo hi, unfolded unat_power [OF True]]
      have p: "addPower start s w = (if overflow \<noteq> 0 \<or> w < 64 \<and> \<not> uval \<lparr>u_hi = hi, u_lo = lo\<rparr> < 2 ^ 32
          then top_boundary else at_value \<lparr>u_hi = hi, u_lo = lo\<rparr>)"
        using w sw True lo hi unfolding uval_small by (auto simp: addPower_def not_less)
      show ?thesis
      proof (cases "overflow = 0")
        case True
        then have u: "uval \<lparr>u_hi = hi, u_lo = lo\<rparr> = uval start + 2 ^ s" using a by simp
        show ?thesis using p w True uval_less [of "\<lparr>u_hi = hi, u_lo = lo\<rparr>"]
          by (auto simp: u top_boundary_value at_value_value)
      next
        case False
        then have "2 ^ 128 \<le> uval start + 2 ^ s" using a by simp
        moreover have "(2::nat) ^ w \<le> 2 ^ 128" using w by auto
        ultimately have "(2::nat) ^ w \<le> uval start + 2 ^ s" by (rule le_trans [rotated])
        then show ?thesis using p False by (simp add: top_boundary_value)
      qed
    next
      case False
      then have w128: "w = 128" using w s sw by auto
      define inc where "inc = (2 :: 64 word) ^ (s - 64)"
      have "unat inc = 2 ^ (s - 64)" using sw s w128 unfolding inc_def by (intro unat_power) linarith
      then have u: "unat inc * 2 ^ 64 = 2 ^ s" using False by (simp only: power_add [symmetric]) simp
      obtain hi overflow where hi: "Add64 (u_hi start) inc 0 = (hi, overflow)" by fastforce
      note a = add_high [OF hi, unfolded u]
      have "addPower start s w = (if overflow \<noteq> 0 then top_boundary else at_value (start\<lparr>u_hi := hi\<rparr>))"
        using False sw hi by (auto simp: addPower_def inc_def)
      then show ?thesis using a w128 uval_less [of "start\<lparr>u_hi := hi\<rparr>"]
        by (auto simp: top_boundary_value at_value_value)
    qed
  qed
  then show "bound_ok w (addPower start s w)" "bval w (addPower start s w) = min (uval start + 2 ^ s) (2 ^ w)" by auto
qed

lemma and_ones_dvd: "(x :: 64 word) AND (2 ^ n - 1) = 0 \<longleftrightarrow> 2 ^ n dvd unat x"
proof -
  have "x AND (2 ^ n - 1) = take_bit n x" by (simp add: take_bit_eq_mask mask_eq_decr_exp)
  then have "x AND (2 ^ n - 1) = 0 \<longleftrightarrow> unat (take_bit n x) = 0" by (simp only: unat_eq_zero)
  also have "unat (take_bit n x) = unat x mod 2 ^ n" by (simp only: unsigned_take_bit_eq) (simp add: take_bit_eq_mod)
  finally show ?thesis by (simp add: dvd_eq_mod_eq_0)
qed

lemma aligned_dvd:
  assumes w: "w = 32 \<or> w = 128" and s: "s \<le> w" and v: "uval start < 2 ^ w"
  shows "aligned start s w \<longleftrightarrow> 2 ^ s dvd uval start"
proof -
  have l: "unat (u_lo start) < 2 ^ 64" using unsigned_less [of "u_lo start", where ?'a = nat] by simp
  have zero: "u_hi start = 0 \<and> u_lo start = 0 \<longleftrightarrow> uval start = 0" by (simp add: uval_def unat_eq_zero)
  consider "s = 0" | "s = w" "s \<noteq> 0" | "s \<noteq> 0" "s \<noteq> w" "s < 64" | "s \<noteq> w" "64 \<le> s" by linarith
  then show ?thesis
  proof cases
    case 1
    then show ?thesis by (simp add: aligned_def)
  next
    case 2
    then have "2 ^ s dvd uval start \<longleftrightarrow> uval start = 0" using v by (auto dest: dvd_imp_le)
    then show ?thesis using 2 zero by (simp add: aligned_def)
  next
    case 3
    then have "(2::nat) ^ s dvd 2 ^ 64" by (intro le_imp_power_dvd) simp
    then have "2 ^ s dvd uval start \<longleftrightarrow> 2 ^ s dvd unat (u_lo start)"
      unfolding uval_def by (metis dvd_add_right_iff dvd_mult)
    then show ?thesis using 3 and_ones_dvd by (simp add: aligned_def)
  next
    case 4
    then have w128: "w = 128" "s < 128" using w s by auto
    have e: "(2::nat) ^ s = 2 ^ 64 * 2 ^ (s - 64)" using 4 by (simp only: power_add [symmetric]) simp
    have "2 ^ s dvd uval start \<longleftrightarrow> unat (u_lo start) = 0 \<and> 2 ^ (s - 64) dvd unat (u_hi start)"
    proof
      assume d: "2 ^ s dvd uval start"
      then have "2 ^ 64 dvd uval start" unfolding e by (rule dvd_mult_left)
      then have "2 ^ 64 dvd unat (u_lo start)" unfolding uval_def by (simp add: dvd_add_right_iff)
      then have z: "unat (u_lo start) = 0" using l by (auto dest: dvd_imp_le)
      then have "2 ^ 64 * 2 ^ (s - 64) dvd 2 ^ 64 * unat (u_hi start)" using d unfolding e uval_def by (simp add: mult.commute)
      then show "unat (u_lo start) = 0 \<and> 2 ^ (s - 64) dvd unat (u_hi start)" using z by simp
    next
      assume a: "unat (u_lo start) = 0 \<and> 2 ^ (s - 64) dvd unat (u_hi start)"
      then have "2 ^ 64 * 2 ^ (s - 64) dvd 2 ^ 64 * unat (u_hi start)" by (intro mult_dvd_mono) auto
      then show "2 ^ s dvd uval start" using a by (simp only: e uval_def mult.commute add_0_right)
    qed
    moreover have "aligned start s w \<longleftrightarrow> u_lo start = 0 \<and> (s = 64 \<or> u_hi start AND (2 ^ (s - 64) - 1) = 0)"
      using 4 by (auto simp: aligned_def)
    moreover have "u_lo start = 0 \<longleftrightarrow> unat (u_lo start) = 0" by (simp only: unat_eq_zero)
    ultimately show ?thesis using and_ones_dvd [of "u_hi start" "s - 64"] w128 4 by (cases "s = 64") auto
  qed
qed

lemma chosen_size_bounds: "chosen_size start end' w = Some s \<Longrightarrow> s \<le> w"
  unfolding chosen_size_def by (drule find_SomeD) auto

lemma addPower_increases: "s \<le> w \<Longrightarrow> w = 32 \<or> w = 128 \<Longrightarrow> \<not> pb_top (addPower start s w) \<Longrightarrow>
    uval start < uval (pb_value (addPower start s w))"
proof -
  assume a: "s \<le> w" "w = 32 \<or> w = 128" "\<not> pb_top (addPower start s w)"
  show ?thesis
  proof (cases "s < 64")
    case True
    obtain lo carry where lo: "Add64 (u_lo start) (2 ^ s) 0 = (lo, carry)" by fastforce
    obtain hi overflow where hi: "Add64 (u_hi start) 0 carry = (hi, overflow)" by fastforce
    have "addPower start s w = at_value \<lparr>u_hi = hi, u_lo = lo\<rparr> \<and> overflow = 0"
      using a(3) True lo hi by (auto simp: addPower_def split: if_splits)
    then show ?thesis using add_low [OF lo hi, unfolded unat_power [OF True]] by simp
  next
    case False
    then have w: "w = 128" "s \<noteq> w" "\<not> s < 64" using a by (auto simp: addPower_def)
    then show ?thesis
      using addPower_value [of w s start] a uval_less [of start] by (auto simp: bval_def bound_ok_def)
  qed
qed

text \<open>The loop of \<open>decomposeRange\<close>. The two literals parse, so a panic can only come from the search.\<close>

function decomposeRange ::
  "TimedPrefix list \<Rightarrow> uint128 \<Rightarrow> projectionBoundary \<Rightarrow> instant \<Rightarrow> bool \<Rightarrow> TimedPrefix list option" where
  "decomposeRange result start end' deadline ipv4 =
     (let width = (if ipv4 then 32 else 128) in
      if pb_top end' \<and> u_hi start = 0 \<and> u_lo start = 0 then
        (case ParsePrefix (if width = 128 then ''::/0'' else ''0.0.0.0/0'') of
           None \<Rightarrow> None
         | Some p \<Rightarrow> Some (result @ [\<lparr>tp_Prefix = p, tp_Deadline = deadline\<rparr>]))
      else if \<not> pb_top end' \<and> 0 \<le> compareUint128 start (pb_value end') then Some result
      else
        (case chosen_size start end' width of
           None \<Rightarrow> None
         | Some chosen \<Rightarrow>
             (let candidate = addPower start chosen width;
                  result' = result @ [\<lparr>tp_Prefix = range_prefix start (width - chosen) ipv4, tp_Deadline = deadline\<rparr>] in
              if pb_top candidate then Some result'
              else decomposeRange result' (pb_value candidate) end' deadline ipv4)))"
  by pat_completeness auto

termination
proof (relation "measure (\<lambda>(_, start, _). 2 ^ 128 - uval start)", goal_cases)
  case 1
  then show ?case by simp
next
  case (2 result start end' deadline ipv4 width chosen candidate result')
  have "uval start < uval (pb_value candidate)"
    using addPower_increases [OF chosen_size_bounds, of start end' width chosen] 2 by auto
  then show ?case using uval_less [of "pb_value candidate"] by simp
qed

declare decomposeRange.simps [simp del]

section \<open>The sweep\<close>

record projectionEvent =
  pe_at :: projectionBoundary
  pe_index :: nat
  pe_remove :: bool

record projectionRange =
  pr_start :: uint128
  pr_end :: projectionBoundary
  pr_deadline :: instant

record projectionHeapItem =
  ph_index :: nat
  ph_deadline :: instant

definition deadline_Less :: "projectionHeapItem \<Rightarrow> projectionHeapItem \<Rightarrow> bool" where
  "deadline_Less a b = (ph_deadline b < ph_deadline a)"

lemma length_heap_Pop: "xs \<noteq> [] \<Longrightarrow> length (heap_Pop lt xs) < length xs"
  using mset_heap_Pop [of xs lt] by (metis add_mset_not_empty lessI size_add_mset size_mset)

function heap_current :: "bool list \<Rightarrow> projectionHeapItem list \<Rightarrow> projectionHeapItem list \<times> projectionHeapItem option" where
  "heap_current active items =
     (if items = [] then (items, None)
      else if active ! ph_index (items ! 0) then (items, Some (items ! 0))
      else heap_current active (heap_Pop deadline_Less items))"
  by pat_completeness auto

termination by (relation "measure (\<lambda>(_, items). length items)") (auto intro: length_heap_Pop)

declare heap_current.simps [simp del]

definition decision_events :: "bool \<Rightarrow> instant \<Rightarrow> nat \<times> Decision \<Rightarrow> projectionEvent list" where
  "decision_events ipv4 now entry =
     (case entry of (index, decision) \<Rightarrow>
        (let prefix = de_Prefix decision in
         if Is4 (pAddr prefix) \<noteq> ipv4 \<or> \<not> now < de_Deadline decision then []
         else
           (let width = (if ipv4 then 32 else 128);
                start = (if ipv4 then addr128v4 (As4 (pAddr (prefix_Masked prefix)))
                         else addr128 (pAddr (prefix_Masked prefix)));
                end' = projection_prefixEnd start (prefix_Bits prefix) width in
            [\<lparr>pe_at = at_value start, pe_index = index, pe_remove = False\<rparr>,
             \<lparr>pe_at = end', pe_index = index, pe_remove = True\<rparr>])))"

definition sweep_remove :: "projectionEvent list \<Rightarrow> bool list \<Rightarrow> bool list" where
  "sweep_remove evs active =
     foldl (\<lambda>active event. if pe_remove event then active[pe_index event := False] else active) active evs"

definition sweep_add ::
  "Decision list \<Rightarrow> projectionEvent list \<Rightarrow> bool list \<times> projectionHeapItem list \<Rightarrow> bool list \<times> projectionHeapItem list" where
  "sweep_add decisions evs state =
     foldl (\<lambda>(active, items) event.
         if \<not> pe_remove event then
           (active[pe_index event := True],
            heap_Push deadline_Less items
              \<lparr>ph_index = pe_index event, ph_deadline = de_Deadline (decisions ! pe_index event)\<rparr>)
         else (active, items))
       state evs"

definition extend_ranges ::
  "projectionBoundary \<Rightarrow> projectionBoundary \<Rightarrow> projectionHeapItem option \<Rightarrow> projectionRange list \<Rightarrow> projectionRange list" where
  "extend_ranges at next best ranges =
     (case best of
        None \<Rightarrow> ranges
      | Some best \<Rightarrow>
          if compareBoundary at next < 0 then
            (let start = pb_value at in
             if length ranges \<noteq> 0 \<and> pb_value (pr_end (last ranges)) = start \<and> \<not> pb_top (pr_end (last ranges)) \<and>
                pr_deadline (last ranges) = ph_deadline best
             then butlast ranges @ [(last ranges)\<lparr>pr_end := next\<rparr>]
             else ranges @ [\<lparr>pr_start = start, pr_end = next, pr_deadline = ph_deadline best\<rparr>])
          else ranges)"

text \<open>The loop over \<open>events\<close>; the argument is the part of the slice from \<open>index\<close> on.\<close>

function sweep ::
  "Decision list \<Rightarrow> projectionEvent list \<Rightarrow> bool list \<Rightarrow> projectionHeapItem list \<Rightarrow> projectionRange list \<Rightarrow> projectionRange list" where
  "sweep decisions [] active items ranges = ranges"
| "sweep decisions (event # events) active items ranges =
     (let same = (\<lambda>other. compareBoundary (pe_at event) (pe_at other) = 0);
          evs = event # takeWhile same events;
          rest = dropWhile same events;
          (active', items') = sweep_add decisions evs (sweep_remove evs active, items) in
      if rest = [] then ranges
      else
        (let next = pe_at (hd rest);
             (items'', best) = heap_current active' items' in
         sweep decisions rest active' items'' (extend_ranges (pe_at event) next best ranges)))"
  by pat_completeness auto

termination
  by (relation "measure (\<lambda>(_, events, _). length events)") (auto simp: less_Suc_eq_le length_dropWhile_le)

fun decompose_ranges :: "bool \<Rightarrow> projectionRange list \<Rightarrow> TimedPrefix list \<Rightarrow> TimedPrefix list option" where
  "decompose_ranges ipv4 [] result = Some result"
| "decompose_ranges ipv4 (r # ranges) result =
     (case decomposeRange result (pr_start r) (pr_end r) (pr_deadline r) ipv4 of
        None \<Rightarrow> None
      | Some result' \<Rightarrow> decompose_ranges ipv4 ranges result')"

definition projectFamily ::
  "TimedPrefix list \<Rightarrow> Decision list \<Rightarrow> bool \<Rightarrow> instant \<Rightarrow> TimedPrefix list option" where
  "projectFamily result decisions ipv4 now =
     (let events = concat (map (decision_events ipv4 now) (enumerate 0 decisions)) in
      if length events = 0 then Some result
      else
        (let ordered = sort_slice (\<lambda>a b. compareBoundary (pe_at a) (pe_at b) < 0) events in
         decompose_ranges ipv4 (sweep decisions ordered (replicate (length decisions) False) [] []) result))"

definition store_projection :: "Store \<Rightarrow> instant \<Rightarrow> TimedPrefix list option" where
  "store_projection s now =
     (if length (so_decisions s) = 0 then Some []
      else
        (let decisions = filter (\<lambda>d. now < de_Deadline d) (map (\<lambda>e. rd_decision (snd e)) (so_decisions s)) in
         if length decisions = 0 then Some []
         else
           (case projectFamily [] decisions True now of
              None \<Rightarrow> None
            | Some result \<Rightarrow> projectFamily result decisions False now)))"

definition store_Projection :: "Store option \<Rightarrow> instant \<Rightarrow> TimedPrefix list option" where
  "store_Projection s now = (case s of None \<Rightarrow> Some [] | Some s \<Rightarrow> store_projection s now)"

section \<open>Addresses and blocks\<close>

lemma uval_split: "uval \<lparr>u_hi = ucast (drop_bit 64 W), u_lo = ucast W\<rparr> = unat (W :: 128 word)"
proof -
  have "unat W < 2 ^ 128" using unsigned_less [of W, where ?'a = nat] by simp
  then have "unat W div 2 ^ 64 < 2 ^ 64" by (simp add: less_mult_imp_div_less)
  moreover have "unat (drop_bit 64 W) = unat W div 2 ^ 64" by (simp only: unat_drop_bit_eq) (simp add: drop_bit_eq_div)
  ultimately have "unat (ucast (drop_bit 64 W) :: 64 word) = unat W div 2 ^ 64"
    by (simp add: unsigned_ucast_eq take_bit_eq_mod)
  moreover have "unat (ucast W :: 64 word) = unat W mod 2 ^ 64" by (simp add: unsigned_ucast_eq take_bit_eq_mod)
  ultimately show ?thesis by (simp add: uval_def div_mult_mod_eq)
qed

lemma be_word_low: "LENGTH('a::len) \<le> LENGTH('b::len) \<Longrightarrow> (be_word bs :: 'a word) = ucast (be_word bs :: 'b word)"
  by (rule bit_eqI) (auto simp: bit_ucast_iff bit_be_word)

lemma uval_bytes:
  assumes "length bs = 16"
  shows "uval \<lparr>u_hi = be_word (take 8 bs), u_lo = be_word (drop 8 bs)\<rparr> = unat (be_word bs :: 128 word)"
proof -
  have "be_word (take 8 bs) = (ucast (drop_bit 64 (be_word bs :: 128 word)) :: 64 word)"
    using be_word_take [of bs 8 8, where ?'a = 64 and ?'b = 128] assms by simp
  moreover have "be_word (drop 8 bs) = (ucast (be_word bs :: 128 word) :: 64 word)"
    using be_word_drop [of bs 8 8, where ?'a = 64] be_word_low [of bs, where ?'a = 64 and ?'b = 128] assms by simp
  ultimately show ?thesis by (simp add: uval_split)
qed

lemma list_of_length: "length xs = Suc n \<longleftrightarrow> (\<exists>y ys. xs = y # ys \<and> length ys = n)"
  by (cases xs) auto

lemma shifts_be_word:
  "push_bit 56 (ucast a) OR push_bit 48 (ucast b) OR push_bit 40 (ucast c) OR push_bit 32 (ucast d) OR
   push_bit 24 (ucast e) OR push_bit 16 (ucast f) OR push_bit 8 (ucast g) OR ucast h
   = (be_word [a, b, c, d, e, f, g, h] :: 64 word)"
  by (simp add: be_word_def push_bit_or or.assoc)

lemma addr128_value:
  assumes "Is6 a"
  shows "uval (addr128 a) = aval a"
proof -
  obtain v z where a: "a = IP6 v z" using assms by (cases a) auto
  define bs where "bs = be_bytes 16 v"
  have l: "length bs = 16" by (simp add: bs_def)
  have "take 8 bs = map ((!) bs) [0..<8]" "drop 8 bs = map ((!) bs) [8..<16]"
  proof -
    have "bs = map ((!) bs) [0..<16]" using l map_nth [of bs] by simp
    then have "take 8 bs = take 8 (map ((!) bs) [0..<16])" "drop 8 bs = drop 8 (map ((!) bs) [0..<16])" by metis+
    then show "take 8 bs = map ((!) bs) [0..<8]" "drop 8 bs = map ((!) bs) [8..<16]"
      by (simp_all only: take_map drop_map take_upt drop_upt) simp_all
  qed
  then have t: "take 8 bs = [bs ! 0, bs ! 1, bs ! 2, bs ! 3, bs ! 4, bs ! 5, bs ! 6, bs ! 7]"
    "drop 8 bs = [bs ! 8, bs ! 9, bs ! 10, bs ! 11, bs ! 12, bs ! 13, bs ! 14, bs ! 15]"
    by (simp_all add: upt_rec numeral_eq_Suc)
  have "addr128 a = \<lparr>u_hi = be_word (take 8 bs), u_lo = be_word (drop 8 bs)\<rparr>"
    unfolding t by (simp only: a addr128_def As16.simps Let_def bs_def [symmetric] shifts_be_word)
  then have "uval (addr128 a) = unat (be_word bs :: 128 word)" using uval_bytes [OF l] by simp
  also have "\<dots> = unat v" by (simp add: bs_def be_word_be_bytes)
  finally show ?thesis by (simp add: a)
qed

lemma addr128v4_value:
  assumes "Is4 a"
  shows "uval (addr128v4 (As4 a)) = aval a"
proof -
  obtain v where a: "a = IP4 v" using assms by (cases a) auto
  define bs where "bs = be_bytes 4 v"
  have l: "length bs = 4" by (simp add: bs_def)
  then have "bs = map ((!) bs) [0..<4]" by (metis map_nth)
  then have t: "bs = [bs ! 0, bs ! 1, bs ! 2, bs ! 3]" by (simp add: upt_rec numeral_eq_Suc)
  have "u_lo (addr128v4 bs) = (be_word [bs ! 0, bs ! 1, bs ! 2, bs ! 3] :: 64 word)"
    by (simp add: addr128v4_def be_word_def push_bit_or or.assoc)
  then have lo: "u_lo (addr128v4 bs) = (be_word bs :: 64 word)" using t by simp
  have "v = be_word bs" by (simp add: bs_def be_word_be_bytes)
  also have "\<dots> = ucast (be_word bs :: 64 word)" by (rule be_word_low) simp
  finally have v: "v = ucast (be_word bs :: 64 word)" .
  have "be_word bs = (ucast v :: 64 word)"
    by (rule bit_eqI) (auto simp: v bit_ucast_iff bit_be_word l)
  moreover have "unat v < 2 ^ 64" using unsigned_less [of v, where ?'a = nat] by simp
  ultimately have "unat (be_word bs :: 64 word) = unat v" by (simp add: unsigned_ucast_eq take_bit_nat_eq_self_iff)
  then show ?thesis using lo by (simp add: a uval_def addr128v4_def bs_def)
qed

lemma range_prefix_value:
  assumes "uval start < 2 ^ (if ipv4 then 32 else 128)"
  shows "\<exists>a. range_prefix start b ipv4 = PrefixFrom a (int b) \<and> addr_ok a \<and>
    BitLen a = (if ipv4 then 32 else 128) \<and> aval a = uval start"
proof (cases ipv4)
  case True
  have "be_word (drop 4 (be_bytes 8 (u_lo start))) = (be_word (be_bytes 8 (u_lo start)) :: 32 word)"
    by (rule be_word_drop [of _ 4 4]) simp_all
  also have "\<dots> = ucast (u_lo start)" by (rule be_word_bytes_low) simp_all
  finally have w: "be_word (drop 4 (be_bytes 8 (u_lo start))) = (ucast (u_lo start) :: 32 word)" .
  have u: "u_hi start = 0" "uval start < 4294967296" using assms True uval_small [of start] by auto
  then have "unat (u_lo start) = uval start" by (simp add: uval_def)
  then have "unat (ucast (u_lo start) :: 32 word) = uval start"
    using u by (simp add: unsigned_ucast_eq take_bit_nat_eq_self_iff)
  then show ?thesis using True w
    by (intro exI [of _ "IP4 (ucast (u_lo start))"]) (simp add: range_prefix_def AddrFrom4_def addr_ok_def)
next
  case False
  define bs where "bs = be_bytes 8 (u_hi start) @ be_bytes 8 (u_lo start)"
  have "be_word (take 8 bs) = u_hi start" "be_word (drop 8 bs) = u_lo start"
    by (simp_all add: bs_def be_word_be_bytes)
  then have "unat (be_word bs :: 128 word) = uval start" using uval_bytes [of bs] by (simp add: bs_def uval_def)
  then show ?thesis using False
    by (intro exI [of _ "IP6 (be_word bs) ''''"]) (simp add: range_prefix_def AddrFrom16_def addr_ok_def bs_def)
qed

lemma range_prefix_ok:
  assumes w: "w = (if ipv4 then 32 else 128)" and v: "uval start < 2 ^ w" and s: "s \<le> w" "2 ^ s dvd uval start"
  defines "p \<equiv> range_prefix start (w - s) ipv4"
  shows "pfx_ok p" "pfam p = w" "plo p = uval start" "plen p = w - s" "psize p = 2 ^ s" "phi p = uval start + 2 ^ s - 1"
proof -
  obtain a where a: "p = PrefixFrom a (int (w - s))" "addr_ok a" "BitLen a = w" "aval a = uval start"
    using range_prefix_value [of start ipv4 "w - s"] v w unfolding p_def by blast
  show f: "pfam p = w" and l: "plo p = uval start" and n: "plen p = w - s"
    using a by (simp_all add: pfam_def plo_def plen_def addr_ok_def)
  show z: "psize p = 2 ^ s" using s by (simp add: psize_def f n)
  show "phi p = uval start + 2 ^ s - 1" by (simp add: phi_def l z)
  have "addr_ok (pAddr p)" "0 < bitsPlusOne p" using a by (cases a; simp add: addr_ok_def)+
  then show "pfx_ok p" using s(2) by (simp add: pfx_ok_iff f l n z)
qed

text \<open>The search takes the largest aligned block that ends at or before the boundary.\<close>

lemma find_rev_upt: "find P (rev [0..<Suc n]) = Some s \<Longrightarrow> s \<le> n \<and> P s \<and> (\<forall>k\<le>n. P k \<longrightarrow> k \<le> s)"
proof (induction n)
  case (Suc n)
  then show ?case by (cases "P (Suc n)") (auto simp: le_Suc_eq)
qed (auto split: if_splits)

lemma chosen_size_greatest:
  assumes w: "w = 32 \<or> w = 128" and v: "uval start < 2 ^ w" and e: "bound_ok w end'" "uval start < bval w end'"
  obtains s where "chosen_size start end' w = Some s" "s \<le> w" "2 ^ s dvd uval start" "uval start + 2 ^ s \<le> bval w end'"
    "bval w (addPower start s w) = uval start + 2 ^ s" "bound_ok w (addPower start s w)"
    "\<And>k. k \<le> w \<Longrightarrow> 2 ^ k dvd uval start \<Longrightarrow> uval start + 2 ^ k \<le> bval w end' \<Longrightarrow> k \<le> s"
proof -
  let ?P = "\<lambda>s. aligned start s w \<and> compareBoundary (addPower start s w) end' \<le> 0"
  have fits: "uval start + 2 ^ s \<le> 2 ^ w" if s: "s \<le> w" "2 ^ s dvd uval start" for s
  proof -
    from s(2) obtain m where m: "uval start = 2 ^ s * m" by (rule dvdE)
    have d: "(2::nat) ^ w = 2 ^ s * 2 ^ (w - s)" using s(1) by (simp add: power_add [symmetric])
    have "Suc m \<le> 2 ^ (w - s)" using v unfolding m d by simp
    then have "2 ^ s * Suc m \<le> 2 ^ w" unfolding d by (rule mult_le_mono2)
    then show ?thesis unfolding m by simp
  qed
  have P: "?P s \<longleftrightarrow> 2 ^ s dvd uval start \<and> uval start + 2 ^ s \<le> bval w end'" if "s \<le> w" for s
    using aligned_dvd [OF w that v] addPower_value [OF w that v] compareBoundary_le [OF _ e(1)] fits [OF that]
    by (auto simp: min_absorb1)
  have "?P 0" using P [of 0] e(2) by simp
  then have "find ?P (rev [0..<Suc w]) \<noteq> None" unfolding find_None_iff by auto
  then obtain s where s: "find ?P (rev [0..<Suc w]) = Some s" by blast
  note f = find_rev_upt [OF s]
  show thesis
  proof (rule that [of s])
    show "chosen_size start end' w = Some s" by (simp only: chosen_size_def s)
    show "s \<le> w" using f by blast
    show d: "2 ^ s dvd uval start" "uval start + 2 ^ s \<le> bval w end'" using f P by blast+
    show "bval w (addPower start s w) = uval start + 2 ^ s" "bound_ok w (addPower start s w)"
      using addPower_value [OF w _ v, of s] f fits [of s] d by (simp_all add: min_absorb1)
    show "k \<le> s" if "k \<le> w" "2 ^ k dvd uval start" "uval start + 2 ^ k \<le> bval w end'" for k
      using f P that by blast
  qed
qed

lemma decomposeRange_done:
  "\<not> pb_top end' \<Longrightarrow> uval (pb_value end') \<le> uval start \<Longrightarrow> decomposeRange result start end' d ipv4 = Some result"
  using compareUint128_less [of start "pb_value end'"] by (subst decomposeRange.simps) (simp add: Let_def not_less)

lemma decomposeRange_step:
  assumes "uval start < bval (if ipv4 then 32 else 128) end'" "\<not> (pb_top end' \<and> uval start = 0)"
    "chosen_size start end' (if ipv4 then 32 else 128) = Some s"
  shows "decomposeRange result start end' d ipv4 =
    (let candidate = addPower start s (if ipv4 then 32 else 128);
         result' = result @ [\<lparr>tp_Prefix = range_prefix start ((if ipv4 then 32 else 128) - s) ipv4, tp_Deadline = d\<rparr>] in
     if pb_top candidate then Some result' else decomposeRange result' (pb_value candidate) end' d ipv4)"
proof -
  have "\<not> (pb_top end' \<and> u_hi start = 0 \<and> u_lo start = 0)" using assms(2) by (auto simp: uval_def)
  moreover have "\<not> (\<not> pb_top end' \<and> 0 \<le> compareUint128 start (pb_value end'))"
    using assms(1) compareUint128_less [of start "pb_value end'"] by (auto simp: bval_def)
  ultimately show ?thesis by (subst decomposeRange.simps) (simp only: Let_def assms(3) option.case if_False)
qed

definition timed :: "instant \<Rightarrow> prefix \<Rightarrow> TimedPrefix" where
  "timed d p = \<lparr>tp_Prefix = p, tp_Deadline = d\<rparr>"

lemma tp_timed [simp]: "tp_Prefix (timed d p) = p" "tp_Deadline (timed d p) = d"
  by (simp_all add: timed_def)

lemma everything_prefixes:
  "ParsePrefix ''::/0'' = Some (Prefix (IP6 0 '''') 1)" "ParsePrefix ''0.0.0.0/0'' = Some (Prefix (IP4 0) 1)"
  by code_simp+

lemma decomposeRange_everything:
  assumes "uval start = 0" "pb_top end'"
  shows "\<exists>p. decomposeRange result start end' d ipv4 = Some (result @ [timed d p]) \<and>
    block_cover (if ipv4 then 32 else 128) 0 (2 ^ (if ipv4 then 32 else 128) - 1) [p]"
proof -
  define p where "p = (if ipv4 then Prefix (IP4 0) 1 else Prefix (IP6 0 '''') 1)"
  have z: "u_hi start = 0" "u_lo start = 0" using assms(1) by (auto simp: uval_def unat_eq_zero)
  have "decomposeRange result start end' d ipv4 = Some (result @ [timed d p])"
    using z assms(2) by (subst decomposeRange.simps) (simp add: Let_def everything_prefixes p_def timed_def)
  moreover have ok: "pfx_ok p" by (simp add: p_def pfx_ok_iff addr_ok_def plen_def pfam_def psize_def plo_def)
  moreover have "pfam p = (if ipv4 then 32 else 128)" "plo p = 0" "phi p = 2 ^ (if ipv4 then 32 else 128) - 1"
    by (auto simp: p_def pfam_def plo_def phi_def psize_def plen_def)
  ultimately show ?thesis using block_cover_last [OF ok] by metis
qed

lemma decomposeRange_correct:
  assumes w: "w = (if ipv4 then 32 else 128)"
    and "uval start < 2 ^ w" "bound_ok w end'" "uval start < bval w end'"
  shows "\<exists>ps. decomposeRange result start end' d ipv4 = Some (result @ map (timed d) ps) \<and>
    block_cover w (uval start) (bval w end' - 1) ps"
  using assms(2-)
proof (induction "bval w end' - uval start" arbitrary: start result rule: less_induct)
  case less
  show ?case
  proof (cases "pb_top end' \<and> uval start = 0")
    case True
    then have z: "uval start = 0" "pb_top end'" by simp_all
    from decomposeRange_everything [OF z, of result d ipv4, folded w]
    obtain p where "decomposeRange result start end' d ipv4 = Some (result @ [timed d p])"
      "block_cover w 0 (2 ^ w - 1) [p]" by blast
    then show ?thesis using True by (intro exI [of _ "[p]"]) (simp add: bval_def)
  next
    case False
    have w': "w = 32 \<or> w = 128" using w by simp
    obtain s where s: "chosen_size start end' w = Some s" "s \<le> w" "2 ^ s dvd uval start" "uval start + 2 ^ s \<le> bval w end'"
      "bval w (addPower start s w) = uval start + 2 ^ s" "bound_ok w (addPower start s w)"
      "\<And>k. k \<le> w \<Longrightarrow> 2 ^ k dvd uval start \<Longrightarrow> uval start + 2 ^ k \<le> bval w end' \<Longrightarrow> k \<le> s"
      using chosen_size_greatest [OF w' less.prems] by blast
    define p c where "p = range_prefix start (w - s) ipv4" and "c = addPower start s w"
    note p = range_prefix_ok [OF w less.prems(1) s(2,3), folded p_def]
    have step: "decomposeRange result start end' d ipv4 =
        (if pb_top c then Some (result @ [timed d p]) else decomposeRange (result @ [timed d p]) (pb_value c) end' d ipv4)"
      using decomposeRange_step [OF less.prems(3) [unfolded w] False s(1) [unfolded w], of result d]
      unfolding w [symmetric] p_def c_def timed_def by (simp add: Let_def)
    have hi: "phi p \<le> bval w end' - 1" using p(6) s(4) by simp
    show ?thesis
    proof (cases "bval w c = bval w end'")
      case True
      have "decomposeRange result start end' d ipv4 = Some (result @ [timed d p])"
      proof (cases "pb_top c")
        case nt: False
        then have "\<not> pb_top end'" using True s(6) by (auto simp: bval_def bound_ok_def c_def)
        then show ?thesis using step nt True decomposeRange_done [of end' "pb_value c"] by (simp add: bval_def)
      qed (simp add: step)
      moreover have "phi p = bval w end' - 1" using True s(5) p(6) by (simp add: c_def)
      ultimately show ?thesis using block_cover_last [OF p(1)] p by (intro exI [of _ "[p]"]) simp
    next
      case lt: False
      then have less': "uval start + 2 ^ s < bval w end'" using s(4,5) by (simp add: c_def)
      then have nt: "\<not> pb_top c" using s(5) bval_le [OF less.prems(2)] by (auto simp: bval_def c_def)
      then have u: "uval (pb_value c) = uval start + 2 ^ s" "uval (pb_value c) < 2 ^ w"
        using s(5,6) by (auto simp: bval_def bound_ok_def c_def)
      have "(0::nat) < 2 ^ s" by simp
      then have "bval w end' - uval (pb_value c) < bval w end' - uval start" using u(1) less' by linarith
      from less.hyps [OF this u(2) less.prems(2), of "result @ [timed d p]"] obtain ps where
        ps: "decomposeRange (result @ [timed d p]) (pb_value c) end' d ipv4 = Some ((result @ [timed d p]) @ map (timed d) ps)"
          "block_cover w (uval start + 2 ^ s) (bval w end' - 1) ps" using u(1) less' by auto
      have max: "phi q \<le> phi p" if q: "pfx_ok q" "pfam q = pfam p" "plo q = plo p" "phi q \<le> bval w end' - 1" for q
      proof -
        have "psize q = 2 ^ (w - plen q)" "psize q dvd uval start" using q p pfx_okD(6) [OF q(1)] by (simp_all add: psize_def)
        moreover have "uval start + psize q \<le> bval w end'"
          using q(3,4) p(3) less.prems(3) psize_pos [of q] unfolding phi_def by linarith
        ultimately have "w - plen q \<le> s" using s(7) [of "w - plen q"] by simp
        then have "psize q \<le> psize p" using \<open>psize q = 2 ^ (w - plen q)\<close> p(5) by simp
        then show ?thesis using q(3) unfolding phi_def by simp
      qed
      have "Suc (phi p) = uval start + 2 ^ s" using p(6) by simp
      then have "block_cover w (uval start) (bval w end' - 1) (p # ps)"
        using block_cover_Cons [OF p(1) hi] max ps(2) p(2,3) by simp
      then show ?thesis using step nt ps(1) by (intro exI [of _ "p # ps"]) simp
    qed
  qed
qed

section \<open>The sweep is exact\<close>

interpretation deadline_heap: heap_order deadline_Less
  by unfold_locales (auto simp: deadline_Less_def)

lemma set_heap_Push [simp]: "set (heap_Push lt xs x) = insert x (set xs)"
  by (metis mset_heap_Push set_mset_add_mset_insert set_mset_mset)

lemma set_heap_Pop: "xs \<noteq> [] \<Longrightarrow> insert (xs ! 0) (set (heap_Pop lt xs)) = set xs"
  by (metis mset_heap_Pop set_mset_add_mset_insert set_mset_mset)

abbreviation heap_ok :: "projectionHeapItem list \<Rightarrow> bool" where
  "heap_ok items \<equiv> deadline_heap.heap items (length items)"

text \<open>Items leave the heap only while they are inactive, and the one reported is a latest active one.\<close>

lemma heap_current_latest:
  assumes "heap_ok items" "heap_current active items = (items', best)"
  shows "heap_ok items' \<and> set items' \<subseteq> set items \<and> (\<forall>x\<in>set items. active ! ph_index x \<longrightarrow> x \<in> set items') \<and>
    (case best of
       None \<Rightarrow> (\<forall>x\<in>set items. \<not> active ! ph_index x)
     | Some b \<Rightarrow> b \<in> set items \<and> active ! ph_index b \<and> (\<forall>x\<in>set items. active ! ph_index x \<longrightarrow> ph_deadline x \<le> ph_deadline b))"
  using assms
proof (induction active items rule: heap_current.induct)
  case (1 active items)
  consider "items = []" | "items \<noteq> []" "active ! ph_index (items ! 0)" | "items \<noteq> []" "\<not> active ! ph_index (items ! 0)"
    by blast
  then show ?case
  proof cases
    case 1
    then show ?thesis using "1.prems" by (simp add: heap_current.simps)
  next
    case 2
    then have "items' = items" "best = Some (items ! 0)" using "1.prems"(2) by (auto simp: heap_current.simps)
    moreover have "ph_deadline x \<le> ph_deadline (items ! 0)" if "x \<in> set items" for x
      using deadline_heap.heap_first_least [OF "1.prems"(1) that] by (simp add: deadline_Less_def)
    ultimately show ?thesis using 2 "1.prems"(1) by simp
  next
    case 3
    let ?rest = "heap_Pop deadline_Less items"
    have "heap_ok ?rest" using deadline_heap.heap_Pop_heap "1.prems"(1) 3(1) by blast
    moreover have "heap_current active ?rest = (items', best)"
      using "1.prems"(2) 3 by (subst (asm) heap_current.simps) simp
    ultimately have "heap_ok items' \<and> set items' \<subseteq> set ?rest \<and> (\<forall>x\<in>set ?rest. active ! ph_index x \<longrightarrow> x \<in> set items') \<and>
      (case best of None \<Rightarrow> (\<forall>x\<in>set ?rest. \<not> active ! ph_index x)
       | Some b \<Rightarrow> b \<in> set ?rest \<and> active ! ph_index b \<and> (\<forall>x\<in>set ?rest. active ! ph_index x \<longrightarrow> ph_deadline x \<le> ph_deadline b))"
      using "1.IH" 3 by blast
    then show ?thesis using set_heap_Pop [OF 3(1), of deadline_Less, symmetric] 3(2) by (cases best) auto
  qed
qed

lemma nth_update: "j < length xs \<Longrightarrow> xs[i := x] ! j = (if i = j then x else xs ! j)"
  by (cases "i < length xs") auto

lemma sweep_remove_nth:
  "length (sweep_remove evs active) = length active \<and>
   (i < length active \<longrightarrow> sweep_remove evs active ! i \<longleftrightarrow> active ! i \<and> \<not> (\<exists>ev\<in>set evs. pe_remove ev \<and> pe_index ev = i))"
  unfolding sweep_remove_def by (induction evs arbitrary: active) (auto simp: nth_update)

lemma sweep_add_nth:
  assumes "sweep_add decisions evs (active, items) = (active', items')"
  shows "length active' = length active"
    and "i < length active \<Longrightarrow> active' ! i \<longleftrightarrow> active ! i \<or> (\<exists>ev\<in>set evs. \<not> pe_remove ev \<and> pe_index ev = i)"
    and "set items' = set items \<union>
      {\<lparr>ph_index = pe_index ev, ph_deadline = de_Deadline (decisions ! pe_index ev)\<rparr> |ev. ev \<in> set evs \<and> \<not> pe_remove ev}"
    and "heap_ok items \<Longrightarrow> heap_ok items'"
proof -
  have "length active' = length active \<and>
    (i < length active \<longrightarrow> active' ! i \<longleftrightarrow> active ! i \<or> (\<exists>ev\<in>set evs. \<not> pe_remove ev \<and> pe_index ev = i)) \<and>
    set items' = set items \<union>
      {\<lparr>ph_index = pe_index ev, ph_deadline = de_Deadline (decisions ! pe_index ev)\<rparr> |ev. ev \<in> set evs \<and> \<not> pe_remove ev} \<and>
    (heap_ok items \<longrightarrow> heap_ok items')" for i
    using assms unfolding sweep_add_def
  proof (induction evs arbitrary: active items)
    case (Cons ev evs)
    show ?case
    proof (cases "pe_remove ev")
      case True
      then show ?thesis using Cons.IH [of active items] Cons.prems by auto
    next
      case False
      then show ?thesis
        using Cons.IH [of "active[pe_index ev := True]"
            "heap_Push deadline_Less items \<lparr>ph_index = pe_index ev, ph_deadline = de_Deadline (decisions ! pe_index ev)\<rparr>"] Cons.prems
          deadline_heap.heap_Push_heap [of items]
        by (auto simp: nth_update)
    qed
  qed simp
  then show "length active' = length active"
    and "i < length active \<Longrightarrow> active' ! i \<longleftrightarrow> active ! i \<or> (\<exists>ev\<in>set evs. \<not> pe_remove ev \<and> pe_index ev = i)"
    and "set items' = set items \<union>
      {\<lparr>ph_index = pe_index ev, ph_deadline = de_Deadline (decisions ! pe_index ev)\<rparr> |ev. ev \<in> set evs \<and> \<not> pe_remove ev}"
    and "heap_ok items \<Longrightarrow> heap_ok items'" by blast+
qed

text \<open>
  What the sweep is given: the starts and ends of the intervals \<open>[lo i, hi i)\<close> of the
  indices in \<open>I\<close>, with a deadline for each. \<open>latest x d\<close> says that \<open>d\<close> is the
  latest deadline of the intervals around \<open>x\<close>.
\<close>

definition events_ok ::
  "nat \<Rightarrow> nat set \<Rightarrow> (nat \<Rightarrow> nat) \<Rightarrow> (nat \<Rightarrow> nat) \<Rightarrow> nat \<Rightarrow> projectionEvent set \<Rightarrow> bool" where
  "events_ok w I lo hi n E =
     ((\<forall>i\<in>I. i < n \<and> lo i < hi i) \<and>
      (\<forall>ev\<in>E. bound_ok w (pe_at ev) \<and> pe_index ev \<in> I \<and>
         bval w (pe_at ev) = (if pe_remove ev then hi (pe_index ev) else lo (pe_index ev))) \<and>
      (\<forall>i\<in>I. \<forall>rm. \<exists>ev\<in>E. pe_remove ev = rm \<and> pe_index ev = i))"

definition latest :: "nat set \<Rightarrow> (nat \<Rightarrow> nat) \<Rightarrow> (nat \<Rightarrow> nat) \<Rightarrow> (nat \<Rightarrow> instant) \<Rightarrow> nat \<Rightarrow> instant \<Rightarrow> bool" where
  "latest I lo hi dl x d =
     ((\<exists>i\<in>I. lo i \<le> x \<and> x < hi i \<and> dl i = d) \<and> (\<forall>i\<in>I. lo i \<le> x \<longrightarrow> x < hi i \<longrightarrow> dl i \<le> d))"

definition range_ok' :: "nat \<Rightarrow> nat \<Rightarrow> projectionRange \<Rightarrow> bool" where
  "range_ok' w b r =
     (uval (pr_start r) < 2 ^ w \<and> bound_ok w (pr_end r) \<and> uval (pr_start r) < bval w (pr_end r) \<and> bval w (pr_end r) \<le> b)"

definition ranges_ok ::
  "nat \<Rightarrow> nat set \<Rightarrow> (nat \<Rightarrow> nat) \<Rightarrow> (nat \<Rightarrow> nat) \<Rightarrow> (nat \<Rightarrow> instant) \<Rightarrow> nat \<Rightarrow> projectionRange list \<Rightarrow> bool" where
  "ranges_ok w I lo hi dl b rs =
     ((\<forall>r\<in>set rs. range_ok' w b r) \<and>
      sorted_wrt (\<lambda>r r'. bval w (pr_end r) \<le> uval (pr_start r')) rs \<and>
      (\<forall>r\<in>set rs. \<forall>x. uval (pr_start r) \<le> x \<longrightarrow> x < bval w (pr_end r) \<longrightarrow> latest I lo hi dl x (pr_deadline r)) \<and>
      (\<forall>x<b. \<forall>i\<in>I. lo i \<le> x \<longrightarrow> x < hi i \<longrightarrow> (\<exists>r\<in>set rs. uval (pr_start r) \<le> x \<and> x < bval w (pr_end r))))"

lemma ranges_ok_skip:
  assumes "ranges_ok w I lo hi dl b rs" "b \<le> b'" "\<And>x i. b \<le> x \<Longrightarrow> x < b' \<Longrightarrow> i \<in> I \<Longrightarrow> \<not> (lo i \<le> x \<and> x < hi i)"
  shows "ranges_ok w I lo hi dl b' rs"
  using assms unfolding ranges_ok_def range_ok'_def by (meson le_trans not_le)

lemma ranges_ok_snoc:
  assumes rs: "ranges_ok w I lo hi dl b rs"
    and r: "uval start = b" "b < 2 ^ w" "bound_ok w next" "b < bval w next"
    and d: "\<And>x. b \<le> x \<Longrightarrow> x < bval w next \<Longrightarrow> latest I lo hi dl x d"
  shows "ranges_ok w I lo hi dl (bval w next) (rs @ [\<lparr>pr_start = start, pr_end = next, pr_deadline = d\<rparr>])"
  using assms unfolding ranges_ok_def range_ok'_def by (auto simp: sorted_wrt_append not_less)

lemma ranges_ok_extend:
  assumes rs: "ranges_ok w I lo hi dl b (rs @ [r])"
    and r: "bval w (pr_end r) = b" "bound_ok w next" "b < bval w next"
    and d: "\<And>x. b \<le> x \<Longrightarrow> x < bval w next \<Longrightarrow> latest I lo hi dl x (pr_deadline r)"
  shows "ranges_ok w I lo hi dl (bval w next) (rs @ [r\<lparr>pr_end := next\<rparr>])"
proof -
  note o = rs [unfolded ranges_ok_def]
  have 1: "\<forall>q\<in>set (rs @ [r\<lparr>pr_end := next\<rparr>]). range_ok' w (bval w next) q"
    using o r by (fastforce simp: range_ok'_def)
  have 2: "sorted_wrt (\<lambda>r r'. bval w (pr_end r) \<le> uval (pr_start r')) (rs @ [r\<lparr>pr_end := next\<rparr>])"
    using o by (auto simp: sorted_wrt_append)
  have 3: "latest I lo hi dl x (pr_deadline q)"
    if "q \<in> set (rs @ [r\<lparr>pr_end := next\<rparr>])" "uval (pr_start q) \<le> x" "x < bval w (pr_end q)" for q x
  proof (cases "q \<in> set rs")
    case True
    then show ?thesis using o that by auto
  next
    case False
    then have q: "q = r\<lparr>pr_end := next\<rparr>" using that by auto
    show ?thesis using o that d [of x] r(1) unfolding q by (cases "b \<le> x") auto
  qed
  have 4: "\<exists>q\<in>set (rs @ [r\<lparr>pr_end := next\<rparr>]). uval (pr_start q) \<le> x \<and> x < bval w (pr_end q)"
    if x: "x < bval w next" "i \<in> I" "lo i \<le> x" "x < hi i" for x i
  proof (cases "x < b")
    case True
    with o x obtain q where q: "q \<in> set (rs @ [r])" "uval (pr_start q) \<le> x" "x < bval w (pr_end q)"
      by blast
    then show ?thesis using r(1) x(1) by (cases "q = r") auto
  next
    case False
    moreover have "uval (pr_start r) < b" using o r(1) by (auto simp: range_ok'_def)
    ultimately show ?thesis using x(1) by auto
  qed
  show ?thesis unfolding ranges_ok_def using 1 2 3 4 by blast
qed

lemma extend_ranges_ok:
  assumes rs: "ranges_ok w I lo hi dl b rs" and b: "bound_ok w at" "bval w at = b" "bound_ok w next" "b < bval w next"
    and best: "case best of
        None \<Rightarrow> (\<forall>x i. b \<le> x \<longrightarrow> x < bval w next \<longrightarrow> i \<in> I \<longrightarrow> \<not> (lo i \<le> x \<and> x < hi i))
      | Some it \<Rightarrow> (\<forall>x. b \<le> x \<longrightarrow> x < bval w next \<longrightarrow> latest I lo hi dl x (ph_deadline it))"
  shows "ranges_ok w I lo hi dl (bval w next) (extend_ranges at next best rs)"
proof (cases best)
  case None
  then show ?thesis using ranges_ok_skip [OF rs] best b(4) by (simp add: extend_ranges_def less_imp_le)
next
  case (Some it)
  have "compareBoundary at next < 0" using b compareBoundary_less [OF b(1,3)] by simp
  have top: "\<not> pb_top at" using b(2,4) bval_le [OF b(3)] by (auto simp: bval_def)
  then have v: "uval (pb_value at) = b" "b < 2 ^ w" using b(1,2) by (auto simp: bval_def bound_ok_def)
  have d: "\<And>x. b \<le> x \<Longrightarrow> x < bval w next \<Longrightarrow> latest I lo hi dl x (ph_deadline it)" using best Some by simp
  show ?thesis
  proof (cases "length rs \<noteq> 0 \<and> pb_value (pr_end (last rs)) = pb_value at \<and> \<not> pb_top (pr_end (last rs)) \<and>
      pr_deadline (last rs) = ph_deadline it")
    case True
    then have split: "rs = butlast rs @ [last rs]" by simp
    have e: "bval w (pr_end (last rs)) = b" using True v by (simp add: bval_def)
    have "ranges_ok w I lo hi dl (bval w next) (butlast rs @ [(last rs)\<lparr>pr_end := next\<rparr>])"
      using ranges_ok_extend [of w I lo hi dl b "butlast rs" "last rs" "next"] rs split e b(3,4) d True by simp
    then show ?thesis using True Some \<open>compareBoundary at next < 0\<close> by (simp add: extend_ranges_def Let_def)
  next
    case False
    have "ranges_ok w I lo hi dl (bval w next) (rs @ [\<lparr>pr_start = pb_value at, pr_end = next, pr_deadline = ph_deadline it\<rparr>])"
      by (rule ranges_ok_snoc [OF rs v b(3,4) d])
    then show ?thesis using False Some \<open>compareBoundary at next < 0\<close> by (auto simp: extend_ranges_def Let_def)
  qed
qed

text \<open>The state before the events at boundary \<open>b\<close>, and what processing them makes of it.\<close>

definition sweep_state ::
  "Decision list \<Rightarrow> nat set \<Rightarrow> (nat \<Rightarrow> bool) \<Rightarrow> bool list \<Rightarrow> projectionHeapItem list \<Rightarrow> bool" where
  "sweep_state decisions I on active items =
     (length active = length decisions \<and> (\<forall>i<length decisions. active ! i \<longleftrightarrow> i \<in> I \<and> on i) \<and> heap_ok items \<and>
      (\<forall>x\<in>set items. ph_index x \<in> I \<and> ph_deadline x = de_Deadline (decisions ! ph_index x)) \<and>
      (\<forall>i\<in>I. on i \<longrightarrow> (\<exists>x\<in>set items. ph_index x = i)))"

lemma events_okD:
  assumes "events_ok w I lo hi n E"
  shows "\<And>i. i \<in> I \<Longrightarrow> i < n" "\<And>i. i \<in> I \<Longrightarrow> lo i < hi i"
    "\<And>ev. ev \<in> E \<Longrightarrow> bound_ok w (pe_at ev)" "\<And>ev. ev \<in> E \<Longrightarrow> pe_index ev \<in> I"
    "\<And>ev. ev \<in> E \<Longrightarrow> pe_remove ev \<Longrightarrow> bval w (pe_at ev) = hi (pe_index ev)"
    "\<And>ev. ev \<in> E \<Longrightarrow> \<not> pe_remove ev \<Longrightarrow> bval w (pe_at ev) = lo (pe_index ev)"
    "\<And>i rm. i \<in> I \<Longrightarrow> \<exists>ev\<in>E. pe_remove ev = rm \<and> pe_index ev = i"
  using assms by (simp_all add: events_ok_def)

lemma sweep_stateD:
  assumes "sweep_state decisions I on active items"
  shows "length active = length decisions" "\<And>i. i < length decisions \<Longrightarrow> active ! i \<longleftrightarrow> i \<in> I \<and> on i" "heap_ok items"
    "\<And>x. x \<in> set items \<Longrightarrow> ph_index x \<in> I" "\<And>x. x \<in> set items \<Longrightarrow> ph_deadline x = de_Deadline (decisions ! ph_index x)"
    "\<And>i. i \<in> I \<Longrightarrow> on i \<Longrightarrow> \<exists>x\<in>set items. ph_index x = i"
  using assms by (simp_all add: sweep_state_def)

lemma sweep_group:
  assumes ev: "events_ok w I lo hi (length decisions) E"
    and st: "sweep_state decisions I (\<lambda>i. lo i < b \<and> b \<le> hi i) active items"
    and g: "set evs = {ev \<in> E. bval w (pe_at ev) = b}"
    and a: "sweep_add decisions evs (sweep_remove evs active, items) = (active', items')"
  shows "sweep_state decisions I (\<lambda>i. lo i \<le> b \<and> b < hi i) active' items'"
proof -
  note e = events_okD [OF ev] and s = sweep_stateD [OF st]
  have rm: "length (sweep_remove evs active) = length active \<and> (i < length active \<longrightarrow> sweep_remove evs active ! i \<longleftrightarrow>
      active ! i \<and> \<not> (\<exists>ev\<in>set evs. pe_remove ev \<and> pe_index ev = i))" for i by (rule sweep_remove_nth)
  note ad = sweep_add_nth [OF a]
  have starts: "(\<exists>ev\<in>set evs. \<not> pe_remove ev \<and> pe_index ev = i) \<longleftrightarrow> i \<in> I \<and> lo i = b" for i
    using e(4,6) e(7) [of i False] g by fastforce
  have ends: "(\<exists>ev\<in>set evs. pe_remove ev \<and> pe_index ev = i) \<longleftrightarrow> i \<in> I \<and> hi i = b" for i
    using e(4,5) e(7) [of i True] g by fastforce
  have len: "length active' = length decisions" using ad(1) rm s(1) by simp
  have act: "active' ! i \<longleftrightarrow> i \<in> I \<and> lo i \<le> b \<and> b < hi i" if "i < length decisions" for i
  proof -
    have "active' ! i \<longleftrightarrow> active ! i \<and> \<not> (i \<in> I \<and> hi i = b) \<or> i \<in> I \<and> lo i = b"
      using ad(2) [of i] rm [of i] s(1) that starts [of i] ends [of i] by simp
    moreover have "active ! i \<longleftrightarrow> i \<in> I \<and> lo i < b \<and> b \<le> hi i" by (rule s(2) [OF that])
    moreover have "i \<in> I \<Longrightarrow> lo i < hi i" by (rule e(2))
    ultimately show ?thesis by linarith
  qed
  have items: "ph_index x \<in> I \<and> ph_deadline x = de_Deadline (decisions ! ph_index x)" if "x \<in> set items'" for x
    using that s(4,5) e(4) g unfolding ad(3) by auto
  have held: "\<exists>x\<in>set items'. ph_index x = i" if i: "i \<in> I" "lo i \<le> b \<and> b < hi i" for i
  proof (cases "lo i = b")
    case True
    then obtain ev where "ev \<in> set evs" "\<not> pe_remove ev" "pe_index ev = i" using starts i by blast
    then show ?thesis unfolding ad(3) by (intro bexI [of _ "\<lparr>ph_index = i, ph_deadline = de_Deadline (decisions ! i)\<rparr>"]) auto
  next
    case False
    then obtain x where "x \<in> set items" "ph_index x = i" using s(6) [OF i(1)] i(2) by auto
    then show ?thesis unfolding ad(3) by auto
  qed
  have "heap_ok items'" by (rule ad(4) [OF s(3)])
  then show ?thesis unfolding sweep_state_def using len act items held by (intro conjI allI ballI impI) simp_all
qed

lemma sweep_best:
  assumes ev: "events_ok w I lo hi (length decisions) E"
    and st: "sweep_state decisions I on active items" and c: "heap_current active items = (items', best)"
  shows "sweep_state decisions I on active items' \<and>
    (case best of None \<Rightarrow> (\<forall>i\<in>I. \<not> on i)
     | Some it \<Rightarrow> (\<exists>i\<in>I. on i \<and> de_Deadline (decisions ! i) = ph_deadline it) \<and>
                 (\<forall>i\<in>I. on i \<longrightarrow> de_Deadline (decisions ! i) \<le> ph_deadline it))"
proof -
  note s = sweep_stateD [OF st]
  note cur = heap_current_latest [OF s(3) c]
  have on: "active ! i \<longleftrightarrow> on i" if "i \<in> I" for i using that s(2) [of i] events_okD(1) [OF ev that] by simp
  have sub: "x \<in> set items" if "x \<in> set items'" for x using cur that by blast
  have held: "\<exists>x\<in>set items'. ph_index x = i" if i: "i \<in> I" "on i" for i
  proof -
    obtain x where x: "x \<in> set items" "ph_index x = i" using s(6) [OF i] by blast
    then have "x \<in> set items'" using cur on [OF i(1)] i(2) by simp
    then show ?thesis using x by blast
  qed
  have "sweep_state decisions I on active items'"
    unfolding sweep_state_def using s sub held cur by (intro conjI allI ballI impI) simp_all
  moreover have "case best of None \<Rightarrow> (\<forall>i\<in>I. \<not> on i)
     | Some it \<Rightarrow> (\<exists>i\<in>I. on i \<and> de_Deadline (decisions ! i) = ph_deadline it) \<and>
                 (\<forall>i\<in>I. on i \<longrightarrow> de_Deadline (decisions ! i) \<le> ph_deadline it)"
  proof (cases best)
    case None
    have "\<not> on i" if i: "i \<in> I" for i
    proof
      assume o: "on i"
      then obtain x where "x \<in> set items" "ph_index x = i" using s(6) [OF i] by blast
      then show False using cur None on [OF i] o by auto
    qed
    then show ?thesis using None by simp
  next
    case (Some it)
    then have it: "it \<in> set items" "active ! ph_index it" using cur by simp_all
    have "de_Deadline (decisions ! i) \<le> ph_deadline it" if i: "i \<in> I" "on i" for i
    proof -
      obtain x where x: "x \<in> set items" "ph_index x = i" using s(6) [OF i] by blast
      then have "ph_deadline x \<le> ph_deadline it" using cur Some on [OF i(1)] i(2) by simp
      then show ?thesis using s(5) [OF x(1)] x(2) by simp
    qed
    moreover have "ph_index it \<in> I" "on (ph_index it)" "de_Deadline (decisions ! ph_index it) = ph_deadline it"
      using s(4,5) [OF it(1)] it(2) on by auto
    ultimately show ?thesis using Some by auto
  qed
  ultimately show ?thesis by (rule conjI)
qed

lemma sorted_group:
  fixes f :: "'a \<Rightarrow> nat"
  assumes "sorted_wrt (\<lambda>x y. f x \<le> f y) (e # es)"
  shows "set (takeWhile (\<lambda>x. f e = f x) es) = {x \<in> set es. f x = f e}"
    and "set (dropWhile (\<lambda>x. f e = f x) es) = {x \<in> set es. f e < f x}"
    and "sorted_wrt (\<lambda>x y. f x \<le> f y) (dropWhile (\<lambda>x. f e = f x) es)"
proof -
  have "set (takeWhile (\<lambda>x. f e = f x) es) = {x \<in> set es. f x = f e} \<and>
     set (dropWhile (\<lambda>x. f e = f x) es) = {x \<in> set es. f e < f x}"
    using assms
  proof (induction es)
    case (Cons x es)
    show ?case
    proof (cases "f e = f x")
      case True
      then show ?thesis using Cons by auto
    next
      case False
      then have "f e < f y" if "y \<in> set (x # es)" for y using Cons.prems that by fastforce
      then show ?thesis using False by fastforce
    qed
  qed simp
  then show "set (takeWhile (\<lambda>x. f e = f x) es) = {x \<in> set es. f x = f e}"
    "set (dropWhile (\<lambda>x. f e = f x) es) = {x \<in> set es. f e < f x}" by simp_all
  show "sorted_wrt (\<lambda>x y. f x \<le> f y) (dropWhile (\<lambda>x. f e = f x) es)"
    using assms by (simp add: sorted_wrt_dropWhile)
qed

lemma sweep_exact:
  assumes ev: "events_ok w I lo hi (length decisions) E"
    and es: "events \<noteq> []" "sorted_wrt (\<lambda>x y. bval w (pe_at x) \<le> bval w (pe_at y)) events"
      "set events = {ev \<in> E. b \<le> bval w (pe_at ev)}" "bval w (pe_at (hd events)) = b"
    and st: "sweep_state decisions I (\<lambda>i. lo i < b \<and> b \<le> hi i) active items"
    and rs: "ranges_ok w I lo hi (\<lambda>i. de_Deadline (decisions ! i)) b ranges"
  shows "\<exists>b'. ranges_ok w I lo hi (\<lambda>i. de_Deadline (decisions ! i)) b' (sweep decisions events active items ranges) \<and>
    (\<forall>i\<in>I. hi i \<le> b')"
  using es st rs
proof (induction events arbitrary: b active items ranges rule: length_induct)
  case (1 events)
  obtain e es where events: "events = e # es" using "1.prems"(1) by (cases events) auto
  have eb: "bval w (pe_at e) = b" using "1.prems"(4) events by simp
  have ok: "bound_ok w (pe_at x)" if "x \<in> set events" for x using ev that "1.prems"(3) by (simp add: events_ok_def)
  define f where "f x = bval w (pe_at x)" for x :: projectionEvent
  have same: "compareBoundary (pe_at e) (pe_at x) = 0 \<longleftrightarrow> f e = f x" if "x \<in> set es" for x
    using compareBoundary_eq [OF ok ok, of e x] that by (simp add: events f_def)
  define evs rest where "evs = e # takeWhile (\<lambda>x. f e = f x) es" and "rest = dropWhile (\<lambda>x. f e = f x) es"
  have tw: "takeWhile (\<lambda>x. compareBoundary (pe_at e) (pe_at x) = 0) es = takeWhile (\<lambda>x. f e = f x) es"
    "dropWhile (\<lambda>x. compareBoundary (pe_at e) (pe_at x) = 0) es = rest"
    unfolding rest_def using same by (auto intro!: takeWhile_cong dropWhile_cong)
  have sorted: "sorted_wrt (\<lambda>x y. f x \<le> f y) (e # es)" using "1.prems"(2) by (simp add: events f_def)
  note grp = sorted_group [OF sorted, folded rest_def]
  have g: "set evs = {x \<in> E. bval w (pe_at x) = b}" using "1.prems"(3) eb grp(1) by (auto simp: events evs_def f_def)
  have r: "set rest = {x \<in> E. b < bval w (pe_at x)}" using "1.prems"(3) eb grp(2) by (auto simp: events f_def)
  obtain active' items' where a: "sweep_add decisions evs (sweep_remove evs active, items) = (active', items')" by fastforce
  note st = sweep_group [OF ev "1.prems"(5) g a]
  show ?case
  proof (cases "rest = []")
    case True
    then have "sweep decisions events active items ranges = ranges"
      using a tw by (simp add: events evs_def Let_def)
    moreover have "hi i \<le> b" if i: "i \<in> I" for i
    proof -
      from events_okD(7) [OF ev i, of True] obtain p where p: "p \<in> E" "pe_remove p" "pe_index p = i" by blast
      then have "\<not> b < bval w (pe_at p)" using True r by auto
      then show ?thesis using events_okD(5) [OF ev p(1,2)] p(3) by simp
    qed
    ultimately show ?thesis using "1.prems"(6) by auto
  next
    case False
    define n b2 where "n = pe_at (hd rest)" and "b2 = bval w n"
    obtain items'' best where c: "heap_current active' items' = (items'', best)" by fastforce
    have step: "sweep decisions events active items ranges =
        sweep decisions rest active' items'' (extend_ranges (pe_at e) n best ranges)"
      using a tw False c by (simp add: events evs_def Let_def n_def del: dropWhile_eq_Nil_conv)
    have hd: "hd rest \<in> set rest" using False by simp
    then have b2: "b < b2" "bound_ok w n" using r ev by (auto simp: b2_def n_def events_ok_def)
    have gap: "bval w (pe_at x) \<le> b \<or> b2 \<le> bval w (pe_at x)" if "x \<in> E" for x
    proof (cases "x \<in> set rest")
      case True
      then show ?thesis using grp(3) False by (cases rest) (auto simp: b2_def n_def f_def)
    next
      case False
      then show ?thesis using r that by auto
    qed
    have lohi: "(lo i \<le> b \<longleftrightarrow> lo i < b2) \<and> (b < hi i \<longleftrightarrow> b2 \<le> hi i)" if i: "i \<in> I" for i
    proof -
      from events_okD(7) [OF ev i, of True] obtain q where q: "q \<in> E" "pe_remove q" "pe_index q = i" by blast
      from events_okD(7) [OF ev i, of False] obtain p where p: "p \<in> E" "\<not> pe_remove p" "pe_index p = i" by blast
      show ?thesis
        using gap [OF p(1)] gap [OF q(1)] b2(1) events_okD(5) [OF ev q(1,2)] events_okD(6) [OF ev p(1,2)] p(3) q(3) by auto
    qed
    note best = sweep_best [OF ev st c]
    have on: "lo i \<le> b \<and> b < hi i \<longleftrightarrow> lo i \<le> x \<and> x < hi i" if "i \<in> I" "b \<le> x" "x < b2" for i x
      using lohi [OF that(1)] that(2,3) by linarith
    have "ranges_ok w I lo hi (\<lambda>i. de_Deadline (decisions ! i)) b2 (extend_ranges (pe_at e) n best ranges)"
      unfolding b2_def
    proof (rule extend_ranges_ok [OF "1.prems"(6) _ eb b2(2) b2(1) [unfolded b2_def]])
      show "bound_ok w (pe_at e)" using ok by (simp add: events)
      show "case best of
          None \<Rightarrow> (\<forall>x i. b \<le> x \<longrightarrow> x < bval w n \<longrightarrow> i \<in> I \<longrightarrow> \<not> (lo i \<le> x \<and> x < hi i))
        | Some it \<Rightarrow> (\<forall>x. b \<le> x \<longrightarrow> x < bval w n \<longrightarrow> latest I lo hi (\<lambda>i. de_Deadline (decisions ! i)) x (ph_deadline it))"
        using best on unfolding b2_def [symmetric] by (cases best) (auto simp: latest_def)
    qed
    moreover have "sweep_state decisions I (\<lambda>i. lo i < b2 \<and> b2 \<le> hi i) active' items''"
      using best lohi by (auto simp: sweep_state_def)
    moreover have "length rest < length events" by (simp add: events rest_def le_imp_less_Suc length_dropWhile_le)
    moreover have "set rest = {x \<in> E. b2 \<le> bval w (pe_at x)}" using r gap b2(1) by force
    ultimately show ?thesis
      using "1.IH" False grp(3) unfolding step by (auto simp: f_def b2_def n_def)
  qed
qed

section \<open>Families\<close>

definition family_width :: "bool \<Rightarrow> nat" where
  "family_width ipv4 = (if ipv4 then 32 else 128)"

definition family_index :: "Decision list \<Rightarrow> bool \<Rightarrow> instant \<Rightarrow> nat set" where
  "family_index decisions ipv4 now =
     {i. i < length decisions \<and> Is4 (pAddr (de_Prefix (decisions ! i))) = ipv4 \<and> now < de_Deadline (decisions ! i)}"

abbreviation lo_at :: "Decision list \<Rightarrow> nat \<Rightarrow> nat" where
  "lo_at decisions i \<equiv> plo (de_Prefix (decisions ! i))"

abbreviation hi_at :: "Decision list \<Rightarrow> nat \<Rightarrow> nat" where
  "hi_at decisions i \<equiv> Suc (phi (de_Prefix (decisions ! i)))"

abbreviation deadline_at :: "Decision list \<Rightarrow> nat \<Rightarrow> instant" where
  "deadline_at decisions i \<equiv> de_Deadline (decisions ! i)"

lemma decision_prefix_pfx_ok: "decision_prefix_ok p \<Longrightarrow> pfx_ok p"
  by (auto simp: decision_prefix_ok_def pfx_ok_def)

lemma decision_events_value:
  assumes p: "pfx_ok (de_Prefix d)" "Is4 (pAddr (de_Prefix d)) = ipv4" "now < de_Deadline d"
  shows "\<exists>s e. decision_events ipv4 now (i, d) =
      [\<lparr>pe_at = s, pe_index = i, pe_remove = False\<rparr>, \<lparr>pe_at = e, pe_index = i, pe_remove = True\<rparr>] \<and>
    bound_ok (family_width ipv4) s \<and> bval (family_width ipv4) s = plo (de_Prefix d) \<and>
    bound_ok (family_width ipv4) e \<and> bval (family_width ipv4) e = Suc (phi (de_Prefix d))"
proof -
  let ?p = "de_Prefix d" let ?w = "family_width ipv4"
  note ok = pfx_okD [OF p(1)]
  have fam: "pfam ?p = ?w" using pfam_cases [OF p(1)] p(2) by (auto simp: family_width_def)
  define start where "start = (if ipv4 then addr128v4 (As4 (pAddr ?p)) else addr128 (pAddr ?p))"
  have v: "uval start = plo ?p"
    using addr128v4_value [of "pAddr ?p"] addr128_value [of "pAddr ?p"] pfam_cases [OF p(1)] p(2)
    by (auto simp: start_def plo_def)
  have hi: "Suc (phi ?p) = plo ?p + 2 ^ (?w - plen ?p)" "Suc (phi ?p) \<le> 2 ^ ?w"
    using psize_pos [of ?p] phi_less [OF p(1)] by (auto simp: phi_def psize_def fam)
  have lt: "uval start < 2 ^ ?w" using v hi(2) plo_le_phi [of ?p] by linarith
  have w: "?w = 32 \<or> ?w = 128" by (auto simp: family_width_def)
  have "nat (int ?w - prefix_Bits ?p) = ?w - plen ?p" using ok(5,8) fam by simp
  then have e: "projection_prefixEnd start (prefix_Bits ?p) ?w = addPower start (?w - plen ?p) ?w"
    by (simp add: projection_prefixEnd_def)
  note a = addPower_value [OF w _ lt, of "?w - plen ?p", folded e]
  have "decision_events ipv4 now (i, d) =
      [\<lparr>pe_at = at_value start, pe_index = i, pe_remove = False\<rparr>,
       \<lparr>pe_at = projection_prefixEnd start (prefix_Bits ?p) ?w, pe_index = i, pe_remove = True\<rparr>]"
    using p(2,3) by (simp add: decision_events_def Let_def start_def family_width_def ok(9))
  moreover have "bound_ok ?w (at_value start)" "bval ?w (at_value start) = plo ?p" using lt v by (simp_all add: at_value_value)
  moreover have "bound_ok ?w (projection_prefixEnd start (prefix_Bits ?p) ?w)"
    "bval ?w (projection_prefixEnd start (prefix_Bits ?p) ?w) = Suc (phi ?p)"
    using a hi v by (simp_all add: min_absorb1)
  ultimately show ?thesis by blast
qed

lemma decision_events_skip:
  "Is4 (pAddr (de_Prefix d)) \<noteq> ipv4 \<or> \<not> now < de_Deadline d \<Longrightarrow> decision_events ipv4 now (i, d) = []"
  by (auto simp: decision_events_def Let_def)

lemma family_events_ok:
  assumes "\<forall>d\<in>set decisions. pfx_ok (de_Prefix d)"
  shows "events_ok (family_width ipv4) (family_index decisions ipv4 now) (lo_at decisions) (hi_at decisions) (length decisions)
    (set (concat (map (decision_events ipv4 now) (enumerate 0 decisions))))"
proof -
  let ?w = "family_width ipv4" let ?I = "family_index decisions ipv4 now"
  let ?E = "set (concat (map (decision_events ipv4 now) (enumerate 0 decisions)))"
  have E: "ev \<in> ?E \<longleftrightarrow> (\<exists>i<length decisions. ev \<in> set (decision_events ipv4 now (i, decisions ! i)))" for ev
    by (auto simp: in_set_enumerate_eq)
  have at: "\<exists>s e. decision_events ipv4 now (i, decisions ! i) =
        [\<lparr>pe_at = s, pe_index = i, pe_remove = False\<rparr>, \<lparr>pe_at = e, pe_index = i, pe_remove = True\<rparr>] \<and>
      bound_ok ?w s \<and> bval ?w s = lo_at decisions i \<and> bound_ok ?w e \<and> bval ?w e = hi_at decisions i"
    if "i \<in> ?I" for i
    using decision_events_value [of "decisions ! i" ipv4 now i] that assms by (auto simp: family_index_def)
  have out: "decision_events ipv4 now (i, decisions ! i) = []" if "i < length decisions" "i \<notin> ?I" for i
    using decision_events_skip [of "decisions ! i" ipv4 now i] that by (auto simp: family_index_def)
  have 1: "\<forall>i\<in>?I. i < length decisions \<and> lo_at decisions i < hi_at decisions i"
    by (auto simp: family_index_def less_Suc_eq_le)
  have 2: "\<forall>ev\<in>?E. bound_ok ?w (pe_at ev) \<and> pe_index ev \<in> ?I \<and>
      bval ?w (pe_at ev) = (if pe_remove ev then hi_at decisions (pe_index ev) else lo_at decisions (pe_index ev))"
  proof
    fix ev assume "ev \<in> ?E"
    then obtain i where i: "i < length decisions" "ev \<in> set (decision_events ipv4 now (i, decisions ! i))" using E by blast
    then have "i \<in> ?I" using out by fastforce
    then show "bound_ok ?w (pe_at ev) \<and> pe_index ev \<in> ?I \<and>
      bval ?w (pe_at ev) = (if pe_remove ev then hi_at decisions (pe_index ev) else lo_at decisions (pe_index ev))"
      using at [of i] i(2) by fastforce
  qed
  have 3: "\<exists>ev\<in>?E. pe_remove ev = rm \<and> pe_index ev = i" if i: "i \<in> ?I" for i rm
  proof -
    have l: "i < length decisions" using i by (simp add: family_index_def)
    obtain s e where se: "decision_events ipv4 now (i, decisions ! i) =
        [\<lparr>pe_at = s, pe_index = i, pe_remove = False\<rparr>, \<lparr>pe_at = e, pe_index = i, pe_remove = True\<rparr>]" using at [OF i] by blast
    then have "\<lparr>pe_at = (if rm then e else s), pe_index = i, pe_remove = rm\<rparr> \<in> ?E" using l unfolding E by auto
    then show ?thesis by (metis projectionEvent.select_convs(2,3))
  qed
  show ?thesis unfolding events_ok_def using 1 2 3 by blast
qed

lemma decompose_ranges_correct:
  assumes w: "w = family_width ipv4" and rs: "\<forall>r\<in>set rs. range_ok' w b r"
    "sorted_wrt (\<lambda>r r'. bval w (pr_end r) \<le> uval (pr_start r')) rs"
  shows "\<exists>tps. decompose_ranges ipv4 rs result = Some (result @ tps) \<and> canonical (map tp_Prefix tps) \<and>
    (\<forall>t\<in>set tps. pfam (tp_Prefix t) = w \<and> (\<exists>r\<in>set rs. tp_Deadline t = pr_deadline r \<and>
       uval (pr_start r) \<le> plo (tp_Prefix t) \<and> phi (tp_Prefix t) < bval w (pr_end r))) \<and>
    (\<forall>r\<in>set rs. \<forall>x. uval (pr_start r) \<le> x \<longrightarrow> x < bval w (pr_end r) \<longrightarrow>
       (\<exists>t\<in>set tps. plo (tp_Prefix t) \<le> x \<and> x \<le> phi (tp_Prefix t)))"
  using rs
proof (induction rs arbitrary: result)
  case (Cons r rs)
  have r: "uval (pr_start r) < 2 ^ w" "bound_ok w (pr_end r)" "uval (pr_start r) < bval w (pr_end r)"
    using Cons.prems(1) by (auto simp: range_ok'_def)
  obtain ps where ps: "decomposeRange result (pr_start r) (pr_end r) (pr_deadline r) ipv4 =
        Some (result @ map (timed (pr_deadline r)) ps)" "block_cover w (uval (pr_start r)) (bval w (pr_end r) - 1) ps"
    using decomposeRange_correct [OF w [unfolded family_width_def] r] by blast
  have bc: "canonical ps" "\<And>p. p \<in> set ps \<Longrightarrow> pfam p = w \<and> uval (pr_start r) \<le> plo p \<and> phi p \<le> bval w (pr_end r) - 1"
    "\<And>x. uval (pr_start r) \<le> x \<Longrightarrow> x \<le> bval w (pr_end r) - 1 \<Longrightarrow> \<exists>p\<in>set ps. plo p \<le> x \<and> x \<le> phi p"
    using ps(2) by (simp_all add: block_cover_def)
  from Cons.IH [of "result @ map (timed (pr_deadline r)) ps"] Cons.prems obtain tps where
    t: "decompose_ranges ipv4 rs (result @ map (timed (pr_deadline r)) ps) = Some ((result @ map (timed (pr_deadline r)) ps) @ tps)"
      "canonical (map tp_Prefix tps)"
      "\<forall>t\<in>set tps. pfam (tp_Prefix t) = w \<and> (\<exists>r\<in>set rs. tp_Deadline t = pr_deadline r \<and>
         uval (pr_start r) \<le> plo (tp_Prefix t) \<and> phi (tp_Prefix t) < bval w (pr_end r))"
      "\<forall>r\<in>set rs. \<forall>x. uval (pr_start r) \<le> x \<longrightarrow> x < bval w (pr_end r) \<longrightarrow>
         (\<exists>t\<in>set tps. plo (tp_Prefix t) \<le> x \<and> x \<le> phi (tp_Prefix t))" by auto
  let ?all = "map (timed (pr_deadline r)) ps @ tps"
  have blk: "pfam p = w" "uval (pr_start r) \<le> plo p" "phi p < bval w (pr_end r)" if "p \<in> set ps" for p
    using bc(2) [OF that] r(3) by auto
  have "pbefore p (tp_Prefix u)" if p: "p \<in> set ps" and u: "u \<in> set tps" for p u
  proof -
    from t(3) u obtain q where q: "q \<in> set rs" "uval (pr_start q) \<le> plo (tp_Prefix u)" "pfam (tp_Prefix u) = w" by blast
    then have "bval w (pr_end r) \<le> uval (pr_start q)" using Cons.prems(2) by simp
    then have "phi p < plo (tp_Prefix u)" using blk(3) [OF p] q(2) by linarith
    then show ?thesis using blk(1) [OF p] q(3) by (simp add: pbefore_def)
  qed
  then have "canonical (map tp_Prefix ?all)" using bc(1) t(2) by (auto simp: canonical_append o_def)
  moreover have "\<forall>t\<in>set ?all. pfam (tp_Prefix t) = w \<and> (\<exists>r\<in>set (r # rs). tp_Deadline t = pr_deadline r \<and>
       uval (pr_start r) \<le> plo (tp_Prefix t) \<and> phi (tp_Prefix t) < bval w (pr_end r))"
    using t(3) blk by auto
  moreover have "\<forall>q\<in>set (r # rs). \<forall>x. uval (pr_start q) \<le> x \<longrightarrow> x < bval w (pr_end q) \<longrightarrow>
       (\<exists>t\<in>set ?all. plo (tp_Prefix t) \<le> x \<and> x \<le> phi (tp_Prefix t))"
  proof (intro ballI allI impI)
    fix q x assume q: "q \<in> set (r # rs)" "uval (pr_start q) \<le> x" "x < bval w (pr_end q)"
    show "\<exists>t\<in>set ?all. plo (tp_Prefix t) \<le> x \<and> x \<le> phi (tp_Prefix t)"
    proof (cases "q = r")
      case True
      then have "x \<le> bval w (pr_end r) - 1" using q(3) by simp
      then obtain p where "p \<in> set ps" "plo p \<le> x" "x \<le> phi p" using bc(3) q(2) True by blast
      then show ?thesis by (intro bexI [of _ "timed (pr_deadline r) p"]) auto
    next
      case False
      then have "\<exists>t\<in>set tps. plo (tp_Prefix t) \<le> x \<and> x \<le> phi (tp_Prefix t)" using t(4) q by simp
      then show ?thesis by auto
    qed
  qed
  ultimately show ?case using ps(1) t(1) by (intro exI [of _ ?all]) simp
qed auto

text \<open>What one family contributes: disjoint blocks in order, each with the latest deadline of its addresses.\<close>

definition family_projection :: "Decision list \<Rightarrow> bool \<Rightarrow> instant \<Rightarrow> TimedPrefix list \<Rightarrow> bool" where
  "family_projection decisions ipv4 now tps =
     (canonical (map tp_Prefix tps) \<and>
      (\<forall>t\<in>set tps. pfam (tp_Prefix t) = family_width ipv4 \<and>
         (\<forall>x. plo (tp_Prefix t) \<le> x \<longrightarrow> x \<le> phi (tp_Prefix t) \<longrightarrow>
            latest (family_index decisions ipv4 now) (lo_at decisions) (hi_at decisions) (deadline_at decisions) x (tp_Deadline t))) \<and>
      (\<forall>i\<in>family_index decisions ipv4 now. \<forall>x. lo_at decisions i \<le> x \<longrightarrow> x < hi_at decisions i \<longrightarrow>
         (\<exists>t\<in>set tps. plo (tp_Prefix t) \<le> x \<and> x \<le> phi (tp_Prefix t))))"

lemma projectFamily_correct:
  assumes "\<forall>d\<in>set decisions. pfx_ok (de_Prefix d)"
  shows "\<exists>tps. projectFamily result decisions ipv4 now = Some (result @ tps) \<and> family_projection decisions ipv4 now tps"
proof -
  let ?w = "family_width ipv4" let ?I = "family_index decisions ipv4 now"
  define E where "E = concat (map (decision_events ipv4 now) (enumerate 0 decisions))"
  note ev = family_events_ok [OF assms, of ipv4 now, folded E_def]
  show ?thesis
  proof (cases "E = []")
    case True
    then have "?I = {}" using events_okD(7) [OF ev] by auto
    then show ?thesis using True by (simp add: projectFamily_def E_def [symmetric] family_projection_def)
  next
    case False
    define es where "es = sort_slice (\<lambda>a b. compareBoundary (pe_at a) (pe_at b) < 0) E"
    define b where "b = bval ?w (pe_at (hd es))"
    have set: "set es = set E" by (simp add: es_def)
    have ne: "es \<noteq> []" using False by (simp add: es_def)
    have srt: "sorted_wrt (\<lambda>x y. bval ?w (pe_at x) \<le> bval ?w (pe_at y)) es"
    proof -
      define g where "g ev = bval ?w (pe_at ev)" for ev :: projectionEvent
      have "es = sort_slice (\<lambda>a b. g a < g b) E"
        unfolding es_def g_def
        by (rule sort_slice_cong) (use events_okD(3) [OF ev] compareBoundary_less in blast)
      moreover have "strict_weak (\<lambda>a b. g a < g b)" by (rule strict_weak_key) simp
      ultimately have "sorted_wrt (\<lambda>x y. \<not> g y < g x) es" using strict_weak.sorted_sort_slice by blast
      then show ?thesis by (simp add: g_def not_less)
    qed
    have least: "b \<le> bval ?w (pe_at x)" if "x \<in> set E" for x
      using srt that unfolding set [symmetric] b_def by (cases es) auto
    have set': "set es = {x \<in> set E. b \<le> bval ?w (pe_at x)}" using set least by auto
    have lo: "b \<le> lo_at decisions i" if i: "i \<in> ?I" for i
    proof -
      from events_okD(7) [OF ev i, of False] obtain p where p: "p \<in> set E" "\<not> pe_remove p" "pe_index p = i" by blast
      then show ?thesis using least [OF p(1)] events_okD(6) [OF ev p(1,2)] by simp
    qed
    have st: "sweep_state decisions ?I (\<lambda>i. lo_at decisions i < b \<and> b \<le> hi_at decisions i) (replicate (length decisions) False) []"
      unfolding sweep_state_def using lo by (fastforce simp: deadline_heap.heap_def)
    have rs: "ranges_ok ?w ?I (lo_at decisions) (hi_at decisions) (deadline_at decisions) b []"
      using lo by (fastforce simp: ranges_ok_def)
    define rs where "rs = sweep decisions es (replicate (length decisions) False) [] []"
    from sweep_exact [OF ev ne srt set' b_def [symmetric] st rs] obtain b' where
      b': "ranges_ok ?w ?I (lo_at decisions) (hi_at decisions) (deadline_at decisions) b' rs" "\<forall>i\<in>?I. hi_at decisions i \<le> b'"
      unfolding rs_def by blast
    note ro = b'(1) [unfolded ranges_ok_def]
    from decompose_ranges_correct [OF refl, of rs ipv4 b' result] ro obtain tps where
      t: "decompose_ranges ipv4 rs result = Some (result @ tps)" "canonical (map tp_Prefix tps)"
        "\<forall>t\<in>set tps. pfam (tp_Prefix t) = ?w \<and> (\<exists>r\<in>set rs. tp_Deadline t = pr_deadline r \<and>
           uval (pr_start r) \<le> plo (tp_Prefix t) \<and> phi (tp_Prefix t) < bval ?w (pr_end r))"
        "\<forall>r\<in>set rs. \<forall>x. uval (pr_start r) \<le> x \<longrightarrow> x < bval ?w (pr_end r) \<longrightarrow>
           (\<exists>t\<in>set tps. plo (tp_Prefix t) \<le> x \<and> x \<le> phi (tp_Prefix t))" by blast
    have "projectFamily result decisions ipv4 now = Some (result @ tps)"
      using False t(1) by (simp add: projectFamily_def E_def [symmetric] es_def [symmetric] rs_def [symmetric])
    moreover have "latest ?I (lo_at decisions) (hi_at decisions) (deadline_at decisions) x (tp_Deadline t)"
      if "t \<in> set tps" "plo (tp_Prefix t) \<le> x" "x \<le> phi (tp_Prefix t)" for t x
      using t(3) that ro by (metis le_less_trans le_trans)
    moreover have "\<exists>t\<in>set tps. plo (tp_Prefix t) \<le> x \<and> x \<le> phi (tp_Prefix t)"
      if "i \<in> ?I" "lo_at decisions i \<le> x" "x < hi_at decisions i" for i x
      using ro b'(2) that t(4) by (meson less_le_trans)
    ultimately show ?thesis using t(2,3) unfolding family_projection_def by blast
  qed
qed

section \<open>Properties\<close>

text \<open>Until when an address is banned by a list of decisions: the latest deadline of those that contain it.\<close>

definition banned_until :: "Decision list \<Rightarrow> addr \<Rightarrow> instant option" where
  "banned_until decisions a =
     (let ds = filter (\<lambda>d. prefix_Contains (de_Prefix d) a) decisions in
      if ds = [] then None else Some (Max (set (map de_Deadline ds))))"

definition live_decisions :: "Store \<Rightarrow> instant \<Rightarrow> Decision list" where
  "live_decisions s now = filter (\<lambda>d. now < de_Deadline d) (store_Decisions (Some s))"

definition projected_until :: "TimedPrefix list \<Rightarrow> addr \<Rightarrow> instant option" where
  "projected_until tps a = map_option tp_Deadline (find (\<lambda>t. prefix_Contains (tp_Prefix t) a) tps)"

lemma banned_until_eqI:
  assumes "d \<in> set decisions" "prefix_Contains (de_Prefix d) a"
    "\<And>d'. d' \<in> set decisions \<Longrightarrow> prefix_Contains (de_Prefix d') a \<Longrightarrow> de_Deadline d' \<le> de_Deadline d"
  shows "banned_until decisions a = Some (de_Deadline d)"
proof -
  let ?ds = "filter (\<lambda>d. prefix_Contains (de_Prefix d) a) decisions"
  have "Max (set (map de_Deadline ?ds)) = de_Deadline d" using assms by (intro Max_eqI) auto
  moreover have "?ds \<noteq> []" using assms(1,2) by (auto simp: filter_empty_conv)
  ultimately show ?thesis by (simp add: banned_until_def)
qed

lemma banned_until_None: "banned_until decisions a = None \<longleftrightarrow> (\<forall>d\<in>set decisions. \<not> prefix_Contains (de_Prefix d) a)"
  by (simp add: banned_until_def Let_def filter_empty_conv)

lemma banned_until_cong: "set ds = set ds' \<Longrightarrow> banned_until ds a = banned_until ds' a"
  by (simp add: banned_until_def Let_def filter_empty_conv)

lemma contains_index:
  assumes "\<forall>d\<in>set decisions. pfx_ok (de_Prefix d) \<and> now < de_Deadline d" "i < length decisions"
  shows "prefix_Contains (de_Prefix (decisions ! i)) a \<longleftrightarrow>
    addr_ok a \<and> i \<in> family_index decisions (Is4 a) now \<and> lo_at decisions i \<le> aval a \<and> aval a < hi_at decisions i"
proof -
  let ?p = "de_Prefix (decisions ! i)"
  have p: "pfx_ok ?p" "now < de_Deadline (decisions ! i)" using assms by auto
  have "BitLen a = pfam ?p \<longleftrightarrow> Is4 (pAddr ?p) = Is4 a" if "addr_ok a"
    using pfam_cases [OF p(1)] that by (cases a) (auto simp: addr_ok_def)
  then show ?thesis using p assms(2) by (auto simp: prefix_Contains_iff [OF p(1)] family_index_def less_Suc_eq_le)
qed

lemma family_projection_until:
  assumes ok: "\<forall>d\<in>set decisions. pfx_ok (de_Prefix d) \<and> now < de_Deadline d"
    and f: "family_projection decisions True now t4" "family_projection decisions False now t6"
  shows "projected_until (t4 @ t6) a = banned_until decisions a"
proof -
  have fp: "pfx_ok (tp_Prefix t)" "pfam (tp_Prefix t) = family_width v"
      "\<And>x. plo (tp_Prefix t) \<le> x \<Longrightarrow> x \<le> phi (tp_Prefix t) \<Longrightarrow>
         latest (family_index decisions v now) (lo_at decisions) (hi_at decisions) (deadline_at decisions) x (tp_Deadline t)"
    if "t \<in> set (if v then t4 else t6)" for t v
    using f that by (cases v; auto simp: family_projection_def canonical_def)+
  have w: "BitLen a = family_width v \<longleftrightarrow> v = Is4 a" if "addr_ok a" for v
    using that by (cases a) (auto simp: addr_ok_def family_width_def)
  show ?thesis
  proof (cases "find (\<lambda>t. prefix_Contains (tp_Prefix t) a) (t4 @ t6)")
    case (Some t)
    then have t: "t \<in> set (t4 @ t6)" "prefix_Contains (tp_Prefix t) a" using find_SomeD [OF Some] by simp_all
    then obtain v where v: "t \<in> set (if v then t4 else t6)" by (metis Un_iff set_append)
    have a: "addr_ok a" "v = Is4 a" "plo (tp_Prefix t) \<le> aval a" "aval a \<le> phi (tp_Prefix t)"
      using t(2) w unfolding prefix_Contains_iff [OF fp(1) [OF v]] fp(2) [OF v] by blast+
    note l = fp(3) [OF v a(3,4), unfolded latest_def a(2)]
    then obtain i where i: "i \<in> family_index decisions (Is4 a) now" "lo_at decisions i \<le> aval a" "aval a < hi_at decisions i"
      "deadline_at decisions i = tp_Deadline t" by blast
    have il: "i < length decisions" using i(1) by (simp add: family_index_def)
    have "banned_until decisions a = Some (deadline_at decisions i)"
    proof (rule banned_until_eqI)
      show "prefix_Contains (de_Prefix (decisions ! i)) a" using contains_index [OF ok il] a(1) i by simp
      show "de_Deadline d' \<le> deadline_at decisions i" if d: "d' \<in> set decisions" "prefix_Contains (de_Prefix d') a" for d'
      proof -
        from d(1) obtain j where j: "j < length decisions" "d' = decisions ! j" by (auto simp: in_set_conv_nth)
        then show ?thesis using l contains_index [OF ok j(1), of a] d(2) i(4) by auto
      qed
    qed (use il in simp)
    then show ?thesis using Some i(4) by (simp add: projected_until_def)
  next
    case None
    have "\<not> prefix_Contains (de_Prefix d) a" if d: "d \<in> set decisions" for d
    proof
      assume c: "prefix_Contains (de_Prefix d) a"
      obtain i where i: "i < length decisions" "d = decisions ! i" using d by (auto simp: in_set_conv_nth)
      note ci = c [unfolded i(2) contains_index [OF ok i(1)]]
      define v where "v = Is4 a"
      have "family_projection decisions v now (if v then t4 else t6)" using f by (cases v) auto
      then obtain t where t: "t \<in> set (if v then t4 else t6)" "plo (tp_Prefix t) \<le> aval a" "aval a \<le> phi (tp_Prefix t)"
        using ci unfolding family_projection_def v_def by blast
      have "prefix_Contains (tp_Prefix t) a"
        using t ci w [of v] v_def unfolding prefix_Contains_iff [OF fp(1) [OF t(1)]] fp(2) [OF t(1)] by simp
      moreover have "t \<in> set (t4 @ t6)" using t(1) by (auto split: if_splits)
      ultimately show False using None unfolding find_None_iff by blast
    qed
    then show ?thesis using None banned_until_None [of decisions a] by (simp add: projected_until_def)
  qed
qed

lemma store_projection_families:
  assumes "store_ok s"
  obtains t4 t6 decisions where "store_projection s now = Some (t4 @ t6)" "set decisions = set (live_decisions s now)"
    "\<forall>d\<in>set decisions. pfx_ok (de_Prefix d) \<and> now < de_Deadline d"
    "family_projection decisions True now t4" "family_projection decisions False now t6"
proof -
  define ds where "ds = filter (\<lambda>d. now < de_Deadline d) (map (\<lambda>e. rd_decision (snd e)) (so_decisions s))"
  have set: "set ds = set (live_decisions s now)" by (auto simp: ds_def live_decisions_def store_Decisions_def)
  have ok: "\<forall>d\<in>set ds. pfx_ok (de_Prefix d) \<and> now < de_Deadline d"
    using store_okD(2) [OF assms] by (fastforce simp: ds_def retained_ok_def intro: decision_prefix_pfx_ok)
  have empty: "family_projection [] v now []" for v
    by (simp add: family_projection_def family_index_def)
  show thesis
  proof (cases "ds = []")
    case True
    then have "store_projection s now = Some ([] @ [])" by (simp add: store_projection_def ds_def [symmetric])
    then show thesis using that [of "[]" "[]" ds] set ok empty True by simp
  next
    case False
    have ok': "\<forall>d\<in>set ds. pfx_ok (de_Prefix d)" using ok by blast
    obtain t4 where t4: "projectFamily [] ds True now = Some ([] @ t4)" "family_projection ds True now t4"
      using projectFamily_correct [OF ok'] by blast
    obtain t6 where t6: "projectFamily t4 ds False now = Some (t4 @ t6)" "family_projection ds False now t6"
      using projectFamily_correct [OF ok'] by blast
    have "so_decisions s \<noteq> []" using False by (auto simp: ds_def)
    then have "store_projection s now = Some (t4 @ t6)"
      using False t4(1) t6(1) by (simp add: store_projection_def ds_def [symmetric])
    then show thesis using that set ok t4(2) t6(2) by blast
  qed
qed

lemma projection_correct:
  assumes "store_ok s"
  shows "\<exists>tps. store_Projection (Some s) now = Some tps \<and> canonical (map tp_Prefix tps) \<and>
    (\<forall>a. projected_until tps a = banned_until (live_decisions s now) a)"
proof -
  from store_projection_families [OF assms] obtain t4 t6 ds where
    t: "store_projection s now = Some (t4 @ t6)" "set ds = set (live_decisions s now)"
      "\<forall>d\<in>set ds. pfx_ok (de_Prefix d) \<and> now < de_Deadline d"
      "family_projection ds True now t4" "family_projection ds False now t6" .
  have "canonical (map tp_Prefix (t4 @ t6))"
    using t(4,5) by (auto simp: family_projection_def canonical_append pbefore_def family_width_def)
  moreover have "projected_until (t4 @ t6) a = banned_until (live_decisions s now) a" for a
    using family_projection_until [OF t(3-5)] banned_until_cong [OF t(2)] by simp
  ultimately show ?thesis using t(1) by (simp add: store_Projection_def)
qed

text \<open>
  (C28) \<open>Projection\<close> never panics on a well-formed store, and it returns disjoint masked
  prefixes in ascending order that ban exactly the addresses of the live decisions, each until
  the latest deadline of the live decisions that contain it.
\<close>

theorem Projection_exact:
  assumes "store_ok s"
  shows "\<exists>tps. store_Projection (Some s) now = Some tps \<and> canonical (map tp_Prefix tps) \<and>
    (\<forall>a. projected_until tps a = banned_until (live_decisions s now) a)"
  by (rule projection_correct [OF assms])

text \<open>A short ban inside a longer one, for the concrete instance.\<close>

definition nested_store :: Store where
  "nested_store = sample_store\<lparr>so_decisions :=
     [(1, \<lparr>rd_decision = sample_decision, rd_sequence = 1\<rparr>),
      (2, \<lparr>rd_decision = \<lparr>de_ID = 2, de_Prefix = Prefix (IP4 0x0A000000) 33, de_Deadline = 4\<rparr>, rd_sequence = 1\<rparr>)]\<rparr>"

theorem Projection_exact_witness:
  "\<exists>tps. store_Projection (Some nested_store) 3 = Some tps \<and> canonical (map tp_Prefix tps) \<and>
     projected_until tps (IP4 0x0A000000) = banned_until (live_decisions nested_store 3) (IP4 0x0A000000)"
proof -
  have "store_ok nested_store" by code_simp
  from Projection_exact [OF this, of 3] show ?thesis by blast
qed

end
