(* ===== verification/Firewall_Dynamic.thy ===== *)
theory Firewall_Dynamic
  imports Crowdsec_Projection
begin

text \<open>
  \<open>internal/firewall/dynamic.go\<close>: how long a ban may be granted to the kernel, and the shape
  a projection must have before it authorizes a native change.

  Durations are \<open>int64\<close> nanosecond counts; \<open>Time.Sub\<close> saturates at their range.
\<close>

definition time_Sub :: "instant \<Rightarrow> instant \<Rightarrow> int" where
  "time_Sub t u = max (- (2 ^ 63)) (min (2 ^ 63 - 1) (t - u))"

section \<open>Leases\<close>

definition maximumLease :: int where
  "maximumLease = 86400000000000"

definition LeaseGrant :: "instant \<Rightarrow> instant \<Rightarrow> int \<Rightarrow> int \<times> instant" where
  "LeaseGrant deadline now unit =
     (if unit \<le> 0 \<or> deadline = 0 then (0, 0)
      else
        (let remaining = time_Sub deadline now in
         if remaining \<le> 0 then (0, 0)
         else
           (let rounded = remaining div unit * unit in
            if rounded \<le> maximumLease then (rounded, 0) else (maximumLease, now + maximumLease div 2))))"

section \<open>Projections\<close>

text \<open>\<open>netip.Prefix.Overlaps\<close>.\<close>

definition prefix_Overlaps :: "prefix \<Rightarrow> prefix \<Rightarrow> bool" where
  "prefix_Overlaps p q =
     (if \<not> prefix_IsValid p \<or> \<not> prefix_IsValid q then False
      else if p = q then True
      else if Is4 (pAddr p) \<noteq> Is4 (pAddr q) then False
      else
        (let minBits = (if prefix_Bits p < prefix_Bits q then prefix_Bits p else prefix_Bits q) in
         if minBits = 0 then True
         else
           (case addr_Prefix (pAddr p) minBits of
              None \<Rightarrow> False
            | Some p' \<Rightarrow>
                (case addr_Prefix (pAddr q) minBits of
                   None \<Rightarrow> False
                 | Some q' \<Rightarrow> pAddr p' = pAddr q'))))"

datatype dynamic_error = Invalid_canonical_prefix | Deadline_required | Overlapping_prefixes

fun dynamic_values :: "TimedPrefix list \<Rightarrow> dynamic_error option" where
  "dynamic_values [] = None"
| "dynamic_values (value # rest) =
     (if \<not> prefix_IsValid (tp_Prefix value) \<or> tp_Prefix value \<noteq> prefix_Masked (tp_Prefix value)
      then Some Invalid_canonical_prefix
      else if tp_Deadline value = 0 then Some Deadline_required
      else dynamic_values rest)"

definition timed_compare :: "TimedPrefix \<Rightarrow> TimedPrefix \<Rightarrow> int" where
  "timed_compare a b =
     (let order = addr_Compare (pAddr (tp_Prefix a)) (pAddr (tp_Prefix b)) in
      if order \<noteq> 0 then order else prefix_Bits (tp_Prefix a) - prefix_Bits (tp_Prefix b))"

text \<open>
  \<open>slices.IsSortedFunc\<close> looks for a descent between neighbours. \<open>slices.SortFunc\<close> may permute
  equal elements; those have equal prefixes, and the deadlines are not looked at afterwards.
\<close>

fun IsSortedFunc :: "('a \<Rightarrow> 'a \<Rightarrow> int) \<Rightarrow> 'a list \<Rightarrow> bool" where
  "IsSortedFunc compare (x # y # rest) = (\<not> compare y x < 0 \<and> IsSortedFunc compare (y # rest))"
| "IsSortedFunc compare xs = True"

fun overlap_loop :: "TimedPrefix list \<Rightarrow> bool" where
  "overlap_loop (x # y # rest) = (prefix_Overlaps (tp_Prefix x) (tp_Prefix y) \<or> overlap_loop (y # rest))"
| "overlap_loop xs = False"

definition ValidateDynamic :: "TimedPrefix list \<Rightarrow> dynamic_error option" where
  "ValidateDynamic values' =
     (case dynamic_values values' of
        Some e \<Rightarrow> Some e
      | None \<Rightarrow>
          (let ordered =
             (if \<not> IsSortedFunc timed_compare values' then sort_slice (\<lambda>a b. timed_compare a b < 0) values' else values') in
           if overlap_loop ordered then Some Overlapping_prefixes else None))"

section \<open>Overlap of canonical prefixes\<close>

lemma addr_Prefix_addr:
  assumes "addr_ok a" "0 \<le> b" "b \<le> int (BitLen a)"
  shows "\<exists>p. addr_Prefix a b = Some p \<and> addr_ok (pAddr p) \<and> BitLen (pAddr p) = BitLen a \<and>
    aval (pAddr p) = aval a div 2 ^ (BitLen a - nat b) * 2 ^ (BitLen a - nat b)"
  using assms by (cases a) (auto simp: addr_ok_def unat_and_not_mask)

lemma aval_eq: "addr_ok a \<Longrightarrow> addr_ok b \<Longrightarrow> BitLen a = BitLen b \<Longrightarrow> aval a = aval b \<longleftrightarrow> a = b"
  by (cases a; cases b) (auto simp: addr_ok_def word_unat_eq_iff)

lemma Overlaps_wider:
  assumes "pfx_ok p" "pfx_ok q" "plen p \<le> plen q" "pfam p = pfam q"
  shows "aval (pAddr q) div psize p = aval (pAddr p) div psize p \<longleftrightarrow> \<not> phi p < plo q \<and> \<not> phi q < plo p"
proof -
  note p = pfx_okD [OF assms(1)] and q = pfx_okD [OF assms(2)]
  have d: "psize q dvd psize p" unfolding psize_def assms(4) using assms(3) by (intro le_imp_power_dvd) simp
  have "psize q dvd plo p" "psize q dvd plo q" using d p q by (auto intro: dvd_trans)
  then have "plo q < plo p \<Longrightarrow> plo q + psize q \<le> plo p"
    by (metis add_le_cancel_left dvd_diff_nat dvd_imp_le less_imp_le_nat le_add_diff_inverse zero_less_diff)
  then have "phi q < plo p \<longleftrightarrow> plo q < plo p"
    using psize_pos [of q] plo_le_phi [of q] unfolding phi_def by linarith
  moreover have "aval (pAddr q) div psize p = aval (pAddr p) div psize p \<longleftrightarrow> plo p \<le> plo q \<and> plo q \<le> phi p"
    using prefix_Contains_iff [OF assms(1), of "pAddr q"] prefix_Contains_div [of p "pAddr q"] p q assms(4)
    by (auto simp: plo_def pfam_def)
  ultimately show ?thesis by auto
qed

lemma prefix_Overlaps_iff:
  assumes "pfx_ok p" "pfx_ok q"
  shows "prefix_Overlaps p q \<longleftrightarrow> pfam p = pfam q \<and> \<not> phi p < plo q \<and> \<not> phi q < plo p"
proof (cases "p = q")
  case True
  then show ?thesis using pfx_okD(7) [OF assms(1)] plo_le_phi [of q] by (simp add: prefix_Overlaps_def not_less)
next
  case False
  note p = pfx_okD [OF assms(1)] and q = pfx_okD [OF assms(2)]
  have fam: "Is4 (pAddr p) = Is4 (pAddr q) \<longleftrightarrow> pfam p = pfam q"
    using pfam_cases [OF assms(1)] pfam_cases [OF assms(2)] by auto
  show ?thesis
  proof (cases "pfam p = pfam q")
    case same: True
    define m where "m = min (plen p) (plen q)"
    have m: "(if prefix_Bits p < prefix_Bits q then prefix_Bits p else prefix_Bits q) = int m"
      by (simp add: m_def p(8) q(8))
    let ?u = "2 ^ (pfam p - m) :: nat"
    have "\<exists>p'. addr_Prefix (pAddr p) (int m) = Some p' \<and> addr_ok (pAddr p') \<and> BitLen (pAddr p') = pfam p \<and>
        aval (pAddr p') = aval (pAddr p) div ?u * ?u"
      using addr_Prefix_addr [of "pAddr p" "int m"] p(1,5) by (simp add: pfam_def m_def)
    then obtain p' where p': "addr_Prefix (pAddr p) (int m) = Some p'" "addr_ok (pAddr p')" "BitLen (pAddr p') = pfam p"
        "aval (pAddr p') = aval (pAddr p) div ?u * ?u" by blast
    have "\<exists>q'. addr_Prefix (pAddr q) (int m) = Some q' \<and> addr_ok (pAddr q') \<and> BitLen (pAddr q') = pfam p \<and>
        aval (pAddr q') = aval (pAddr q) div ?u * ?u"
      using addr_Prefix_addr [of "pAddr q" "int m"] q(1,5) same by (simp add: pfam_def m_def)
    then obtain q' where q': "addr_Prefix (pAddr q) (int m) = Some q'" "addr_ok (pAddr q')" "BitLen (pAddr q') = pfam p"
        "aval (pAddr q') = aval (pAddr q) div ?u * ?u" by blast
    have bound: "aval (pAddr p) < 2 ^ pfam p" "aval (pAddr q) < 2 ^ pfam q"
      using aval_less [of "pAddr p"] aval_less [of "pAddr q"] by (simp_all add: pfam_def)
    have "prefix_Overlaps p q \<longleftrightarrow> m = 0 \<or> pAddr p' = pAddr q'"
      using False p(7) q(7) fam same p'(1) q'(1) by (simp add: prefix_Overlaps_def m Let_def)
    also have "\<dots> \<longleftrightarrow> aval (pAddr q) div ?u = aval (pAddr p) div ?u"
      using aval_eq [OF p'(2) q'(2)] p'(3,4) q'(3,4) bound same by (auto simp: m_def min_def split: if_splits)
    also have "\<dots> \<longleftrightarrow> \<not> phi p < plo q \<and> \<not> phi q < plo p"
    proof (cases "plen p \<le> plen q")
      case True
      then show ?thesis using Overlaps_wider [OF assms True same] by (simp add: m_def psize_def)
    next
      case f: False
      then show ?thesis using Overlaps_wider [OF assms(2,1)] same by (auto simp: m_def psize_def)
    qed
    finally show ?thesis using same by simp
  qed (use False p q fam in \<open>auto simp: prefix_Overlaps_def\<close>)
qed

section \<open>Pairwise disjointness\<close>

definition disjoint_pair :: "prefix \<Rightarrow> prefix \<Rightarrow> bool" where
  "disjoint_pair p q = (\<forall>a. \<not> (prefix_Contains p a \<and> prefix_Contains q a))"

lemma disjoint_pair_iff:
  assumes "pfx_ok p" "pfx_ok q"
  shows "disjoint_pair p q \<longleftrightarrow> \<not> prefix_Overlaps p q"
proof
  assume d: "disjoint_pair p q"
  show "\<not> prefix_Overlaps p q"
  proof
    assume "prefix_Overlaps p q"
    then have o: "pfam p = pfam q" "plo q \<le> phi p" "plo p \<le> phi q"
      using prefix_Overlaps_iff [OF assms] by auto
    have le: "plo p \<le> phi p" "plo q \<le> phi q" by (rule plo_le_phi)+
    note ok = pfx_okD(1) [OF assms(1)] pfx_okD(1) [OF assms(2)]
    show False
      using d o le ok unfolding disjoint_pair_def prefix_Contains_iff [OF assms(1)] prefix_Contains_iff [OF assms(2)]
      by (metis nat_le_linear pfam_def plo_def)
  qed
qed (auto simp: disjoint_pair_def prefix_Overlaps_iff [OF assms] prefix_Contains_iff [OF assms(1)]
    prefix_Contains_iff [OF assms(2)])

lemma sorted_wrt_mset:
  assumes "symp R"
  shows "sorted_wrt R xs \<longleftrightarrow> (\<forall>x\<in>#mset xs. \<forall>y\<in>#mset xs - {#x#}. R x y)"
proof (induction xs)
  case (Cons x xs)
  have "add_mset x (mset xs) - {#z#} = add_mset x (mset xs - {#z#})" if "z \<in> set xs" for z
    using that by (metis add_mset_commute add_mset_remove_trivial multi_member_split set_mset_mset)
  then show ?case using Cons.IH assms by (auto dest: sympD)
qed simp

lemma sorted_wrt_perm: "symp R \<Longrightarrow> mset xs = mset ys \<Longrightarrow> sorted_wrt R xs = sorted_wrt R ys"
  by (simp add: sorted_wrt_mset)

lemma overlap_loop_successively: "\<not> overlap_loop xs \<longleftrightarrow> successively (\<lambda>x y. \<not> prefix_Overlaps (tp_Prefix x) (tp_Prefix y)) xs"
  by (induction xs rule: overlap_loop.induct) auto

lemma IsSortedFunc_successively: "IsSortedFunc compare xs \<longleftrightarrow> successively (\<lambda>x y. \<not> compare y x < 0) xs"
  by (induction compare xs rule: IsSortedFunc.induct) auto

lemma timed_compare_iff:
  assumes "pfx_ok (tp_Prefix a)" "pfx_ok (tp_Prefix b)"
  shows "timed_compare a b < 0 \<longleftrightarrow> prefix_less (tp_Prefix a) (tp_Prefix b)"
proof -
  note ok = pfx_okD(1) [OF assms(1)] pfx_okD(1) [OF assms(2)]
  have "Is4 (pAddr (tp_Prefix a)) \<noteq> Is4 (pAddr (tp_Prefix b)) \<Longrightarrow>
      addr_Compare (pAddr (tp_Prefix a)) (pAddr (tp_Prefix b)) < 0 \<longleftrightarrow> Is4 (pAddr (tp_Prefix a))"
    using ok by (cases "pAddr (tp_Prefix a)"; cases "pAddr (tp_Prefix b)") (auto simp: addr_Compare_less addr_ok_def cmp_def)
  moreover have "Is4 (pAddr (tp_Prefix a)) \<noteq> Is4 (pAddr (tp_Prefix b)) \<Longrightarrow>
      addr_Compare (pAddr (tp_Prefix a)) (pAddr (tp_Prefix b)) \<noteq> 0"
    using ok by (auto simp: addr_Compare_eq)
  ultimately show ?thesis by (auto simp: timed_compare_def prefix_less_def Let_def)
qed

text \<open>Once sorted, neighbours that do not overlap make the whole list canonical.\<close>

lemma ordered_disjoint:
  assumes ok: "\<forall>p\<in>set ps. pfx_ok p" and sorted: "sorted_wrt (\<lambda>p q. \<not> prefix_less q p) ps"
    and adj: "successively (\<lambda>p q. \<not> prefix_Overlaps p q) ps"
  shows "sorted_wrt disjoint_pair ps"
proof -
  let ?R = "\<lambda>p q. pfx_ok p \<and> pfx_ok q \<and> pbefore p q"
  have "successively ?R ps"
    using assms
  proof (induction ps rule: induct_list012)
    case (3 p q ps)
    have "\<not> prefix_less q p" "\<not> prefix_Overlaps p q" using 3(4,5) by simp_all
    moreover have "\<not> (phi q < plo p \<and> \<not> plo q < plo p)" using plo_le_phi [of q] by linarith
    ultimately have "pbefore p q"
      using 3(3) unfolding pbefore_def by (auto simp: prefix_less_iff prefix_Overlaps_iff)
    with 3 show ?case by auto
  qed simp_all
  moreover have "transp ?R"
  proof (rule transpI)
    fix x y z assume "?R x y" "?R y z"
    then show "?R x z" using plo_le_phi [of y] unfolding pbefore_def by linarith
  qed
  ultimately have "sorted_wrt ?R ps" by (simp add: successively_conv_sorted_wrt)
  then show ?thesis
    by (rule sorted_wrt_mono_rel [rotated])
      (auto simp: disjoint_pair_iff prefix_Overlaps_iff pbefore_def)
qed

lemma dynamic_values_None:
  "dynamic_values ts = None \<longleftrightarrow> list_all (\<lambda>t. pfx_ok (tp_Prefix t) \<and> tp_Deadline t \<noteq> 0) ts"
  by (induction ts) (auto simp: pfx_ok_def)

lemma overlap_loop_exact:
  assumes ok: "\<forall>t\<in>set ts. pfx_ok (tp_Prefix t)"
    and sorted: "sorted_wrt (\<lambda>p q. \<not> prefix_less q p) (map tp_Prefix ts)"
  shows "\<not> overlap_loop ts \<longleftrightarrow> sorted_wrt disjoint_pair (map tp_Prefix ts)"
proof
  assume "\<not> overlap_loop ts"
  then have "successively (\<lambda>p q. \<not> prefix_Overlaps p q) (map tp_Prefix ts)"
    by (simp add: overlap_loop_successively successively_map)
  then show "sorted_wrt disjoint_pair (map tp_Prefix ts)" using ordered_disjoint ok sorted by simp
next
  assume "sorted_wrt disjoint_pair (map tp_Prefix ts)"
  then show "\<not> overlap_loop ts"
    using ok by (induction ts rule: overlap_loop.induct) (auto simp: disjoint_pair_iff)
qed

abbreviation timed_less :: "TimedPrefix \<Rightarrow> TimedPrefix \<Rightarrow> bool" where
  "timed_less a b \<equiv> prefix_less (tp_Prefix a) (tp_Prefix b)"

interpretation timed_order: strict_weak timed_less
  by (rule strict_weak_key [where f = "\<lambda>t. prefix_key (tp_Prefix t)"]) (rule prefix_less_key)

lemma sort_timed:
  assumes ok: "\<forall>t\<in>set ts. pfx_ok (tp_Prefix t)"
  shows "sorted_wrt (\<lambda>p q. \<not> prefix_less q p)
    (map tp_Prefix (if \<not> IsSortedFunc timed_compare ts then sort_slice (\<lambda>a b. timed_compare a b < 0) ts else ts))"
proof (cases "IsSortedFunc timed_compare ts")
  case True
  have "successively (\<lambda>x y. \<not> timed_less y x) ts"
    using True ok by (induction ts rule: induct_list012) (auto simp: timed_compare_iff)
  moreover have "transp (\<lambda>x y. \<not> timed_less y x)"
    by (rule transpI) (metis timed_order.less_negtrans)
  ultimately show ?thesis using True by (simp add: successively_conv_sorted_wrt sorted_wrt_map)
next
  case False
  have "sort_slice (\<lambda>a b. timed_compare a b < 0) ts = sort_slice timed_less ts"
    using ok by (intro sort_slice_cong) (simp add: timed_compare_iff)
  then show ?thesis using False timed_order.sorted_sort_slice [of ts] by (simp add: sorted_wrt_map)
qed

lemma symp_disjoint_pair: "symp disjoint_pair"
  by (auto simp: symp_def disjoint_pair_def)

lemma validate_dynamic_exact:
  "ValidateDynamic ts = None \<longleftrightarrow>
     list_all (\<lambda>t. pfx_ok (tp_Prefix t) \<and> tp_Deadline t \<noteq> 0) ts \<and> sorted_wrt disjoint_pair (map tp_Prefix ts)"
proof (cases "list_all (\<lambda>t. pfx_ok (tp_Prefix t) \<and> tp_Deadline t \<noteq> 0) ts")
  case True
  then have v: "dynamic_values ts = None" and ok: "\<forall>t\<in>set ts. pfx_ok (tp_Prefix t)"
    by (simp add: dynamic_values_None) (use True in \<open>simp add: list_all_iff\<close>)
  define o' where "o' = (if \<not> IsSortedFunc timed_compare ts then sort_slice (\<lambda>a b. timed_compare a b < 0) ts else ts)"
  have m: "mset (map tp_Prefix o') = mset (map tp_Prefix ts)" and s: "set o' = set ts" by (simp_all add: o'_def)
  have "ValidateDynamic ts = None \<longleftrightarrow> \<not> overlap_loop o'" by (simp add: ValidateDynamic_def v o'_def Let_def)
  also have "\<dots> \<longleftrightarrow> sorted_wrt disjoint_pair (map tp_Prefix o')"
    using sort_timed [OF ok] ok s by (intro overlap_loop_exact) (simp_all add: o'_def)
  also have "\<dots> \<longleftrightarrow> sorted_wrt disjoint_pair (map tp_Prefix ts)"
    by (rule sorted_wrt_perm [OF symp_disjoint_pair m])
  finally show ?thesis using True by simp
next
  case False
  then obtain e where "dynamic_values ts = Some e" using dynamic_values_None [of ts] by (cases "dynamic_values ts") auto
  then show ?thesis using False by (simp add: ValidateDynamic_def)
qed

lemma store_decision_deadline:
  assumes "store_ok s" "d \<in> set (store_Decisions (Some s))"
  shows "de_Deadline d \<noteq> 0"
  using assms by (fastforce simp: store_Decisions_def store_ok_def retained_ok_def split: if_splits)

section \<open>Properties\<close>

text \<open>
  (C40) A lease never outlives its ban: it is between zero and one day, ends by the deadline, and
  is renewed, after half of it, exactly when the cap cut it short. Nothing is granted for less
  than one unit of remaining time, so that no zero lease stands for a permanent ban.
\<close>

theorem LeaseGrant_bounds:
  assumes "LeaseGrant deadline now unit = (grant, renewAt)" "0 < unit" "deadline \<noteq> 0"
  shows "0 \<le> grant \<and> grant \<le> maximumLease \<and> (grant = 0 \<or> now + grant \<le> deadline) \<and>
    (grant = 0 \<longleftrightarrow> time_Sub deadline now < unit) \<and>
    (if maximumLease < time_Sub deadline now div unit * unit
     then renewAt = now + grant div 2 \<and> now < renewAt \<and> renewAt < now + grant else renewAt = 0)"
proof -
  have r: "time_Sub deadline now \<le> deadline - now" if "0 < time_Sub deadline now"
    using that by (simp add: time_Sub_def)
  have d: "time_Sub deadline now div unit * unit \<le> time_Sub deadline now"
    using assms(2) by (simp add: minus_mod_eq_div_mult [symmetric])
  have z: "time_Sub deadline now div unit * unit = 0 \<longleftrightarrow> time_Sub deadline now < unit" if "0 < time_Sub deadline now"
    using that assms(2) by (auto simp: div_pos_pos_trivial) (metis less_le_not_le linorder_not_less pos_imp_zdiv_pos_iff)
  show ?thesis
  proof (cases "time_Sub deadline now \<le> 0")
    case True
    then have "(grant, renewAt) = (0, 0)" using assms by (simp add: LeaseGrant_def Let_def)
    moreover have "\<not> maximumLease < time_Sub deadline now div unit * unit" using True d by (simp add: maximumLease_def)
    ultimately show ?thesis using True assms(2) by (simp add: maximumLease_def)
  next
    case False
    then have p: "0 < time_Sub deadline now" by simp
    have n: "0 \<le> time_Sub deadline now div unit * unit" using p assms(2) by (simp add: pos_imp_zdiv_nonneg_iff)
    show ?thesis
    proof (cases "time_Sub deadline now div unit * unit \<le> maximumLease")
      case True
      then have "grant = time_Sub deadline now div unit * unit" "renewAt = 0"
        using assms p by (simp_all add: LeaseGrant_def Let_def)
      then show ?thesis using True n d r [OF p] z [OF p] by simp
    next
      case f: False
      then have g: "grant = maximumLease" "renewAt = now + maximumLease div 2"
        using assms p by (simp_all add: LeaseGrant_def Let_def)
      have m: "maximumLease = 86400000000000" by (simp add: maximumLease_def)
      have "time_Sub deadline now div unit * unit \<noteq> 0" using f m by auto
      then have "\<not> time_Sub deadline now < unit" using z [OF p] by blast
      moreover have "0 < maximumLease div 2" "maximumLease div 2 < maximumLease" by (simp_all add: m)
      ultimately show ?thesis using f g d r [OF p] by auto
    qed
  qed
qed

theorem LeaseGrant_bounds_witness:
  "\<exists>grant renewAt. LeaseGrant 200000000000000 1 1000000000 = (grant, renewAt) \<and> grant = maximumLease \<and>
     1 < renewAt \<and> renewAt < 1 + grant"
proof -
  have "LeaseGrant 200000000000000 1 1000000000 = (maximumLease, 1 + maximumLease div 2)"
    by (simp add: LeaseGrant_def time_Sub_def maximumLease_def)
  from this LeaseGrant_bounds [OF this] show ?thesis
    by (simp add: time_Sub_def maximumLease_def)
qed

text \<open>
  (C38) \<open>ValidateDynamic\<close> is exact: it accepts a projection precisely when every prefix is valid
  and masked, every deadline is set, and no address lies in two prefixes, in whatever order the
  prefixes come.
\<close>

theorem ValidateDynamic_exact:
  "ValidateDynamic ts = None \<longleftrightarrow>
     list_all (\<lambda>t. pfx_ok (tp_Prefix t) \<and> tp_Deadline t \<noteq> 0) ts \<and> sorted_wrt disjoint_pair (map tp_Prefix ts)"
  by (rule validate_dynamic_exact)

lemma canonical_pairwise: "canonical ps \<Longrightarrow> sorted_wrt disjoint_pair ps"
  unfolding canonical_def
  by (induction ps) (auto simp: disjoint_pair_iff prefix_Overlaps_iff pbefore_def)

lemma banned_until_deadline:
  assumes "banned_until ds a = Some t"
  shows "\<exists>d\<in>set ds. t = de_Deadline d"
proof -
  let ?ds = "filter (\<lambda>d. prefix_Contains (de_Prefix d) a) ds"
  have "?ds \<noteq> []" "t = Max (set (map de_Deadline ?ds))"
    using assms by (auto simp: banned_until_def Let_def split: if_splits)
  moreover have "finite (set (map de_Deadline ?ds))" by simp
  moreover have "set (map de_Deadline ?ds) \<noteq> {}" unfolding set_empty map_is_Nil_conv by (rule \<open>?ds \<noteq> []\<close>)
  ultimately have "t \<in> set (map de_Deadline ?ds)" using Max_in by metis
  then show ?thesis by auto
qed

lemma projected_until_first:
  assumes "canonical (map tp_Prefix ts)" "t \<in> set ts"
  shows "projected_until ts (pAddr (tp_Prefix t)) = Some (tp_Deadline t)"
proof -
  have ok: "pfx_ok (tp_Prefix t)" using assms by (simp add: canonical_def)
  then have self: "prefix_Contains (tp_Prefix t) (pAddr (tp_Prefix t))"
    using pfx_okD(1) [OF ok] plo_le_phi [of "tp_Prefix t"] by (simp add: prefix_Contains_iff pfam_def flip: plo_def)
  have "\<not> prefix_Contains (tp_Prefix u) (pAddr (tp_Prefix t))" if "u \<in> set us" "us @ t # vs = ts" for u us vs
    using canonical_pairwise [OF assms(1)] self that by (auto simp: sorted_wrt_append disjoint_pair_def)
  then obtain us vs where "ts = us @ t # vs" "\<forall>u\<in>set us. \<not> prefix_Contains (tp_Prefix u) (pAddr (tp_Prefix t))"
    using assms(2) by (metis split_list)
  moreover have "find P us = None" if "\<forall>u\<in>set us. \<not> P u" for P and us :: "TimedPrefix list"
    using that by (auto simp: find_None_iff)
  ultimately show ?thesis using self by (simp add: projected_until_def find_append)
qed

text \<open>
  (C39) The projection of a well-formed decision store always passes \<open>ValidateDynamic\<close>: the two
  packages agree on the shape of a projection.
\<close>

theorem projection_validates:
  assumes "store_ok s"
  shows "\<exists>ts. store_Projection (Some s) now = Some ts \<and> ValidateDynamic ts = None"
proof -
  obtain ts where ts: "store_Projection (Some s) now = Some ts" "canonical (map tp_Prefix ts)"
    "\<And>a. projected_until ts a = banned_until (live_decisions s now) a"
    using projection_correct [OF assms] by blast
  have "tp_Deadline t \<noteq> 0" if t: "t \<in> set ts" for t
  proof -
    obtain d where "d \<in> set (live_decisions s now)" "tp_Deadline t = de_Deadline d"
      using banned_until_deadline projected_until_first [OF ts(2) t] ts(3) by metis
    then show ?thesis using assms by (auto simp: live_decisions_def store_decision_deadline)
  qed
  then have "list_all (\<lambda>t. pfx_ok (tp_Prefix t) \<and> tp_Deadline t \<noteq> 0) ts"
    using ts(2) by (simp add: canonical_def list_all_iff)
  then have "ValidateDynamic ts = None" using canonical_pairwise [OF ts(2)] by (simp add: validate_dynamic_exact)
  then show ?thesis using ts(1) by blast
qed

theorem projection_validates_witness:
  "\<exists>ts. store_Projection (Some nested_store) 3 = Some ts \<and> ValidateDynamic ts = None"
proof -
  have "store_ok nested_store" by code_simp
  then show ?thesis by (rule projection_validates)
qed

end
