(* ===== verification/Packet_Filter.thy ===== *)
theory Packet_Filter
  imports Policy_Model
begin

text \<open>
  What a native packet filter does with a packet, as far as both backends use it: a chain is a
  list of rules, a rule that matches may end the packet, return to the calling chain, call
  another chain or go there without coming back. A native rule is judged by two functions, so
  that the rules of nftables and iptables share the walk.
\<close>

section \<open>Walking a chain\<close>

datatype terminal = Dropped | Rejected string

datatype rule_target = NoTarget | ReturnTarget | Terminal terminal | Jump string | Goto string

text \<open>
  The result is the terminal verdict, if there is one, and the rules that matched. The depth
  bounds the nesting of calls; \<open>None\<close> means that it does not suffice.
\<close>

fun walk ::
  "('r \<Rightarrow> bool) \<Rightarrow> ('r \<Rightarrow> rule_target) \<Rightarrow> (string \<Rightarrow> 'r list) \<Rightarrow> nat \<Rightarrow> 'r list \<Rightarrow> (terminal option \<times> 'r list) option" where
  "walk holds target chain depth [] = Some (None, [])"
| "walk holds target chain depth (rule # rest) =
     (if \<not> holds rule then walk holds target chain depth rest
      else
        (case target rule of
           NoTarget \<Rightarrow> map_option (apsnd (Cons rule)) (walk holds target chain depth rest)
         | ReturnTarget \<Rightarrow> Some (None, [rule])
         | Terminal t \<Rightarrow> Some (Some t, [rule])
         | Jump name \<Rightarrow>
             (case depth of
                0 \<Rightarrow> None
              | Suc d \<Rightarrow>
                  (case walk holds target chain d (chain name) of
                     None \<Rightarrow> None
                   | Some (Some t, hits) \<Rightarrow> Some (Some t, rule # hits)
                   | Some (None, hits) \<Rightarrow> map_option (apsnd (\<lambda>more. rule # hits @ more)) (walk holds target chain depth rest)))
         | Goto name \<Rightarrow>
             (case depth of
                0 \<Rightarrow> None
              | Suc d \<Rightarrow> map_option (apsnd (Cons rule)) (walk holds target chain d (chain name)))))"

text \<open>A rule that does not match is as good as absent.\<close>

lemma walk_filter: "walk holds target chain depth rules = walk holds target chain depth (filter holds rules)"
proof (induction holds target chain depth rules rule: walk.induct)
  case (2 holds target chain depth rule rest)
  show ?case
  proof (cases "holds rule")
    case True
    then show ?thesis using 2 by (cases "target rule"; cases depth) (auto split: option.splits prod.splits)
  qed (use 2 in simp)
qed simp

section \<open>Lowering logical rules\<close>

definition action_target :: "string \<Rightarrow> Action \<Rightarrow> rule_target" where
  "action_target kind action = (case action of Return \<Rightarrow> ReturnTarget | Drop \<Rightarrow> Terminal Dropped | Reject \<Rightarrow> Terminal (Rejected kind))"

definition action_verdict :: "string \<Rightarrow> Action \<Rightarrow> terminal option" where
  "action_verdict kind action = (case action of Return \<Rightarrow> None | Drop \<Rightarrow> Some Dropped | Reject \<Rightarrow> Some (Rejected kind))"

text \<open>A backend numbers its native rules, so the lowering of a rule depends on a start index.\<close>

fun lower_all :: "(nat \<Rightarrow> Rule \<Rightarrow> 'r list) \<Rightarrow> nat \<Rightarrow> Rule list \<Rightarrow> 'r list" where
  "lower_all lower index [] = []"
| "lower_all lower index (rule # rest) = lower index rule @ lower_all lower (index + length (lower index rule)) rest"

text \<open>
  What a backend promises for a packet: some native rule of a usable logical rule matches
  exactly when the logical rule does, and each one that matches has the target of its action.
\<close>

locale rule_lowering =
  fixes lower :: "nat \<Rightarrow> Rule \<Rightarrow> 'r list"
    and holds :: "'r \<Rightarrow> bool"
    and target :: "'r \<Rightarrow> rule_target"
    and matches :: "Rule \<Rightarrow> bool"
    and usable :: "Rule \<Rightarrow> bool"
    and kind :: string
  assumes lower_holds: "usable rule \<Longrightarrow> (\<exists>r\<in>set (lower index rule). holds r) \<longleftrightarrow> matches rule"
    and lower_target: "usable rule \<Longrightarrow> r \<in> set (lower index rule) \<Longrightarrow> holds r \<Longrightarrow> target r = action_target kind (ru_Action rule)"
begin

lemma walk_decided:
  assumes "usable rule" "matches rule"
  shows "\<exists>r\<in>set (lower index rule). walk holds target chain depth (lower index rule @ rest) = Some (action_verdict kind (ru_Action rule), [r])"
proof -
  let ?found = "filter holds (lower index rule)"
  have "?found \<noteq> []" using lower_holds [OF assms(1)] assms(2) by (auto simp: filter_empty_conv)
  then obtain r rs where r: "?found = r # rs" by (cases ?found) auto
  then have "r \<in> set (lower index rule) \<and> holds r" using filter_set [of holds "lower index rule"] by auto
  moreover from this have "target r = action_target kind (ru_Action rule)" using lower_target assms(1) by blast
  moreover have "walk holds target chain depth (lower index rule @ rest) = walk holds target chain depth (r # rs @ filter holds rest)"
    by (subst walk_filter) (simp add: r)
  ultimately show ?thesis by (intro bexI [of _ r]) (cases "ru_Action rule"; simp add: action_target_def action_verdict_def)+
qed

lemma walk_skipped:
  assumes "usable rule" "\<not> matches rule"
  shows "walk holds target chain depth (lower index rule @ rest) = walk holds target chain depth rest"
proof -
  have "filter holds (lower index rule) = []" using lower_holds [OF assms(1)] assms(2) by (auto simp: filter_empty_conv)
  then show ?thesis by (subst (1 2) walk_filter) simp
qed

text \<open>The native rules of a path decide as the first logical rule that matches.\<close>

lemma walk_path:
  assumes "\<forall>rule\<in>set rules. usable rule"
  shows "case find matches rules of
      None \<Rightarrow> walk holds target chain depth (lower_all lower index rules) = Some (None, [])
    | Some rule \<Rightarrow> \<exists>i. \<exists>r\<in>set (lower i rule).
        walk holds target chain depth (lower_all lower index rules) = Some (action_verdict kind (ru_Action rule), [r])"
  using assms
proof (induction rules arbitrary: index)
  case (Cons rule rest)
  let ?rest = "lower_all lower (index + length (lower index rule)) rest"
  show ?case
  proof (cases "matches rule")
    case True
    then show ?thesis using walk_decided [of rule index chain depth ?rest] Cons.prems by auto
  next
    case False
    then show ?thesis using walk_skipped [of rule chain depth index ?rest] Cons by (auto split: option.splits)
  qed
qed simp

end

end
