(* ===== verification/Firewall_Target.thy ===== *)
theory Firewall_Target
  imports Policy_Model Config_CSV
begin

text \<open>
  The desired firewall state of \<open>internal/firewall/types.go\<close>, and the names that
  \<open>internal/firewall/nftables_model.go\<close> and \<open>internal/firewall/iptables_model.go\<close> give to
  its native objects. The hexadecimal SHA-256 digest of a text is the argument \<open>digest\<close>.
\<close>

section \<open>Targets\<close>

record CounterSpec =
  co_Name :: string
  co_Family :: Family
  co_Direction :: Direction
  co_Role :: CounterRole

record IPTablesTarget =
  ip_Attachments :: "Attachment list"

record Target =
  tg_Owner :: string
  tg_Table :: string
  tg_Priority :: "32 word"
  tg_Generation :: string
  tg_Families :: "FamilyPlan list"
  tg_Counters :: "CounterSpec list"
  tg_IPTables :: "IPTablesTarget option"
  tg_DynamicGeneration :: string

definition target_Backend :: "Target option \<Rightarrow> string" where
  "target_Backend t =
     (case t of None \<Rightarrow> '''' | Some t \<Rightarrow> if tg_IPTables t \<noteq> None then ''iptables'' else ''nftables'')"

section \<open>Names\<close>

abbreviation stableToken :: string where "stableToken \<equiv> ''stable''"
abbreviation maxNFTNameBytes :: nat where "maxNFTNameBytes \<equiv> 255"

fun kind_string :: "CounterKind \<Rightarrow> string" where
  "kind_string Processed = ''processed''"
| "kind_string Denied = ''denied''"

fun reason_string :: "DenyReason \<Rightarrow> string" where
  "reason_string GlobalBlocklist = ''global_blocklist''"
| "reason_string CrowdSec = ''crowdsec''"
| "reason_string GeoPolicy = ''geo_policy''"

fun action_string :: "Action \<Rightarrow> string" where
  "action_string Return = ''return''"
| "action_string Drop = ''drop''"
| "action_string Reject = ''reject''"

definition unset :: "('a \<Rightarrow> string) \<Rightarrow> 'a option \<Rightarrow> string" where
  "unset text v = (case v of None \<Rightarrow> '''' | Some v \<Rightarrow> text v)"

definition familyToken :: "Family \<Rightarrow> string" where
  "familyToken value = (if value = IPv4 then ''v4'' else ''v6'')"

fun strings_Join :: "string list \<Rightarrow> string \<Rightarrow> string" where
  "strings_Join [] sep = ''''"
| "strings_Join [p] sep = p"
| "strings_Join (p # q # ps) sep = p @ sep @ strings_Join (q # ps) sep"

definition counterName :: "string \<Rightarrow> Family \<Rightarrow> Direction \<Rightarrow> CounterRole \<Rightarrow> string" where
  "counterName owner family direction role =
     strings_Join
       ([''pd'', owner, ''counter'', familyToken family, direction_string direction, unset kind_string (cr_Kind role)] @
        (if cr_Kind role = Some Denied then [unset reason_string (cr_Reason role), unset action_string (cr_Action role)] else []))
       ''_''"

definition sanitizeRole :: "string \<Rightarrow> string" where
  "sanitizeRole value = map (\<lambda>c. if c = CHR ''/'' \<or> c = CHR '' '' \<or> c = CHR ''.'' then CHR ''_'' else c) value"

definition artifactName :: "string \<Rightarrow> string \<Rightarrow> string \<Rightarrow> string" where
  "artifactName owner generation role = ''pd_'' @ owner @ ''_'' @ generation @ ''_'' @ sanitizeRole role"

definition ownershipComment :: "string \<Rightarrow> string \<Rightarrow> string \<Rightarrow> bool \<Rightarrow> string" where
  "ownershipComment owner generation role fixed =
     (if fixed then ''perimeterd owner='' @ owner @ '' role='' @ role
      else ''perimeterd owner='' @ owner @ '' generation='' @ generation @ '' role='' @ role)"

definition baseChainName :: "Target \<Rightarrow> Direction \<Rightarrow> string" where
  "baseChainName target direction = artifactName (tg_Owner target) stableToken (''base_'' @ direction_string direction)"

definition entryChainName :: "Target \<Rightarrow> Family \<Rightarrow> Direction \<Rightarrow> string" where
  "entryChainName target family direction =
     artifactName (tg_Owner target) stableToken (''entry_'' @ familyToken family @ ''_'' @ direction_string direction)"

definition generationChainName :: "Target \<Rightarrow> Family \<Rightarrow> Direction \<Rightarrow> string" where
  "generationChainName target family direction =
     artifactName (tg_Owner target) (tg_Generation target) (''path_'' @ familyToken family @ ''_'' @ direction_string direction)"

definition dynamicSetName :: "Target \<Rightarrow> Family \<Rightarrow> string" where
  "dynamicSetName target family = artifactName (tg_Owner target) (tg_DynamicGeneration target) (''dynamic_'' @ familyToken family)"

text \<open>
  A name over the limit keeps a readable start and ends with the digest of the logical
  identifier.
\<close>

definition setName :: "(string \<Rightarrow> string) \<Rightarrow> Target \<Rightarrow> Family \<Rightarrow> string \<Rightarrow> string" where
  "setName digest target family setID =
     (if setID = ''crowdsec'' \<and> tg_DynamicGeneration target \<noteq> '''' then dynamicSetName target family
      else
        (let prefix = artifactName (tg_Owner target) (tg_Generation target) (''set_'' @ familyToken family @ ''_'');
             readable = (if setID = ''geo/eligible'' then ''geo_policy_eligible'' else sanitizeRole setID);
             name = prefix @ readable in
         if length name \<le> maxNFTNameBytes then name
         else
           (let suffix = ''_h'' @ digest setID; available = maxNFTNameBytes - length prefix - length suffix in
            prefix @ take available readable @ suffix)))"

definition chainRole :: "Family \<Rightarrow> Direction \<Rightarrow> string" where
  "chainRole family direction = ''path_'' @ familyToken family @ ''_'' @ direction_string direction"

definition entryRole :: "Family \<Rightarrow> Direction \<Rightarrow> string" where
  "entryRole family direction = ''entry_'' @ familyToken family @ ''_'' @ direction_string direction"

section \<open>Names of iptables objects\<close>

abbreviation maxIPTChainNameBytes :: nat where "maxIPTChainNameBytes \<equiv> 28"
abbreviation maxIPTSetNameBytes :: nat where "maxIPTSetNameBytes \<equiv> 31"
abbreviation iptNameDigestBytes :: nat where "iptNameDigestBytes \<equiv> 12"
abbreviation iptSetDigestBytes :: nat where "iptSetDigestBytes \<equiv> 13"

abbreviation nul :: string where "nul \<equiv> [CHR 0x00]"

definition iptSetName :: "(string \<Rightarrow> string) \<Rightarrow> Target \<Rightarrow> Family \<Rightarrow> string \<Rightarrow> string" where
  "iptSetName digest target family setID =
     (let identity = strings_Join [''set'', tg_Owner target, tg_Generation target, familyToken family, setID] nul in
      ''pd'' @ familyToken family @ ''s'' @ take (2 * iptSetDigestBytes) (digest identity))"

definition iptDynamicSetName :: "(string \<Rightarrow> string) \<Rightarrow> Target \<Rightarrow> Family \<Rightarrow> string" where
  "iptDynamicSetName digest target family =
     (let identity = strings_Join [''dynamic'', tg_Owner target, tg_DynamicGeneration target, familyToken family, ''crowdsec''] nul in
      ''pd'' @ familyToken family @ ''d'' @ take (2 * iptSetDigestBytes) (digest identity))"

definition iptDynamicSpareName :: "string \<Rightarrow> string" where
  "iptDynamicSpareName live = take 4 live @ ''r'' @ drop 5 live"

definition iptChainName :: "(string \<Rightarrow> string) \<Rightarrow> string \<Rightarrow> string" where
  "iptChainName digest identity = ''pdc'' @ take (2 * iptNameDigestBytes) (digest identity)"

definition iptGenerationChainName :: "(string \<Rightarrow> string) \<Rightarrow> Target \<Rightarrow> Family \<Rightarrow> Direction \<Rightarrow> bool \<Rightarrow> string" where
  "iptGenerationChainName digest target family direction originalDestination =
     iptChainName digest (strings_Join
       [''staging'', tg_Owner target, tg_Generation target, familyToken family, direction_string direction, FormatBool originalDestination] nul)"

definition attachmentIdentity :: "Attachment \<Rightarrow> string" where
  "attachmentIdentity attachment =
     strings_Join [at_Chain attachment, at_Direction attachment, strings_Join (at_InputInterfaces attachment) [CHR 0x01],
       strings_Join (at_OutputInterfaces attachment) [CHR 0x01], FormatBool (at_OriginalDestination attachment)] nul"

definition iptEntryChainName :: "(string \<Rightarrow> string) \<Rightarrow> Target \<Rightarrow> Family \<Rightarrow> Attachment \<Rightarrow> string" where
  "iptEntryChainName digest target family attachment =
     iptChainName digest (strings_Join [''entry'', tg_Owner target, familyToken family, attachmentIdentity attachment] nul)"

definition iptFilterChainName :: "(string \<Rightarrow> string) \<Rightarrow> Target \<Rightarrow> Family \<Rightarrow> Attachment \<Rightarrow> string" where
  "iptFilterChainName digest target family attachment =
     iptChainName digest (strings_Join [''filter'', tg_Owner target, familyToken family, attachmentIdentity attachment] nul)"

definition safeAttachmentIdentity :: "(string \<Rightarrow> string) \<Rightarrow> Attachment \<Rightarrow> string" where
  "safeAttachmentIdentity digest attachment =
     at_Chain attachment @ ''_'' @ at_Direction attachment @ ''_h'' @ take 16 (digest (attachmentIdentity attachment))"

definition attachmentDirection :: "Attachment \<Rightarrow> Direction" where
  "attachmentDirection attachment = (if at_Direction attachment = ''egress'' then Egress else Ingress)"

end
