(* ===== verification/Firewall_Validate.thy ===== *)
theory Firewall_Validate
  imports Firewall_Target Firewall_Dynamic
begin

text \<open>
  The checks of \<open>internal/firewall/types.go\<close> that a configuration and a target pass before
  anything is changed, \<open>validateIPTablesTarget\<close> of \<open>internal/firewall/iptables_model.go\<close>, and
  \<open>BuildTarget\<close> of \<open>internal/firewall/nftables_model.go\<close>.

  The enumerations of the policy model are datatypes, so the checks for unknown families,
  directions, set kinds, actions and flow guards have no counterpart. Where the code ranges
  over a Go map, the order decides only which entry an error names, and the error carries no
  name here.
\<close>

section \<open>Identifiers\<close>

definition validTargetID :: "string \<Rightarrow> bool" where
  "validTargetID value = (length value = 32 \<and> list_all (\<lambda>c. is_digit c \<or> CHR ''a'' \<le> c \<and> c \<le> CHR ''f'') value)"

definition validRole :: "CounterRole \<Rightarrow> bool" where
  "validRole role =
     (if cr_Kind role = Some Processed then cr_Reason role = None \<and> cr_Action role = None
      else cr_Kind role = Some Denied \<and>
        (cr_Reason role = Some GlobalBlocklist \<or> cr_Reason role = Some GeoPolicy \<or> cr_Reason role = Some CrowdSec) \<and>
        (cr_Action role = Some Drop \<or> cr_Action role = Some Reject))"

definition validGeoSetID :: "string \<Rightarrow> bool" where
  "validGeoSetID value =
     (if take 4 value \<noteq> ''geo/'' \<or> length value = 4 then False
      else
        (let name = drop 4 value in
         if hd name = CHR ''-'' \<or> last name = CHR ''-'' then False
         else list_all (\<lambda>c. lower_alnum c \<or> c = CHR ''-'') name))"

definition validNFTName :: "string \<Rightarrow> bool" where
  "validNFTName value = (value \<noteq> '''' \<and> length value \<le> maxNFTNameBytes \<and> CHR 0x00 \<notin> set value)"

definition validStaticSetID :: "string \<Rightarrow> bool" where
  "validStaticSetID value =
     (value = ''global_allowlist'' \<or> value = ''global_blocklist'' \<or> value = ''geo_eligible'' \<or> validGeoSetID value)"

definition validTrafficScope :: "Scope \<Rightarrow> bool" where
  "validTrafficScope scope =
     (if sc_Any scope then length (sc_TCP scope) = 0 \<and> length (sc_UDP scope) = 0 \<and> \<not> sc_ICMP scope
      else if length (sc_TCP scope) = 0 \<and> length (sc_UDP scope) = 0 \<and> \<not> sc_ICMP scope then False
      else list_all (\<lambda>value. \<not> (pr_Start value = 0 \<or> pr_End value < pr_Start value)) (sc_TCP scope @ sc_UDP scope))"

section \<open>Configuration\<close>

datatype runtime_error = Unsupported_version int | Unsupported_backend string | Unsupported_deny_action string
  | Unsupported_mode string string | Table_empty | Table_too_long | Table_with_NUL | Priority_out_of_range int

definition ValidateConfig :: "Config \<Rightarrow> runtime_error option" where
  "ValidateConfig value =
     (let table = nf_Table (fw_Nftables (cg_Firewall value)); priority = sint (nf_Priority (fw_Nftables (cg_Firewall value))) in
      if cg_Version value \<noteq> 1 then Some (Unsupported_version (cg_Version value))
      else if fw_Backend (cg_Firewall value) \<noteq> ''nftables'' \<and> fw_Backend (cg_Firewall value) \<noteq> ''iptables'' then
        Some (Unsupported_backend (fw_Backend (cg_Firewall value)))
      else if fw_DenyAction (cg_Firewall value) \<noteq> ''drop'' \<and> fw_DenyAction (cg_Firewall value) \<noteq> ''reject'' then
        Some (Unsupported_deny_action (fw_DenyAction (cg_Firewall value)))
      else
        (case find (\<lambda>item. po_Mode item \<noteq> ''disabled'' \<and> po_Mode item \<noteq> ''allowlist'' \<and> po_Mode item \<noteq> ''blocklist'') (cg_Policies value) of
           Some item \<Rightarrow> Some (Unsupported_mode (po_Name item) (po_Mode item))
         | None \<Rightarrow>
             if table = '''' then Some Table_empty
             else if maxNFTNameBytes < length table then Some Table_too_long
             else if CHR 0x00 \<in> set table then Some Table_with_NUL
             else if priority \<le> -200 then Some (Priority_out_of_range priority)
             else None))"

section \<open>Attachments\<close>

datatype ident_error = Ident_empty | Ident_too_long | Ident_character

datatype ipt_error = No_attachment | Chain_name nat ident_error | Bad_direction nat string | Input_name nat nat ident_error
  | Output_name nat nat ident_error | Input_required nat | Output_required nat | Duplicate_attachment string | Name_limit string
  | Name_collision string string string

definition validateIPTablesIdentifier :: "string \<Rightarrow> nat \<Rightarrow> bool \<Rightarrow> ident_error option" where
  "validateIPTablesIdentifier value limit allowPlus =
     (if value = '''' then Some Ident_empty
      else if limit < length value then Some Ident_too_long
      else if list_ex (\<lambda>c. \<not> (allowPlus \<and> c = CHR ''+'' \<or> lower_alnum c \<or> ascii_upper c \<or> c \<in> set ''-_.:'')) value then Some Ident_character
      else None)"

definition check_attachment_fields :: "nat \<Rightarrow> Attachment \<Rightarrow> ipt_error option" where
  "check_attachment_fields index attachment =
     (case validateIPTablesIdentifier (at_Chain attachment) maxIPTChainNameBytes False of
        Some e \<Rightarrow> Some (Chain_name index e)
      | None \<Rightarrow>
          if at_Direction attachment \<noteq> ''ingress'' \<and> at_Direction attachment \<noteq> ''egress'' then
            Some (Bad_direction index (at_Direction attachment))
          else
            (case check_all 0 (\<lambda>i name. map_option (Input_name index i) (validateIPTablesIdentifier name 15 True)) (at_InputInterfaces attachment) of
               Some e \<Rightarrow> Some e
             | None \<Rightarrow>
                 (case check_all 0 (\<lambda>i name. map_option (Output_name index i) (validateIPTablesIdentifier name 15 True))
                     (at_OutputInterfaces attachment) of
                    Some e \<Rightarrow> Some e
                  | None \<Rightarrow>
                      if at_Chain attachment \<noteq> ''INPUT'' \<and> at_Chain attachment \<noteq> ''OUTPUT'' then
                        (if at_Direction attachment = ''ingress'' \<and> length (at_InputInterfaces attachment) = 0 then Some (Input_required index)
                         else if at_Direction attachment = ''egress'' \<and> length (at_OutputInterfaces attachment) = 0 then
                           Some (Output_required index)
                         else None)
                      else None)))"

fun attachments_check :: "nat \<Rightarrow> string list \<Rightarrow> Attachment list \<Rightarrow> ipt_error option" where
  "attachments_check index seen [] = None"
| "attachments_check index seen (attachment # rest) =
     (case check_attachment_fields index attachment of
        Some e \<Rightarrow> Some e
      | None \<Rightarrow>
          if attachmentIdentity attachment \<in> set seen then Some (Duplicate_attachment (at_Chain attachment))
          else attachments_check (Suc index) (attachmentIdentity attachment # seen) rest)"

text \<open>Native names with the identity they stand for.\<close>

type_synonym natives = "(string \<times> string) list"

definition addNative :: "string \<Rightarrow> string \<Rightarrow> nat \<Rightarrow> natives \<Rightarrow> ipt_error + natives" where
  "addNative name identity limit seenNative =
     (if limit < length name \<or> name = '''' then Inl (Name_limit name)
      else
        (case map_of seenNative name of
           Some previous \<Rightarrow>
             if previous \<noteq> identity then Inl (Name_collision name previous identity)
             else Inr (map_put name identity seenNative)
         | None \<Rightarrow> Inr (map_put name identity seenNative)))"

definition native_set :: "(string \<Rightarrow> string) \<Rightarrow> Target \<Rightarrow> Family \<Rightarrow> PrefixSet \<Rightarrow> natives \<Rightarrow> ipt_error + natives" where
  "native_set digest target family item seenNative =
     (case ps_Kind item of
        StaticSet \<Rightarrow>
          addNative (iptSetName digest target family (ps_ID item)) (''set/'' @ familyToken family @ ''/'' @ ps_ID item) maxIPTSetNameBytes seenNative
      | DynamicCrowdSecSet \<Rightarrow>
          (let name = iptDynamicSetName digest target family; identity = ''dynamic/'' @ familyToken family @ ''/'' @ ps_ID item in
           result_bind (addNative (iptDynamicSpareName name) (identity @ ''/resize'') maxIPTSetNameBytes seenNative) (\<lambda>seenNative.
             addNative name identity maxIPTSetNameBytes seenNative)))"

definition native_chains :: "(string \<Rightarrow> string) \<Rightarrow> Target \<Rightarrow> Family \<Rightarrow> Attachment \<Rightarrow> natives \<Rightarrow> ipt_error + natives" where
  "native_chains digest target family attachment seenNative =
     (if at_Direction attachment \<noteq> ''ingress'' \<and> at_Direction attachment \<noteq> ''egress'' then Inr seenNative
      else
        result_bind (addNative (iptEntryChainName digest target family attachment)
            (''entry/'' @ familyToken family @ ''/'' @ attachmentIdentity attachment) maxIPTChainNameBytes seenNative) (\<lambda>seenNative.
        result_bind
          (if length (at_InputInterfaces attachment) \<noteq> 0 \<or> length (at_OutputInterfaces attachment) \<noteq> 0
           then addNative (iptFilterChainName digest target family attachment)
             (''filter/'' @ familyToken family @ ''/'' @ attachmentIdentity attachment) maxIPTChainNameBytes seenNative
           else Inr seenNative) (\<lambda>seenNative.
        addNative (iptGenerationChainName digest target family (attachmentDirection attachment) (at_OriginalDestination attachment))
          (''staging/'' @ familyToken family @ ''/'' @ at_Direction attachment @ ''/'' @ FormatBool (at_OriginalDestination attachment))
          maxIPTChainNameBytes seenNative)))"

definition native_family :: "(string \<Rightarrow> string) \<Rightarrow> Target \<Rightarrow> Attachment list \<Rightarrow> FamilyPlan \<Rightarrow> natives \<Rightarrow> ipt_error + natives" where
  "native_family digest target attachments family seenNative =
     result_bind (fold_result (native_set digest target (fp_Family family)) (fp_Sets family) seenNative)
       (fold_result (native_chains digest target (fp_Family family)) attachments)"

definition validateIPTablesTarget :: "(string \<Rightarrow> string) \<Rightarrow> Target \<Rightarrow> ipt_error option" where
  "validateIPTablesTarget digest target =
     (case tg_IPTables target of
        None \<Rightarrow> None
      | Some iptables \<Rightarrow>
          (let attachments = ip_Attachments iptables in
           if length attachments = 0 then Some No_attachment
           else
             (case attachments_check 0 [] attachments of
                Some e \<Rightarrow> Some e
              | None \<Rightarrow>
                  (case fold_result (native_family digest target attachments) (tg_Families target)
                      (fold (\<lambda>attachment. map_put (at_Chain attachment) (''parent/'' @ at_Chain attachment)) attachments []) of
                     Inl e \<Rightarrow> Some e
                   | Inr _ \<Rightarrow> None))))"

section \<open>Rules and sets\<close>

datatype prefix_error = Prefix_invalid | Prefix_family | Prefix_unmasked

definition validatePrefix :: "prefix \<Rightarrow> Family \<Rightarrow> prefix_error option" where
  "validatePrefix value family =
     (if \<not> prefix_IsValid value then Some Prefix_invalid
      else if family = IPv4 \<and> \<not> Is4 (pAddr value) then Some Prefix_family
      else if family = IPv6 \<and> \<not> Is6 (pAddr value) then Some Prefix_family
      else if value \<noteq> prefix_Masked value then Some Prefix_unmasked
      else None)"

datatype rule_error = Traffic_invalid | Set_reference string | Negated_reference string | Negated_without_set | Guard_metadata
  | Counter_role | Processed_on_rule | Counter_action | Geo_without_policy | CrowdSec_match | Global_with_policy

definition validateRuntimeRule :: "Rule \<Rightarrow> string list \<Rightarrow> rule_error option" where
  "validateRuntimeRule rule setIDs =
     (let match = ru_Match rule; counter = ru_Counter rule in
      if \<not> validTrafficScope (ma_Traffic match) then Some Traffic_invalid
      else if ma_SetID match \<noteq> '''' \<and> ma_SetID match \<notin> set setIDs then Some (Set_reference (ma_SetID match))
      else if ma_SetID match \<noteq> '''' \<and> ma_NegateSet match \<and> ma_SetID match \<noteq> ''geo_eligible'' then Some (Negated_reference (ma_SetID match))
      else if ma_SetID match = '''' \<and> ma_NegateSet match then Some Negated_without_set
      else if ma_Flow match \<noteq> AnyFlow \<and> (\<not> sc_Any (ma_Traffic match) \<or> ma_SetID match \<noteq> '''' \<or> ru_Policy rule \<noteq> '''') then Some Guard_metadata
      else if counter \<noteq> no_counter then
        (if \<not> validRole counter then Some Counter_role
         else if cr_Kind counter = Some Processed then Some Processed_on_rule
         else if cr_Action counter \<noteq> Some (ru_Action rule) then Some Counter_action
         else if cr_Reason counter = Some GeoPolicy \<and> ru_Policy rule = '''' then Some Geo_without_policy
         else if cr_Reason counter = Some CrowdSec \<and> (ma_SetID match \<noteq> ''crowdsec'' \<or> ru_Policy rule \<noteq> '''') then Some CrowdSec_match
         else if cr_Reason counter = Some GlobalBlocklist \<and> ru_Policy rule \<noteq> '''' then Some Global_with_policy
         else None)
      else None)"

datatype target_error = Owner_malformed | Generation_malformed | Table_invalid | Priority_too_low int | IPTables_placement
  | IPTables_rejected ipt_error | No_family | Dynamic_generation_malformed | Duplicate_family Family | Unsupported_set string
  | Dynamic_set_invalid | Duplicate_set string | Native_name_invalid string | Native_name_collision string string string
  | Set_prefix string prefix_error | Dynamic_disagrees | Path_remote Direction | Duplicate_path Direction | Processed_role Direction
  | Path_rule Direction rule_error | CrowdSec_rule | Denial_role | Missing_path Family | No_counters | Counter_invalid string
  | Counter_name string | Duplicate_counter string | Counter_missing

text \<open>The state of the set loop: identifiers, whether a set is dynamic, and native names.\<close>

record sets_state =
  ss_setIDs :: "string list"
  ss_hasDynamic :: bool
  ss_nativeSets :: natives

definition validate_set :: "(string \<Rightarrow> string) \<Rightarrow> Target \<Rightarrow> Family \<Rightarrow> PrefixSet \<Rightarrow> sets_state \<Rightarrow> target_error + sets_state" where
  "validate_set digest value family item st =
     (case (case ps_Kind item of
              StaticSet \<Rightarrow> if \<not> validStaticSetID (ps_ID item) then Some (Unsupported_set (ps_ID item)) else None
            | DynamicCrowdSecSet \<Rightarrow>
                if ps_ID item \<noteq> ''crowdsec'' \<or> length (ps_Prefixes item) \<noteq> 0 \<or> tg_DynamicGeneration value = '''' then Some Dynamic_set_invalid
                else None) of
        Some e \<Rightarrow> Inl e
      | None \<Rightarrow>
          (let st = (if ps_Kind item = DynamicCrowdSecSet then st\<lparr>ss_hasDynamic := True\<rparr> else st) in
           if ps_ID item \<in> set (ss_setIDs st) then Inl (Duplicate_set (ps_ID item))
           else
             (let st = st\<lparr>ss_setIDs := ps_ID item # ss_setIDs st\<rparr> in
              result_bind
                (if tg_IPTables value = None then
                   (let nativeName = setName digest value family (ps_ID item) in
                    if \<not> validNFTName nativeName then Inl (Native_name_invalid (ps_ID item))
                    else
                      (case map_of (ss_nativeSets st) nativeName of
                         Some previous \<Rightarrow> Inl (Native_name_collision previous (ps_ID item) nativeName)
                       | None \<Rightarrow> Inr (st\<lparr>ss_nativeSets := map_put nativeName (ps_ID item) (ss_nativeSets st)\<rparr>)))
                 else Inr st)
                (\<lambda>st.
                  case check_all 0 (\<lambda>_ p. validatePrefix p family) (ps_Prefixes item) of
                    Some e \<Rightarrow> Inl (Set_prefix (ps_ID item) e)
                  | None \<Rightarrow> Inr st))))"

section \<open>Paths and families\<close>

text \<open>The counters a path needs are collected by name.\<close>

type_synonym counters = "(string \<times> CounterSpec) list"

definition validate_rule ::
  "Target \<Rightarrow> Family \<Rightarrow> Direction \<Rightarrow> string list \<Rightarrow> Rule \<Rightarrow> counters \<Rightarrow> target_error + counters" where
  "validate_rule value family direction setIDs rule expected =
     (case validateRuntimeRule rule setIDs of
        Some e \<Rightarrow> Inl (Path_rule direction e)
      | None \<Rightarrow>
          if ma_SetID (ru_Match rule) = ''crowdsec'' \<and>
             (direction \<noteq> Ingress \<or> cr_Reason (ru_Counter rule) \<noteq> Some CrowdSec \<or> \<not> sc_Any (ma_Traffic (ru_Match rule)) \<or>
              ma_NegateSet (ru_Match rule) \<or> ru_Policy rule \<noteq> '''')
          then Inl CrowdSec_rule
          else if cr_Kind (ru_Counter rule) = Some Denied then
            (if \<not> validRole (ru_Counter rule) then Inl Denial_role
             else
               (let name = counterName (tg_Owner value) family direction (ru_Counter rule) in
                Inr (map_put name \<lparr>co_Name = name, co_Family = family, co_Direction = direction, co_Role = ru_Counter rule\<rparr> expected)))
          else Inr expected)"

definition processed_role :: CounterRole where
  "processed_role = \<lparr>cr_Kind = Some Processed, cr_Reason = None, cr_Action = None\<rparr>"

definition validate_path ::
  "Target \<Rightarrow> Family \<Rightarrow> string list \<Rightarrow> Path \<Rightarrow> Direction list \<times> counters \<Rightarrow> target_error + Direction list \<times> counters" where
  "validate_path value family setIDs path st =
     (let (directions, expected) = st; direction = pa_Direction path in
      if pa_Remote path \<noteq> (if direction = Egress then DestinationAddress else SourceAddress) then Inl (Path_remote direction)
      else if direction \<in> set directions then Inl (Duplicate_path direction)
      else if pa_Processed path \<noteq> processed_role then Inl (Processed_role direction)
      else
        (let name = counterName (tg_Owner value) family direction (pa_Processed path);
             expected = map_put name \<lparr>co_Name = name, co_Family = family, co_Direction = direction, co_Role = pa_Processed path\<rparr> expected in
         result_bind (fold_result (validate_rule value family direction setIDs) (pa_Rules path) expected) (\<lambda>expected.
           Inr (direction # directions, expected))))"

definition validate_family ::
  "(string \<Rightarrow> string) \<Rightarrow> Target \<Rightarrow> FamilyPlan \<Rightarrow> Family list \<times> natives \<times> counters \<Rightarrow> target_error + Family list \<times> natives \<times> counters" where
  "validate_family digest value family st =
     (let (seenFamilies, nativeSets, expected) = st in
      if fp_Family family \<in> set seenFamilies then Inl (Duplicate_family (fp_Family family))
      else
        result_bind (fold_result (validate_set digest value (fp_Family family)) (fp_Sets family)
            \<lparr>ss_setIDs = [], ss_hasDynamic = False, ss_nativeSets = nativeSets\<rparr>) (\<lambda>sets.
          if ss_hasDynamic sets \<noteq> (tg_DynamicGeneration value \<noteq> '''') then Inl Dynamic_disagrees
          else
            result_bind (fold_result (validate_path value (fp_Family family) (ss_setIDs sets)) (fp_Paths family) ([], expected))
              (\<lambda>(directions, expected).
                if length directions \<noteq> 2 then Inl (Missing_path (fp_Family family))
                else Inr (fp_Family family # seenFamilies, ss_nativeSets sets, expected))))"

fun counters_loop :: "Target \<Rightarrow> string list \<Rightarrow> CounterSpec list \<Rightarrow> target_error + string list" where
  "counters_loop value seen [] = Inr seen"
| "counters_loop value seen (counter # rest) =
     (if co_Name counter = '''' \<or> \<not> validRole (co_Role counter) then Inl (Counter_invalid (co_Name counter))
      else if co_Name counter \<noteq> counterName (tg_Owner value) (co_Family counter) (co_Direction counter) (co_Role counter) then
        Inl (Counter_name (co_Name counter))
      else if co_Name counter \<in> set seen then Inl (Duplicate_counter (co_Name counter))
      else counters_loop value (co_Name counter # seen) rest)"

definition ValidateTarget :: "(string \<Rightarrow> string) \<Rightarrow> Target option \<Rightarrow> target_error option" where
  "ValidateTarget digest target =
     (case target of
        None \<Rightarrow> None
      | Some value \<Rightarrow>
          if \<not> validTargetID (tg_Owner value) then Some Owner_malformed
          else if \<not> validTargetID (tg_Generation value) then Some Generation_malformed
          else if tg_Table value = '''' \<or> maxNFTNameBytes < length (tg_Table value) \<or> CHR 0x00 \<in> set (tg_Table value) then Some Table_invalid
          else if sint (tg_Priority value) \<le> -200 then Some (Priority_too_low (sint (tg_Priority value)))
          else if tg_IPTables value \<noteq> None \<and> (tg_Table value \<noteq> ''filter'' \<or> tg_Priority value \<noteq> 0) then Some IPTables_placement
          else
            (case validateIPTablesTarget digest value of
               Some e \<Rightarrow> Some (IPTables_rejected e)
             | None \<Rightarrow>
                 if length (tg_Families value) = 0 then Some No_family
                 else if tg_DynamicGeneration value \<noteq> '''' \<and> \<not> validTargetID (tg_DynamicGeneration value) then Some Dynamic_generation_malformed
                 else
                   (case fold_result (validate_family digest value) (tg_Families value) ([], [], []) of
                      Inl e \<Rightarrow> Some e
                    | Inr (_, _, expected) \<Rightarrow>
                        if length (tg_Counters value) = 0 then Some No_counters
                        else
                          (case counters_loop value [] (tg_Counters value) of
                             Inl e \<Rightarrow> Some e
                           | Inr seen \<Rightarrow> if list_all (\<lambda>(name, _). name \<in> set seen) expected then None else Some Counter_missing))))"

definition validateDynamicState :: "Target option \<Rightarrow> TimedPrefix list option \<Rightarrow> bool" where
  "validateDynamicState candidate value =
     (case value of
        None \<Rightarrow> True
      | Some values \<Rightarrow>
          (case candidate of None \<Rightarrow> False | Some t \<Rightarrow> tg_DynamicGeneration t \<noteq> '''' \<and> ValidateDynamic values = None))"

section \<open>Building a target\<close>

datatype build_error = Runtime_error runtime_error | Owner_id | Generation_id | Target_rejected target_error

definition put_counter :: "string \<Rightarrow> Family \<Rightarrow> Direction \<Rightarrow> CounterRole \<Rightarrow> counters \<Rightarrow> counters" where
  "put_counter owner family direction role roles =
     (let name = counterName owner family direction role in
      map_put name \<lparr>co_Name = name, co_Family = family, co_Direction = direction, co_Role = role\<rparr> roles)"

definition path_counters :: "string \<Rightarrow> Family \<Rightarrow> Path \<Rightarrow> counters \<Rightarrow> counters" where
  "path_counters owner family path roles =
     fold (\<lambda>rule roles. if cr_Kind (ru_Counter rule) \<noteq> Some Denied then roles
         else put_counter owner family (pa_Direction path) (ru_Counter rule) roles) (pa_Rules path)
       (put_counter owner family (pa_Direction path) (pa_Processed path) roles)"

definition desiredCounters :: "Target \<Rightarrow> Target option \<Rightarrow> CounterSpec list" where
  "desiredCounters target previous =
     (let roles = fold (\<lambda>family. fold (path_counters (tg_Owner target) (fp_Family family)) (fp_Paths family)) (tg_Families target) [];
          roles =
            (case previous of
               Some p \<Rightarrow>
                 if target_Backend previous = target_Backend (Some target) \<and> tg_Table p = tg_Table target then
                   fold (\<lambda>counter roles.
                       if validRole (co_Role counter) \<and>
                          co_Name counter = counterName (tg_Owner target) (co_Family counter) (co_Direction counter) (co_Role counter)
                       then map_put (co_Name counter) counter roles else roles) (tg_Counters p) roles
                 else roles
             | None \<Rightarrow> roles) in
      sort_slice (\<lambda>a b. co_Name a < co_Name b) (map snd roles))"

text \<open>
  Cloned attachments and plans have the same value; \<open>reflect.DeepEqual\<close> on them is equality, where
  a nil slice and an empty one are the same list.
\<close>

definition BuildTarget ::
  "(string \<Rightarrow> string) \<Rightarrow> string \<Rightarrow> string \<Rightarrow> Config \<Rightarrow> State \<Rightarrow> Target option \<Rightarrow> build_error + Target option" where
  "BuildTarget digest owner i cfg model previous =
     (case ValidateConfig cfg of
        Some e \<Rightarrow> Inl (Runtime_error e)
      | None \<Rightarrow>
          if \<not> validTargetID owner then Inl Owner_id
          else if \<not> validTargetID i then Inl Generation_id
          else if state_Empty model then Inr None
          else
            (let families = state_Families model;
                 backend = fw_Backend (cg_Firewall cfg);
                 dynamicGeneration =
                   (if cs_Enabled (cg_CrowdSec cfg) then
                      (let table = (if backend = ''iptables'' then ''filter'' else nf_Table (fw_Nftables (cg_Firewall cfg))) in
                       case previous of
                         Some p \<Rightarrow>
                           if tg_Owner p = owner \<and> target_Backend previous = backend \<and> tg_Table p = table \<and> tg_DynamicGeneration p \<noteq> ''''
                           then tg_DynamicGeneration p else i
                       | None \<Rightarrow> i)
                    else '''');
                 candidate = \<lparr>tg_Owner = owner, tg_Table = nf_Table (fw_Nftables (cg_Firewall cfg)),
                   tg_Priority = nf_Priority (fw_Nftables (cg_Firewall cfg)), tg_Generation = i, tg_Families = families, tg_Counters = [],
                   tg_IPTables = None, tg_DynamicGeneration = dynamicGeneration\<rparr>;
                 candidate =
                   (if backend = ''iptables'' then
                      candidate\<lparr>tg_Table := ''filter'', tg_Priority := 0,
                        tg_IPTables := Some \<lparr>ip_Attachments = it_Attachments (fw_IPTables (cg_Firewall cfg))\<rparr>\<rparr>
                    else candidate);
                 candidate =
                   (case previous of
                      Some p \<Rightarrow>
                        if tg_Owner p = tg_Owner candidate \<and> target_Backend previous = target_Backend (Some candidate) \<and>
                           tg_Table p = tg_Table candidate \<and> tg_DynamicGeneration p = tg_DynamicGeneration candidate \<and>
                           tg_Families p = tg_Families candidate \<and> tg_IPTables p = tg_IPTables candidate
                        then candidate\<lparr>tg_Generation := tg_Generation p\<rparr> else candidate
                    | None \<Rightarrow> candidate);
                 candidate = candidate\<lparr>tg_Counters := desiredCounters candidate previous\<rparr> in
             case ValidateTarget digest (Some candidate) of
               Some e \<Rightarrow> Inl (Target_rejected e)
             | None \<Rightarrow> Inr (Some candidate)))"

end
