(* ===== verification/Nft_Rules.thy ===== *)
theory Nft_Rules
  imports Packet_Filter Firewall_Validate
begin

text \<open>
  The rules that \<open>internal/firewall/nftables_model.go\<close> generates from a target, as the JSON
  values of the libnftables schema, and what they do with a packet.

  A JSON object is the list of its members in the order the code writes them. The packet
  semantics reads the JSON that is generated: it covers the expressions the code emits.
\<close>

section \<open>JSON values\<close>

datatype json = JNull | JText string | JNumber int | JArray "json list" | JObject "(string \<times> json) list"

definition json_field :: "json \<Rightarrow> string \<Rightarrow> json option" where
  "json_field value name = (case value of JObject members \<Rightarrow> map_of members name | _ \<Rightarrow> None)"

definition json_text :: "json \<Rightarrow> string \<Rightarrow> string" where
  "json_text value name = (case json_field value name of Some (JText text) \<Rightarrow> text | _ \<Rightarrow> '''')"

definition json_match :: "string \<Rightarrow> json \<Rightarrow> json \<Rightarrow> json" where
  "json_match op left right = JObject [(''match'', JObject [(''op'', JText op), (''left'', left), (''right'', right)])]"

definition json_payload :: "string \<Rightarrow> string \<Rightarrow> json" where
  "json_payload protocol field = JObject [(''payload'', JObject [(''protocol'', JText protocol), (''field'', JText field)])]"

definition json_key :: "string \<Rightarrow> string \<Rightarrow> json" where
  "json_key kind key = JObject [(kind, JObject [(''key'', JText key)])]"

definition json_jump :: "string \<Rightarrow> json" where
  "json_jump chain = JObject [(''jump'', JObject [(''target'', JText chain)])]"

definition json_rule :: "Target \<Rightarrow> string \<Rightarrow> string \<Rightarrow> json list \<Rightarrow> json" where
  "json_rule target chain comment exprs =
     JObject [(''family'', JText ''inet''), (''table'', JText (tg_Table target)), (''chain'', JText chain), (''comment'', JText comment),
       (''expr'', JArray exprs)]"

section \<open>Generated rules\<close>

definition objectRef :: "string \<Rightarrow> string \<Rightarrow> json" where
  "objectRef table name = JObject [(''family'', JText ''inet''), (''table'', JText table), (''name'', JText name)]"

definition witnessChainName :: "Target \<Rightarrow> string" where
  "witnessChainName target = artifactName (tg_Owner target) stableToken ''ownership''"

definition witnessRule :: "Target \<Rightarrow> json" where
  "witnessRule target =
     json_rule target (witnessChainName target) (ownershipComment (tg_Owner target) stableToken ''table_witness_v1'' True)
       [JObject [(''return'', JNull)]]"

definition baseChain :: "Target \<Rightarrow> Direction \<Rightarrow> json" where
  "baseChain target direction =
     JObject [(''family'', JText ''inet''), (''table'', JText (tg_Table target)), (''name'', JText (baseChainName target direction)),
       (''type'', JText ''filter''), (''hook'', JText (if direction = Egress then ''output'' else ''input'')),
       (''prio'', JNumber (sint (tg_Priority target))), (''policy'', JText ''accept'')]"

definition baseRules :: "Target \<Rightarrow> Direction \<Rightarrow> json list" where
  "baseRules target direction =
     map (\<lambda>family.
       json_rule target (baseChainName target direction)
         (ownershipComment (tg_Owner target) stableToken
           (''dispatch/'' @ familyToken (fp_Family family) @ ''/'' @ direction_string direction) True)
         [json_match ''=='' (json_key ''meta'' ''nfproto'') (JText (if fp_Family family = IPv6 then ''ipv6'' else ''ipv4'')),
          json_jump (entryChainName target (fp_Family family) direction)]) (tg_Families target)"

definition entryRules :: "Target \<Rightarrow> Family \<Rightarrow> Direction \<Rightarrow> json list" where
  "entryRules target family direction =
     (let chain = entryChainName target family direction; role = entryRole family direction;
          counter = counterName (tg_Owner target) family direction processed_role in
      [json_rule target chain (ownershipComment (tg_Owner target) stableToken (role @ ''/processed'') True)
         [JObject [(''counter'', JText counter)]],
       json_rule target chain (ownershipComment (tg_Owner target) stableToken (role @ ''/established'') True)
         [json_match ''=='' (json_key ''ct'' ''state'') (JObject [(''set'', JArray [JText ''established'', JText ''related''])]),
          JObject [(''return'', JNull)]],
       json_rule target chain (ownershipComment (tg_Owner target) stableToken (role @ ''/not-new'') True)
         [json_match ''!='' (json_key ''ct'' ''state'') (JText ''new''), JObject [(''return'', JNull)]],
       json_rule target chain (ownershipComment (tg_Owner target) (tg_Generation target) (role @ ''/dispatch'') False)
         [json_jump (generationChainName target family direction)]])"

definition matchPort :: "string \<Rightarrow> PortRange \<Rightarrow> json" where
  "matchPort proto value =
     json_match ''=='' (json_payload proto ''dport'')
       (if pr_Start value \<noteq> pr_End value
        then JObject [(''range'', JArray [JNumber (uint (pr_Start value)), JNumber (uint (pr_End value))])]
        else JNumber (uint (pr_Start value)))"

definition trafficVariants :: "Scope \<Rightarrow> Family \<Rightarrow> json list list" where
  "trafficVariants scope family =
     (if sc_Any scope then [[]]
      else
        map (\<lambda>port. [matchPort ''tcp'' port]) (sc_TCP scope) @
        map (\<lambda>port. [matchPort ''udp'' port]) (sc_UDP scope) @
        (if sc_ICMP scope
         then [[json_match ''=='' (json_key ''meta'' ''l4proto'') (JText (if family = IPv6 then ''icmpv6'' else ''icmp''))]] else []))"

definition rejectVariants :: "json list list" where
  "rejectVariants =
     [[json_match ''=='' (json_key ''meta'' ''l4proto'') (JText ''tcp'')],
      [json_match ''!='' (json_key ''meta'' ''l4proto'') (JText ''tcp'')]]"

text \<open>Whether a match expression selects TCP, by its port or by its protocol.\<close>

definition selects_tcp :: "json \<Rightarrow> bool" where
  "selects_tcp value =
     (case json_field value ''match'' of
        None \<Rightarrow> False
      | Some match \<Rightarrow>
          (case json_field match ''left'' of
             None \<Rightarrow> False
           | Some left \<Rightarrow>
               (case json_field left ''payload'' of
                  Some payload \<Rightarrow> json_field payload ''protocol'' = Some (JText ''tcp'')
                | None \<Rightarrow> False) \<or>
               (case json_field left ''meta'' of
                  Some meta \<Rightarrow>
                    json_field match ''op'' = Some (JText ''=='') \<and> json_field meta ''key'' = Some (JText ''l4proto'') \<and>
                    json_field match ''right'' = Some (JText ''tcp'')
                | None \<Rightarrow> False)))"

definition verdictExpression :: "Action \<Rightarrow> Family \<Rightarrow> json list \<Rightarrow> json" where
  "verdictExpression action family variants =
     (case action of
        Return \<Rightarrow> JObject [(''return'', JNull)]
      | Drop \<Rightarrow> JObject [(''drop'', JNull)]
      | Reject \<Rightarrow>
          if list_ex selects_tcp variants then JObject [(''reject'', JObject [(''type'', JText ''tcp reset'')])]
          else JObject [(''reject'', JObject [(''type'', JText (if family = IPv6 then ''icmpv6'' else ''icmp'')),
            (''expr'', JText ''admin-prohibited'')])])"

definition rule_variants :: "Family \<Rightarrow> Rule \<Rightarrow> json list list" where
  "rule_variants family logical =
     (if ru_Action logical = Reject \<and> sc_Any (ma_Traffic (ru_Match logical)) then rejectVariants
      else trafficVariants (ma_Traffic (ru_Match logical)) family)"

definition set_expression :: "(string \<times> string) list \<Rightarrow> Family \<Rightarrow> Direction \<Rightarrow> Rule \<Rightarrow> json list" where
  "set_expression setIDs family direction logical =
     (if ma_SetID (ru_Match logical) \<noteq> '''' then
        [json_match (if ma_NegateSet (ru_Match logical) then ''!='' else ''=='')
          (json_payload (if family = IPv6 then ''ip6'' else ''ip'') (if direction = Egress then ''daddr'' else ''saddr''))
          (JText (''@'' @ (case map_of setIDs (ma_SetID (ru_Match logical)) of Some name \<Rightarrow> name | None \<Rightarrow> '''')))]
      else [])"

definition variant_exprs :: "Target \<Rightarrow> (string \<times> string) list \<Rightarrow> Family \<Rightarrow> Direction \<Rightarrow> Rule \<Rightarrow> json list \<Rightarrow> json list" where
  "variant_exprs target setIDs family direction logical expr =
     set_expression setIDs family direction logical @ expr @
     (if cr_Kind (ru_Counter logical) = Some Denied
      then [JObject [(''counter'', JText (counterName (tg_Owner target) family direction (ru_Counter logical)))]] else []) @
     [verdictExpression (ru_Action logical) family expr]"

text \<open>The native rules of one logical rule; \<open>index\<close> numbers the first of them.\<close>

definition lowered_rule :: "Target \<Rightarrow> (string \<times> string) list \<Rightarrow> Family \<Rightarrow> Direction \<Rightarrow> nat \<Rightarrow> Rule \<Rightarrow> json list" where
  "lowered_rule target setIDs family direction index logical =
     map (\<lambda>(i, expr).
       json_rule target (generationChainName target family direction)
         (ownershipComment (tg_Owner target) (tg_Generation target) (chainRole family direction @ ''/rule/'' @ Itoa i) False)
         (variant_exprs target setIDs family direction logical expr))
       (enumerate index (rule_variants family logical))"

definition set_names :: "(string \<Rightarrow> string) \<Rightarrow> Target \<Rightarrow> FamilyPlan \<Rightarrow> (string \<times> string) list" where
  "set_names digest target family =
     fold (\<lambda>item. map_put (ps_ID item) (setName digest target (fp_Family family) (ps_ID item))) (fp_Sets family) []"

definition path_rules :: "FamilyPlan \<Rightarrow> Direction \<Rightarrow> Rule list" where
  "path_rules family direction =
     (case find (\<lambda>candidate. pa_Direction candidate = direction) (fp_Paths family) of Some path \<Rightarrow> pa_Rules path | None \<Rightarrow> [])"

definition familyPathRules :: "(string \<Rightarrow> string) \<Rightarrow> Target \<Rightarrow> FamilyPlan \<Rightarrow> Direction \<Rightarrow> json list" where
  "familyPathRules digest target family direction =
     lower_all (lowered_rule target (set_names digest target family) (fp_Family family) direction) 0
       (filter (\<lambda>logical. ma_Flow (ru_Match logical) = AnyFlow) (path_rules family direction))"

section \<open>What the rules do\<close>

record nft_packet =
  np_Family :: Family
  np_Flow :: Flow
  np_Sets :: "string \<Rightarrow> addr \<Rightarrow> bool"

text \<open>The protocol of a flow, with ICMP as that of the address family.\<close>

definition l4proto :: "Family \<Rightarrow> Flow \<Rightarrow> string" where
  "l4proto family flow =
     (if fl_Protocol flow = ''tcp'' \<or> fl_Protocol flow = ''udp'' then fl_Protocol flow
      else if fl_Protocol flow = ''icmp'' then (if family = IPv6 then ''icmpv6'' else ''icmp'')
      else ''other'')"

text \<open>The value an expression reads from a packet; \<open>Absent\<close> where the packet has no such field.\<close>

datatype nft_value = Absent | Text_value string | Address_value addr | Port_value "16 word" | State_value bool bool

definition nft_payload :: "nft_packet \<Rightarrow> string \<Rightarrow> string \<Rightarrow> nft_value" where
  "nft_payload packet protocol field =
     (if protocol = (if np_Family packet = IPv6 then ''ip6'' else ''ip'') then
        (if field = ''saddr'' then Address_value (fl_Source (np_Flow packet))
         else if field = ''daddr'' then Address_value (fl_Destination (np_Flow packet))
         else Absent)
      else if (protocol = ''tcp'' \<or> protocol = ''udp'') \<and> field = ''dport'' \<and> l4proto (np_Family packet) (np_Flow packet) = protocol
      then Port_value (fl_Port (np_Flow packet))
      else Absent)"

definition nft_left :: "nft_packet \<Rightarrow> json \<Rightarrow> nft_value" where
  "nft_left packet left =
     (case json_field left ''payload'' of
        Some payload \<Rightarrow> nft_payload packet (json_text payload ''protocol'') (json_text payload ''field'')
      | None \<Rightarrow>
          (case json_field left ''meta'' of
             Some meta \<Rightarrow>
               if json_text meta ''key'' = ''nfproto'' then Text_value (if np_Family packet = IPv6 then ''ipv6'' else ''ipv4'')
               else if json_text meta ''key'' = ''l4proto'' then Text_value (l4proto (np_Family packet) (np_Flow packet))
               else Absent
           | None \<Rightarrow>
               (case json_field left ''ct'' of
                  Some ct \<Rightarrow>
                    if json_text ct ''key'' = ''state'' then State_value (fl_Established (np_Flow packet)) (fl_New (np_Flow packet)) else Absent
                | None \<Rightarrow> Absent)))"

definition nft_equal :: "nft_packet \<Rightarrow> nft_value \<Rightarrow> json \<Rightarrow> bool" where
  "nft_equal packet value right =
     (case value of
        Absent \<Rightarrow> False
      | Text_value text \<Rightarrow> right = JText text
      | Address_value a \<Rightarrow> (case right of JText name \<Rightarrow> take 1 name = ''@'' \<and> np_Sets packet (drop 1 name) a | _ \<Rightarrow> False)
      | Port_value port \<Rightarrow>
          (case right of
             JNumber n \<Rightarrow> uint port = n
           | _ \<Rightarrow>
               (case json_field right ''range'' of
                  Some (JArray [JNumber low, JNumber high]) \<Rightarrow> low \<le> uint port \<and> uint port \<le> high
                | _ \<Rightarrow> False))
      | State_value established new \<Rightarrow>
          (case right of
             JText name \<Rightarrow> name = ''new'' \<and> new
           | _ \<Rightarrow>
               (case json_field right ''set'' of
                  Some (JArray states) \<Rightarrow>
                    established \<and> JText ''established'' \<in> set states \<and> JText ''related'' \<in> set states \<or> new \<and> JText ''new'' \<in> set states
                | _ \<Rightarrow> False)))"

definition nft_expression :: "nft_packet \<Rightarrow> json \<Rightarrow> bool" where
  "nft_expression packet expr =
     (case json_field expr ''match'' of
        None \<Rightarrow> True
      | Some match \<Rightarrow>
          (case (json_field match ''left'', json_field match ''right'') of
             (Some left, Some right) \<Rightarrow>
               (let value = nft_left packet left in
                if value = Absent then False
                else if json_text match ''op'' = ''=='' then nft_equal packet value right
                else json_text match ''op'' = ''!='' \<and> \<not> nft_equal packet value right)
           | _ \<Rightarrow> False))"

definition rule_expressions :: "json \<Rightarrow> json list" where
  "rule_expressions rule = (case json_field rule ''expr'' of Some (JArray exprs) \<Rightarrow> exprs | _ \<Rightarrow> [])"

definition nft_holds :: "nft_packet \<Rightarrow> json \<Rightarrow> bool" where
  "nft_holds packet rule = list_all (nft_expression packet) (rule_expressions rule)"

definition nft_verdict :: "json \<Rightarrow> rule_target option" where
  "nft_verdict expr =
     (if json_field expr ''return'' \<noteq> None then Some ReturnTarget
      else if json_field expr ''drop'' \<noteq> None then Some (Terminal Dropped)
      else
        (case json_field expr ''reject'' of
           Some reject \<Rightarrow> Some (Terminal (Rejected
             (json_text reject ''type'' @ (if json_field reject ''expr'' = None then '''' else '' '' @ json_text reject ''expr''))))
         | None \<Rightarrow> (case json_field expr ''jump'' of Some jump \<Rightarrow> Some (Jump (json_text jump ''target'')) | None \<Rightarrow> None)))"

definition nft_rule_target :: "json \<Rightarrow> rule_target" where
  "nft_rule_target rule =
     (case List.map_filter nft_verdict (rule_expressions rule) of [] \<Rightarrow> NoTarget | t # _ \<Rightarrow> t)"

definition rule_counters :: "json \<Rightarrow> string list" where
  "rule_counters rule =
     List.map_filter (\<lambda>expr. case json_field expr ''counter'' of Some (JText name) \<Rightarrow> Some name | _ \<Rightarrow> None) (rule_expressions rule)"

definition reject_kind :: "Family \<Rightarrow> Flow \<Rightarrow> string" where
  "reject_kind family flow =
     (if fl_Protocol flow = ''tcp'' then ''tcp reset''
      else (if family = IPv6 then ''icmpv6'' else ''icmp'') @ '' admin-prohibited'')"

section \<open>Matching\<close>

lemmas json_defs = json_field_def json_text_def json_match_def json_payload_def json_key_def json_jump_def

lemma match_set [simp]:
  "nft_expression packet (json_match op (json_payload (if np_Family packet = IPv6 then ''ip6'' else ''ip'')
       (if direction = Egress then ''daddr'' else ''saddr'')) (JText (''@'' @ name))) \<longleftrightarrow>
     (if op = ''=='' then np_Sets packet name (if direction = Egress then fl_Destination (np_Flow packet) else fl_Source (np_Flow packet))
      else op = ''!='' \<and> \<not> np_Sets packet name (if direction = Egress then fl_Destination (np_Flow packet) else fl_Source (np_Flow packet)))"
  by (auto simp: nft_expression_def json_defs nft_left_def nft_equal_def nft_payload_def)

lemma match_key [simp]:
  "nft_expression packet (json_match op (json_key ''meta'' ''l4proto'') (JText v)) \<longleftrightarrow>
     (if op = ''=='' then l4proto (np_Family packet) (np_Flow packet) = v
      else op = ''!='' \<and> l4proto (np_Family packet) (np_Flow packet) \<noteq> v)"
  "nft_expression packet (json_match ''=='' (json_key ''meta'' ''nfproto'') (JText v)) \<longleftrightarrow>
     v = (if np_Family packet = IPv6 then ''ipv6'' else ''ipv4'')"
  "nft_expression packet (json_match ''=='' (json_key ''ct'' ''state'') (JObject [(''set'', JArray [JText ''established'', JText ''related''])])) \<longleftrightarrow>
     fl_Established (np_Flow packet)"
  "nft_expression packet (json_match ''!='' (json_key ''ct'' ''state'') (JText ''new'')) \<longleftrightarrow> \<not> fl_New (np_Flow packet)"
  by (auto simp: nft_expression_def json_defs nft_left_def nft_equal_def)

lemma match_port [simp]:
  assumes "proto = ''tcp'' \<or> proto = ''udp''"
  shows "nft_expression packet (matchPort proto value) \<longleftrightarrow>
     l4proto (np_Family packet) (np_Flow packet) = proto \<and> pr_Start value \<le> fl_Port (np_Flow packet) \<and> fl_Port (np_Flow packet) \<le> pr_End value"
  using assms
  by (auto simp: matchPort_def nft_expression_def json_defs nft_left_def nft_equal_def nft_payload_def word_le_def word_uint_eq_iff)

lemma not_match [simp]:
  "json_field expr ''match'' = None \<Longrightarrow> nft_expression packet expr"
  by (simp add: nft_expression_def)

lemma match_no_verdict [simp]:
  "nft_verdict (json_match op left right) = None" "nft_verdict (matchPort proto value) = None"
  "nft_verdict (JObject [(''counter'', v)]) = None"
  by (simp_all add: nft_verdict_def json_defs matchPort_def)

lemma match_no_counter [simp]:
  "json_field (json_match op left right) ''counter'' = None" "json_field (matchPort proto value) ''counter'' = None"
  by (simp_all add: json_defs matchPort_def)

lemma l4proto_simps [simp]:
  "l4proto family flow = ''tcp'' \<longleftrightarrow> fl_Protocol flow = ''tcp''" "l4proto family flow = ''udp'' \<longleftrightarrow> fl_Protocol flow = ''udp''"
  "l4proto IPv4 flow = ''icmp'' \<longleftrightarrow> fl_Protocol flow = ''icmp''" "l4proto IPv6 flow = ''icmpv6'' \<longleftrightarrow> fl_Protocol flow = ''icmp''"
  by (auto simp: l4proto_def)

lemma expressions_rule [simp]:
  "rule_expressions (json_rule target chain comment exprs) = exprs" "json_text (json_rule target chain comment exprs) ''chain'' = chain"
  by (simp_all add: rule_expressions_def json_rule_def json_defs)

section \<open>Variants\<close>

lemma traffic_variants:
  "(\<exists>expr\<in>set (trafficVariants scope (np_Family packet)). list_all (nft_expression packet) expr) \<longleftrightarrow>
     scopeMatches scope (fl_Protocol (np_Flow packet)) (fl_Port (np_Flow packet))"
proof (cases "sc_Any scope")
  case False
  have "(\<exists>expr\<in>set (trafficVariants scope (np_Family packet)). list_all (nft_expression packet) expr) \<longleftrightarrow>
      fl_Protocol (np_Flow packet) = ''tcp'' \<and> portInRanges (sc_TCP scope) (fl_Port (np_Flow packet)) \<or>
      fl_Protocol (np_Flow packet) = ''udp'' \<and> portInRanges (sc_UDP scope) (fl_Port (np_Flow packet)) \<or>
      fl_Protocol (np_Flow packet) = ''icmp'' \<and> sc_ICMP scope"
    using False by (cases "np_Family packet") (auto simp: trafficVariants_def portInRanges_def bex_Un)
  then show ?thesis using False by (auto simp: scopeMatches_def)
qed (simp add: trafficVariants_def scopeMatches_def)

lemma reject_variants: "\<exists>expr\<in>set rejectVariants. list_all (nft_expression packet) expr"
  by (auto simp: rejectVariants_def)

lemma rule_variants_match:
  "(\<exists>expr\<in>set (rule_variants (np_Family packet) logical). list_all (nft_expression packet) expr) \<longleftrightarrow>
     scopeMatches (ma_Traffic (ru_Match logical)) (fl_Protocol (np_Flow packet)) (fl_Port (np_Flow packet))"
proof (cases "ru_Action logical = Reject \<and> sc_Any (ma_Traffic (ru_Match logical))")
  case True
  then show ?thesis using reject_variants by (simp add: rule_variants_def scopeMatches_def)
next
  case False
  then show ?thesis unfolding rule_variants_def by (simp only: if_False traffic_variants)
qed

lemma selects_tcp_simps [simp]:
  "selects_tcp (matchPort proto value) \<longleftrightarrow> proto = ''tcp''"
  "selects_tcp (json_match op (json_key ''meta'' ''l4proto'') (JText v)) \<longleftrightarrow> op = ''=='' \<and> v = ''tcp''"
  by (auto simp: selects_tcp_def matchPort_def json_defs)

text \<open>A variant that matches selects TCP exactly for a TCP packet.\<close>

lemma variant_selects_tcp:
  assumes "expr \<in> set (rule_variants (np_Family packet) logical)" "list_all (nft_expression packet) expr" "ru_Action logical = Reject"
  shows "list_ex selects_tcp expr \<longleftrightarrow> fl_Protocol (np_Flow packet) = ''tcp''"
  using assms
  by (cases "np_Family packet")
    (auto simp: rule_variants_def rejectVariants_def trafficVariants_def l4proto_def split: if_splits)

lemma variant_silent:
  assumes "expr \<in> set (rule_variants family logical)"
  shows "List.map_filter nft_verdict expr = []"
    and "List.map_filter (\<lambda>expr. case json_field expr ''counter'' of Some (JText name) \<Rightarrow> Some name | _ \<Rightarrow> None) expr = []"
  using assms by (auto simp: rule_variants_def rejectVariants_def trafficVariants_def map_filter_def split: if_splits)

section \<open>Lowered rules\<close>

text \<open>
  A packet of the family, with sets that hold the prefixes of the plan, and a logical rule that
  refers to a set of the plan.
\<close>

definition packet_ok :: "(string \<Rightarrow> string) \<Rightarrow> Target \<Rightarrow> FamilyPlan \<Rightarrow> prefix list \<Rightarrow> nft_packet \<Rightarrow> bool" where
  "packet_ok digest target plan dynamic packet =
     (np_Family packet = fp_Family plan \<and>
      (\<forall>s\<in>set (fp_Sets plan). \<forall>a. np_Sets packet (setName digest target (fp_Family plan) (ps_ID s)) a \<longleftrightarrow>
         covers (if ps_Kind s = DynamicCrowdSecSet then dynamic else ps_Prefixes s) a))"

definition rule_usable :: "FamilyPlan \<Rightarrow> Rule \<Rightarrow> bool" where
  "rule_usable plan rule =
     (ma_Flow (ru_Match rule) = AnyFlow \<and> (ma_SetID (ru_Match rule) = '''' \<or> ma_SetID (ru_Match rule) \<in> ps_ID ` set (fp_Sets plan)))"

lemma map_of_fold_put:
  "map_of (fold (\<lambda>x. map_put (f x) (g (f x))) xs m) k = (if k \<in> f ` set xs then Some (g k) else map_of m k)"
  by (induction xs arbitrary: m) (auto simp: map_of_put)

lemma set_names_lookup:
  "k \<in> ps_ID ` set (fp_Sets plan) \<Longrightarrow> map_of (set_names digest target plan) k = Some (setName digest target (fp_Family plan) k)"
  unfolding set_names_def by (subst map_of_fold_put [where g = "setName digest target (fp_Family plan)"]) simp

lemma set_expression_holds:
  assumes "packet_ok digest target plan dynamic packet" "distinct (map ps_ID (fp_Sets plan))" "rule_usable plan rule"
  shows "list_all (nft_expression packet) (set_expression (set_names digest target plan) (fp_Family plan) direction rule) \<longleftrightarrow>
    (ma_SetID (ru_Match rule) = '''' \<or>
     (let in_set = set_member (fp_Sets plan) dynamic (ma_SetID (ru_Match rule))
            (if direction = Egress then fl_Destination (np_Flow packet) else fl_Source (np_Flow packet)) in
      if ma_NegateSet (ru_Match rule) then \<not> in_set else in_set))"
proof (cases "ma_SetID (ru_Match rule) = ''''")
  case False
  then obtain s where s: "s \<in> set (fp_Sets plan)" "ps_ID s = ma_SetID (ru_Match rule)" using assms(3) by (auto simp: rule_usable_def)
  have "find (\<lambda>t. ps_ID t = ma_SetID (ru_Match rule)) (fp_Sets plan) = Some s" using find_key [OF assms(2) s(1)] s(2) by simp
  then have f: "find (\<lambda>t. ps_ID t = ma_SetID (ru_Match rule)) (fp_Sets plan) = Some s" .
  have m: "set_member (fp_Sets plan) dynamic (ma_SetID (ru_Match rule)) a \<longleftrightarrow>
      np_Sets packet (setName digest target (fp_Family plan) (ma_SetID (ru_Match rule))) a" for a
  proof -
    have "np_Sets packet (setName digest target (fp_Family plan) (ps_ID s)) a \<longleftrightarrow>
        covers (if ps_Kind s = DynamicCrowdSecSet then dynamic else ps_Prefixes s) a"
      using assms(1) s(1) unfolding packet_ok_def by blast
    then show ?thesis using f s(2) by (simp add: set_member_def covers_def)
  qed
  have fam: "fp_Family plan = np_Family packet" using assms(1) by (simp add: packet_ok_def)
  have n: "map_of (set_names digest target plan) (ma_SetID (ru_Match rule)) = Some (setName digest target (fp_Family plan) (ma_SetID (ru_Match rule)))"
    using s by (intro set_names_lookup) (metis imageI)
  show ?thesis unfolding set_expression_def n option.case Let_def m using False
    by (simp only: fam if_True list.pred_inject match_set if_False simp_thms not_False_eq_True) simp
qed (simp add: set_expression_def)

lemma in_lowered:
  "r \<in> set (lowered_rule target setIDs family direction index logical) \<longleftrightarrow>
     (\<exists>i expr. (i, expr) \<in> set (enumerate index (rule_variants family logical)) \<and>
        r = json_rule target (generationChainName target family direction)
          (ownershipComment (tg_Owner target) (tg_Generation target) (chainRole family direction @ ''/rule/'' @ Itoa i) False)
          (variant_exprs target setIDs family direction logical expr))"
  by (auto simp: lowered_rule_def)

lemma lowered_variant:
  "(\<exists>i. (i, expr) \<in> set (enumerate index xs)) \<longleftrightarrow> expr \<in> set xs"
  by (induction xs arbitrary: index) (simp_all, metis)

lemma verdict_expression_simps [simp]:
  "nft_verdict (verdictExpression Return family variants) = Some ReturnTarget"
  "nft_verdict (verdictExpression Drop family variants) = Some (Terminal Dropped)"
  "nft_verdict (verdictExpression Reject family variants) = Some (Terminal (Rejected
     (if list_ex selects_tcp variants then ''tcp reset'' else (if family = IPv6 then ''icmpv6'' else ''icmp'') @ '' admin-prohibited'')))"
  "json_field (verdictExpression action family variants) ''match'' = None"
  "json_field (verdictExpression action family variants) ''counter'' = None"
  by (auto simp: nft_verdict_def verdictExpression_def json_defs split: Action.splits)

lemma variant_exprs_holds:
  "list_all (nft_expression packet) (variant_exprs target setIDs family direction logical expr) \<longleftrightarrow>
     list_all (nft_expression packet) (set_expression setIDs family direction logical) \<and> list_all (nft_expression packet) expr"
  by (auto simp: variant_exprs_def json_field_def [of "JObject [(''counter'', _)]"])

lemma map_filter_append: "List.map_filter f (xs @ ys) = List.map_filter f xs @ List.map_filter f ys"
  by (simp add: map_filter_def)

lemma set_expression_silent [simp]:
  "List.map_filter nft_verdict (set_expression setIDs family direction logical) = []"
  "List.map_filter (\<lambda>expr. case json_field expr ''counter'' of Some (JText name) \<Rightarrow> Some name | _ \<Rightarrow> None)
     (set_expression setIDs family direction logical) = []"
  by (simp_all add: set_expression_def map_filter_def)

lemma lowered_target:
  assumes "expr \<in> set (rule_variants family logical)"
  shows "nft_rule_target (json_rule target chain comment (variant_exprs target setIDs family direction logical expr)) =
      the (nft_verdict (verdictExpression (ru_Action logical) family expr))"
    and "rule_counters (json_rule target chain comment (variant_exprs target setIDs family direction logical expr)) =
      (if cr_Kind (ru_Counter logical) = Some Denied then [counterName (tg_Owner target) family direction (ru_Counter logical)] else [])"
  using variant_silent [OF assms]
  by (cases "ru_Action logical"; simp add: nft_rule_target_def rule_counters_def variant_exprs_def map_filter_append
      map_filter_simps json_field_def [of "JObject [(''counter'', _)]"])+

definition path_ok :: "FamilyPlan \<Rightarrow> Path \<Rightarrow> bool" where
  "path_ok plan path =
     (distinct (map ps_ID (fp_Sets plan)) \<and>
      pa_Remote path = (if pa_Direction path = Egress then DestinationAddress else SourceAddress))"

text \<open>The lowering of a rule does what the locale asks for, for a packet and a path that fit the plan.\<close>

definition rule_lowerable ::
  "(string \<Rightarrow> string) \<Rightarrow> Target \<Rightarrow> FamilyPlan \<Rightarrow> Path \<Rightarrow> prefix list \<Rightarrow> nft_packet \<Rightarrow> Rule \<Rightarrow> bool" where
  "rule_lowerable digest target plan path dynamic packet rule =
     (packet_ok digest target plan dynamic packet \<and> path_ok plan path \<and> rule_usable plan rule)"

interpretation nft: rule_lowering "lowered_rule target (set_names digest target plan) (fp_Family plan) (pa_Direction path)" "nft_holds packet"
    nft_rule_target "\<lambda>rule. ruleMatches plan path rule (np_Flow packet) dynamic" "rule_lowerable digest target plan path dynamic packet"
    "reject_kind (fp_Family plan) (np_Flow packet)"
  for digest target plan path packet dynamic
proof
  fix rule r index assume "rule_lowerable digest target plan path dynamic packet rule"
  then have assms: "packet_ok digest target plan dynamic packet" "path_ok plan path" and u: "rule_usable plan rule"
    by (simp_all add: rule_lowerable_def)
  let ?lower = "lowered_rule target (set_names digest target plan) (fp_Family plan) (pa_Direction path) index rule"
  have f: "np_Family packet = fp_Family plan" using assms(1) by (simp add: packet_ok_def)
  have d: "distinct (map ps_ID (fp_Sets plan))" using assms(2) by (simp add: path_ok_def)
  have rem: "remoteAddress path (np_Flow packet) =
      (if pa_Direction path = Egress then fl_Destination (np_Flow packet) else fl_Source (np_Flow packet))"
    using assms(2) by (simp add: remoteAddress_def path_ok_def)
  have "(\<exists>r\<in>set ?lower. nft_holds packet r) \<longleftrightarrow>
      (\<exists>i expr. (i, expr) \<in> set (enumerate index (rule_variants (fp_Family plan) rule)) \<and>
        list_all (nft_expression packet) (set_expression (set_names digest target plan) (fp_Family plan) (pa_Direction path) rule) \<and>
        list_all (nft_expression packet) expr)"
    unfolding Bex_def in_lowered nft_holds_def by (metis expressions_rule(1) variant_exprs_holds)
  also have "\<dots> \<longleftrightarrow>
      list_all (nft_expression packet) (set_expression (set_names digest target plan) (fp_Family plan) (pa_Direction path) rule) \<and>
      (\<exists>expr\<in>set (rule_variants (fp_Family plan) rule). list_all (nft_expression packet) expr)"
    unfolding Bex_def lowered_variant [symmetric, of _ "rule_variants (fp_Family plan) rule" index] by blast
  also have "\<dots> \<longleftrightarrow> ruleMatches plan path rule (np_Flow packet) dynamic"
    using u unfolding set_expression_holds [OF assms(1) d u] rule_variants_match [of packet, unfolded f] ruleMatches_def rem
    by (auto simp: Let_def rule_usable_def)
  finally show "(\<exists>r\<in>set ?lower. nft_holds packet r) \<longleftrightarrow> ruleMatches plan path rule (np_Flow packet) dynamic" .
  assume r: "r \<in> set ?lower" "nft_holds packet r"
  from r(1) obtain i expr where ie: "(i, expr) \<in> set (enumerate index (rule_variants (fp_Family plan) rule))" and
      re: "r = json_rule target (generationChainName target (fp_Family plan) (pa_Direction path))
         (ownershipComment (tg_Owner target) (tg_Generation target) (chainRole (fp_Family plan) (pa_Direction path) @ ''/rule/'' @ Itoa i) False)
         (variant_exprs target (set_names digest target plan) (fp_Family plan) (pa_Direction path) rule expr)"
    unfolding in_lowered by blast
  have e: "expr \<in> set (rule_variants (fp_Family plan) rule)" using ie lowered_variant by metis
  have h: "list_all (nft_expression packet) expr" using r(2) by (simp add: re nft_holds_def variant_exprs_holds)
  show "nft_rule_target r = action_target (reject_kind (fp_Family plan) (np_Flow packet)) (ru_Action rule)"
    unfolding re lowered_target(1) [OF e] using variant_selects_tcp [of expr packet rule] e h f
    by (cases "ru_Action rule") (auto simp: action_target_def reject_kind_def)
qed

section \<open>Chains\<close>

text \<open>The rules in the order they are added, and the chain of a name.\<close>

definition target_rules :: "(string \<Rightarrow> string) \<Rightarrow> Target \<Rightarrow> json list" where
  "target_rules digest target =
     concat (map (\<lambda>family. concat (map (familyPathRules digest target family) [Ingress, Egress])) (tg_Families target)) @
     concat (map (\<lambda>family. concat (map (entryRules target (fp_Family family)) [Ingress, Egress])) (tg_Families target)) @
     concat (map (baseRules target) [Ingress, Egress])"

definition chain_rules :: "json list \<Rightarrow> string \<Rightarrow> json list" where
  "chain_rules rules name = filter (\<lambda>rule. json_text rule ''chain'' = name) rules"

lemma rule_chains:
  "r \<in> set (familyPathRules digest target family direction) \<Longrightarrow> json_text r ''chain'' = generationChainName target (fp_Family family) direction"
  "r \<in> set (entryRules target f direction) \<Longrightarrow> json_text r ''chain'' = entryChainName target f direction"
  "r \<in> set (baseRules target direction) \<Longrightarrow> json_text r ''chain'' = baseChainName target direction"
proof -
  have "r \<in> set (lower_all (lowered_rule target ids f direction) i rules) \<Longrightarrow> json_text r ''chain'' = generationChainName target f direction"
    for ids f i rules
    by (induction rules arbitrary: i) (auto simp: in_lowered)
  then show "r \<in> set (familyPathRules digest target family direction) \<Longrightarrow>
      json_text r ''chain'' = generationChainName target (fp_Family family) direction"
    by (simp add: familyPathRules_def)
qed (auto simp: entryRules_def Let_def baseRules_def)

lemma name_cases [simp]:
  "generationChainName target f d = generationChainName target f' d' \<longleftrightarrow> f = f' \<and> d = d'"
  "entryChainName target f d = entryChainName target f' d' \<longleftrightarrow> f = f' \<and> d = d'"
  "baseChainName target d = baseChainName target d' \<longleftrightarrow> d = d'"
  "entryChainName target f d \<noteq> baseChainName target d'" "baseChainName target d' \<noteq> entryChainName target f d"
  by (cases f; cases f'; cases d; cases d';
      simp add: generationChainName_def entryChainName_def baseChainName_def artifactName_def sanitizeRole_def familyToken_def)+

lemma generation_name_stable:
  assumes "validTargetID (tg_Generation target)"
  shows "generationChainName target f d \<noteq> artifactName (tg_Owner target) stableToken role"
proof -
  obtain g gs where g: "tg_Generation target = g # gs" using assms by (cases "tg_Generation target") (auto simp: validTargetID_def)
  have "\<not> (is_digit (CHR ''s'') \<or> CHR ''a'' \<le> CHR ''s'' \<and> CHR ''s'' \<le> CHR ''f'')" by code_simp
  then have "g \<noteq> CHR ''s''" using assms by (auto simp: validTargetID_def g)
  then show ?thesis by (simp add: generationChainName_def artifactName_def g)
qed

lemma concat_single:
  assumes "distinct (map fp_Family plans)" "plan \<in> set plans" "\<And>p. p \<in> set plans \<Longrightarrow> fp_Family p \<noteq> fp_Family plan \<Longrightarrow> f p = []"
  shows "concat (map f plans) = f plan"
proof -
  obtain xs ys where s: "plans = xs @ plan # ys" using assms(2) by (auto dest: split_list)
  have "f p = []" if "p \<in> set xs \<union> set ys" for p
    using assms(1,3) that by (auto simp: s image_iff)
  then have "concat (map f xs) = []" "concat (map f ys) = []" by simp_all
  then show ?thesis unfolding s by (simp only: map_append concat_append list.map concat.simps append_Nil append_Nil2)
qed

lemma chain_of:
  assumes ok: "distinct (map fp_Family (tg_Families target))" "validTargetID (tg_Generation target)" "plan \<in> set (tg_Families target)"
  shows "chain_rules (target_rules digest target) (generationChainName target (fp_Family plan) d) = familyPathRules digest target plan d"
    and "chain_rules (target_rules digest target) (entryChainName target (fp_Family plan) d) = entryRules target (fp_Family plan) d"
    and "chain_rules (target_rules digest target) (baseChainName target d) = baseRules target d"
proof -
  have ne: "generationChainName target f d \<noteq> entryChainName target f' d'" "generationChainName target f d \<noteq> baseChainName target d'"
      "entryChainName target f' d' \<noteq> generationChainName target f d" "baseChainName target d' \<noteq> generationChainName target f d" for f d f' d'
    using generation_name_stable [OF ok(2)] unfolding entryChainName_def baseChainName_def by metis+
  have none: "filter (\<lambda>rule. json_text rule ''chain'' = name) xs = []" if "\<And>r. r \<in> set xs \<Longrightarrow> json_text r ''chain'' \<noteq> name" for xs name
    using that by (auto simp: filter_empty_conv)
  have all: "filter (\<lambda>rule. json_text rule ''chain'' = name) xs = xs" if "\<And>r. r \<in> set xs \<Longrightarrow> json_text r ''chain'' = name" for xs name
    using that by (auto simp: filter_id_conv)
  have path: "filter (\<lambda>rule. json_text rule ''chain'' = name) (familyPathRules digest target p d') =
      (if name = generationChainName target (fp_Family p) d' then familyPathRules digest target p d' else [])" for name p d'
    using all none rule_chains(1) by (metis (no_types, lifting))
  have entry: "filter (\<lambda>rule. json_text rule ''chain'' = name) (entryRules target f d') =
      (if name = entryChainName target f d' then entryRules target f d' else [])" for name f d'
    using all none rule_chains(2) by (metis (no_types, lifting))
  have base: "filter (\<lambda>rule. json_text rule ''chain'' = name) (baseRules target d') =
      (if name = baseChainName target d' then baseRules target d' else [])" for name d'
    using all none rule_chains(3) by (metis (no_types, lifting))
  note simps = chain_rules_def target_rules_def filter_concat o_def path entry base ne
  show "chain_rules (target_rules digest target) (generationChainName target (fp_Family plan) d) = familyPathRules digest target plan d"
    by (simp add: simps) (subst concat_single [OF ok(1,3)]; cases d; simp)
  show "chain_rules (target_rules digest target) (entryChainName target (fp_Family plan) d) = entryRules target (fp_Family plan) d"
    by (simp add: simps) (subst concat_single [OF ok(1,3)]; cases d; simp)
  show "chain_rules (target_rules digest target) (baseChainName target d) = baseRules target d"
    by (cases d) (simp_all add: simps)
qed

section \<open>The verdict of a packet\<close>

text \<open>
  A path as the compiler builds it: the two flow guards come first, the other rules refer to
  sets of the plan, and exactly the denials are counted.
\<close>

definition flow_guard :: "FlowMatch \<Rightarrow> Rule \<Rightarrow> bool" where
  "flow_guard flow rule =
     (ru_Match rule = \<lparr>ma_Flow = flow, ma_SetID = '''', ma_NegateSet = False, ma_Traffic = any_scope\<rparr> \<and> ru_Action rule = Return)"

definition guards_first :: "FamilyPlan \<Rightarrow> Path \<Rightarrow> bool" where
  "guards_first plan path =
     (\<exists>e n rest. pa_Rules path = e # n # rest \<and> flow_guard EstablishedRelated e \<and> flow_guard NotNew n \<and>
        (\<forall>rule\<in>set rest. rule_usable plan rule \<and> (cr_Kind (ru_Counter rule) = Some Denied \<longleftrightarrow> ru_Action rule \<noteq> Return)))"

definition counted :: "Target \<Rightarrow> Family \<Rightarrow> Direction \<Rightarrow> Evaluation \<Rightarrow> string list" where
  "counted target family direction ev =
     counterName (tg_Owner target) family direction processed_role #
     (case ev_Denied ev of None \<Rightarrow> [] | Some role \<Rightarrow> [counterName (tg_Owner target) family direction role])"

lemma guard_matches:
  "flow_guard EstablishedRelated rule \<Longrightarrow> ruleMatches plan path rule flow dynamic \<longleftrightarrow> fl_Established flow"
  "flow_guard NotNew rule \<Longrightarrow> ruleMatches plan path rule flow dynamic \<longleftrightarrow> \<not> fl_New flow"
  by (auto simp: flow_guard_def ruleMatches_def scopeMatches_def any_scope_def)

lemma generation_walk:
  assumes "packet_ok digest target plan dynamic packet" "path_ok plan path" "pa_Direction path = d" "guards_first plan path"
    and "find (\<lambda>p. pa_Direction p = d) (fp_Paths plan) = Some path" "\<not> fl_Established (np_Flow packet)" "fl_New (np_Flow packet)"
  shows "\<exists>hits. walk (nft_holds packet) nft_rule_target chain depth (familyPathRules digest target plan d) =
      Some (action_verdict (reject_kind (fp_Family plan) (np_Flow packet)) (ev_Action (evaluate plan d (np_Flow packet) dynamic)), hits) \<and>
    concat (map rule_counters hits) = tl (counted target (fp_Family plan) d (evaluate plan d (np_Flow packet) dynamic))"
proof -
  obtain e n rest where r: "pa_Rules path = e # n # rest" "flow_guard EstablishedRelated e" "flow_guard NotNew n"
      "\<forall>rule\<in>set rest. rule_usable plan rule \<and> (cr_Kind (ru_Counter rule) = Some Denied \<longleftrightarrow> ru_Action rule \<noteq> Return)"
    using assms(4) by (auto simp: guards_first_def)
  let ?m = "\<lambda>rule. ruleMatches plan path rule (np_Flow packet) dynamic"
  have "filter (\<lambda>logical. ma_Flow (ru_Match logical) = AnyFlow) (path_rules plan d) = rest"
    using r by (auto simp: path_rules_def assms(5) flow_guard_def rule_usable_def filter_id_conv)
  then have rules: "familyPathRules digest target plan d = lower_all (lowered_rule target (set_names digest target plan) (fp_Family plan) d) 0 rest"
    by (simp add: familyPathRules_def)
  have "\<not> ?m e" "\<not> ?m n" using guard_matches r(2,3) assms(6,7) by auto
  then have ev: "evaluate plan d (np_Flow packet) dynamic =
      (case find ?m rest of
         None \<Rightarrow> \<lparr>ev_Action = Return, ev_Trace = '''', ev_Processed = pa_Processed path, ev_Denied = None\<rparr>
       | Some rule \<Rightarrow> \<lparr>ev_Action = ru_Action rule, ev_Trace = ru_Policy rule, ev_Processed = pa_Processed path,
           ev_Denied = (if ru_Action rule \<noteq> Return then Some (ru_Counter rule) else None)\<rparr>)"
    by (simp add: evaluate_def assms(5) evaluate_path_def r(1))
  have "\<forall>rule\<in>set rest. rule_lowerable digest target plan path dynamic packet rule"
    using r(4) assms(1,2) by (simp add: rule_lowerable_def)
  note w = nft.walk_path [OF this, of chain depth 0, unfolded assms(3)]
  show ?thesis
  proof (cases "find ?m rest")
    case None
    then show ?thesis using w r(4) by (simp add: rules ev action_verdict_def counted_def)
  next
    case (Some rule)
    then obtain i h where h: "h \<in> set (lowered_rule target (set_names digest target plan) (fp_Family plan) d i rule)"
        "walk (nft_holds packet) nft_rule_target chain depth (familyPathRules digest target plan d) =
          Some (action_verdict (reject_kind (fp_Family plan) (np_Flow packet)) (ru_Action rule), [h])"
      using w r(4) by (auto simp: rules)
    obtain j expr where je: "(j, expr) \<in> set (enumerate i (rule_variants (fp_Family plan) rule))" and
        he: "h = json_rule target (generationChainName target (fp_Family plan) d)
          (ownershipComment (tg_Owner target) (tg_Generation target) (chainRole (fp_Family plan) d @ ''/rule/'' @ Itoa j) False)
          (variant_exprs target (set_names digest target plan) (fp_Family plan) d rule expr)"
      using h(1) unfolding in_lowered by blast
    have "expr \<in> set (rule_variants (fp_Family plan) rule)" using je lowered_variant by metis
    then have "rule_counters h = (if cr_Kind (ru_Counter rule) = Some Denied
        then [counterName (tg_Owner target) (fp_Family plan) d (ru_Counter rule)] else [])"
      unfolding he by (rule lowered_target(2))
    moreover have "cr_Kind (ru_Counter rule) = Some Denied \<longleftrightarrow> ru_Action rule \<noteq> Return" using r(4) find_SomeD [OF Some] by blast
    ultimately show ?thesis using h(2) Some by (simp add: ev counted_def)
  qed
qed

lemma entry_rule_simps:
  "nft_rule_target (json_rule t c m [JObject [(''counter'', v)]]) = NoTarget"
  "nft_rule_target (json_rule t c m [json_match op l r, JObject [(''return'', JNull)]]) = ReturnTarget"
  "nft_rule_target (json_rule t c m [json_jump name]) = Jump name"
  "nft_rule_target (json_rule t c m [json_match op l r, json_jump name]) = Jump name"
  "rule_counters (json_rule t c m [JObject [(''counter'', JText name)]]) = [name]"
  "rule_counters (json_rule t c m [json_match op l r, JObject [(''return'', JNull)]]) = []"
  "rule_counters (json_rule t c m [json_match op l r, json_jump name]) = []"
  "rule_counters (json_rule t c m [json_jump name]) = []"
  "nft_holds packet (json_rule t c m [JObject [(''counter'', v)]])"
  "nft_holds packet (json_rule t c m [json_jump name])"
  "nft_holds packet (json_rule t c m [json_match op l r, JObject [(''return'', JNull)]]) = nft_expression packet (json_match op l r)"
  "nft_holds packet (json_rule t c m [json_match op l r, json_jump name]) = nft_expression packet (json_match op l r)"
  by (simp_all add: nft_rule_target_def rule_counters_def nft_holds_def map_filter_simps nft_verdict_def json_field_def json_text_def
      json_jump_def json_match_def nft_expression_def)

lemma entry_walk:
  assumes "packet_ok digest target plan dynamic packet" "path_ok plan path" "pa_Direction path = d" "guards_first plan path"
    and "find (\<lambda>p. pa_Direction p = d) (fp_Paths plan) = Some path"
    and "chain (generationChainName target (fp_Family plan) d) = familyPathRules digest target plan d"
  shows "\<exists>hits. walk (nft_holds packet) nft_rule_target chain (Suc depth) (entryRules target (fp_Family plan) d) =
      Some (action_verdict (reject_kind (fp_Family plan) (np_Flow packet)) (ev_Action (evaluate plan d (np_Flow packet) dynamic)), hits) \<and>
    concat (map rule_counters hits) = counted target (fp_Family plan) d (evaluate plan d (np_Flow packet) dynamic)"
proof -
  obtain e n rest where r: "pa_Rules path = e # n # rest" "flow_guard EstablishedRelated e" "flow_guard NotNew n"
    using assms(4) by (auto simp: guards_first_def)
  note g = guard_matches(1) [OF r(2), of plan path "np_Flow packet" dynamic] guard_matches(2) [OF r(3), of plan path "np_Flow packet" dynamic]
  have ret: "ru_Action e = Return" "ru_Action n = Return" using r(2,3) by (simp_all add: flow_guard_def)
  consider "fl_Established (np_Flow packet)" | "\<not> fl_Established (np_Flow packet)" "\<not> fl_New (np_Flow packet)"
    | "\<not> fl_Established (np_Flow packet)" "fl_New (np_Flow packet)" by blast
  then show ?thesis
  proof cases
    case 1
    then show ?thesis using g ret
      by (simp add: entryRules_def Let_def entry_rule_simps evaluate_def assms(5) evaluate_path_def r(1) action_verdict_def counted_def)
  next
    case 2
    then show ?thesis using g ret
      by (simp add: entryRules_def Let_def entry_rule_simps evaluate_def assms(5) evaluate_path_def r(1) action_verdict_def counted_def)
  next
    case 3
    obtain hits where h: "walk (nft_holds packet) nft_rule_target chain depth (familyPathRules digest target plan d) =
        Some (action_verdict (reject_kind (fp_Family plan) (np_Flow packet)) (ev_Action (evaluate plan d (np_Flow packet) dynamic)), hits)"
      "concat (map rule_counters hits) = tl (counted target (fp_Family plan) d (evaluate plan d (np_Flow packet) dynamic))"
      using generation_walk [OF assms(1-5) 3] by blast
    have "hd (counted target (fp_Family plan) d (evaluate plan d (np_Flow packet) dynamic)) =
        counterName (tg_Owner target) (fp_Family plan) d processed_role"
      "counted target (fp_Family plan) d (evaluate plan d (np_Flow packet) dynamic) \<noteq> []" by (simp_all add: counted_def)
    then have c: "counterName (tg_Owner target) (fp_Family plan) d processed_role # concat (map rule_counters hits) =
        counted target (fp_Family plan) d (evaluate plan d (np_Flow packet) dynamic)"
      using h(2) by (metis list.collapse)
    then show ?thesis using 3 h(1) assms(6)
      by (cases "action_verdict (reject_kind (fp_Family plan) (np_Flow packet)) (ev_Action (evaluate plan d (np_Flow packet) dynamic))")
        (simp_all add: entryRules_def Let_def entry_rule_simps)
  qed
qed

lemma base_rule_holds:
  "nft_holds packet (json_rule target c m [json_match ''=='' (json_key ''meta'' ''nfproto'') (JText (if f = IPv6 then ''ipv6'' else ''ipv4'')),
     json_jump name]) \<longleftrightarrow> f = np_Family packet"
  by (cases f; cases "np_Family packet") (simp_all add: entry_rule_simps)

lemma base_filter:
  assumes "distinct (map fp_Family (tg_Families target))" "plan \<in> set (tg_Families target)" "np_Family packet = fp_Family plan"
  shows "\<exists>comment. filter (nft_holds packet) (baseRules target d) =
    [json_rule target (baseChainName target d) comment
      [json_match ''=='' (json_key ''meta'' ''nfproto'') (JText (if fp_Family plan = IPv6 then ''ipv6'' else ''ipv4'')),
       json_jump (entryChainName target (fp_Family plan) d)]]"
proof -
  have "filter P ps = concat (map (\<lambda>p. if P p then [p] else []) ps)" for P and ps :: "FamilyPlan list"
    by (induction ps) auto
  then have "filter (\<lambda>p. fp_Family p = fp_Family plan) (tg_Families target) = [plan]"
    using concat_single [OF assms(1,2), of "\<lambda>p. if fp_Family p = fp_Family plan then [p] else []"] by simp
  then show ?thesis by (auto simp: baseRules_def filter_map o_def base_rule_holds assms(3))
qed

text \<open>The walk of a packet through all chains of a target, from the base chain of its direction.\<close>

definition nft_walk :: "(string \<Rightarrow> string) \<Rightarrow> Target \<Rightarrow> Direction \<Rightarrow> nft_packet \<Rightarrow> nat \<Rightarrow> (terminal option \<times> json list) option" where
  "nft_walk digest target direction packet depth =
     walk (nft_holds packet) nft_rule_target (chain_rules (target_rules digest target)) depth
       (chain_rules (target_rules digest target) (baseChainName target direction))"

lemma nft_walk_managed:
  assumes "distinct (map fp_Family (tg_Families target))" "validTargetID (tg_Generation target)" "plan \<in> set (tg_Families target)"
    and "packet_ok digest target plan dynamic packet" "path_ok plan path" "guards_first plan path"
    and "find (\<lambda>p. pa_Direction p = d) (fp_Paths plan) = Some path"
  shows "\<exists>hits. nft_walk digest target d packet (Suc (Suc depth)) =
      Some (action_verdict (reject_kind (fp_Family plan) (np_Flow packet)) (ev_Action (evaluate plan d (np_Flow packet) dynamic)), hits) \<and>
    concat (map rule_counters hits) = counted target (fp_Family plan) d (evaluate plan d (np_Flow packet) dynamic)"
proof -
  note c = chain_of [OF assms(1-3), of digest d]
  have d: "pa_Direction path = d" using find_SomeD [OF assms(7)] by simp
  have f: "np_Family packet = fp_Family plan" using assms(4) by (simp add: packet_ok_def)
  obtain hits where h: "walk (nft_holds packet) nft_rule_target (chain_rules (target_rules digest target)) (Suc depth)
        (entryRules target (fp_Family plan) d) =
      Some (action_verdict (reject_kind (fp_Family plan) (np_Flow packet)) (ev_Action (evaluate plan d (np_Flow packet) dynamic)), hits)"
    "concat (map rule_counters hits) = counted target (fp_Family plan) d (evaluate plan d (np_Flow packet) dynamic)"
    using entry_walk [where chain = "chain_rules (target_rules digest target)", OF assms(4,5) d assms(6,7) c(1)] by blast
  obtain comment where b: "filter (nft_holds packet) (baseRules target d) =
    [json_rule target (baseChainName target d) comment
      [json_match ''=='' (json_key ''meta'' ''nfproto'') (JText (if fp_Family plan = IPv6 then ''ipv6'' else ''ipv4'')),
       json_jump (entryChainName target (fp_Family plan) d)]]"
    using base_filter [OF assms(1,3) f] by blast
  show ?thesis unfolding nft_walk_def c(3) by (subst walk_filter, unfold b)
      (use h f in \<open>cases "action_verdict (reject_kind (fp_Family plan) (np_Flow packet)) (ev_Action (evaluate plan d (np_Flow packet) dynamic))";
        simp add: entry_rule_simps c(2)\<close>)
qed

lemma nft_walk_unmanaged:
  assumes "distinct (map fp_Family (tg_Families target))" "validTargetID (tg_Generation target)" "tg_Families target \<noteq> []"
    and "np_Family packet \<notin> fp_Family ` set (tg_Families target)"
  shows "nft_walk digest target d packet depth = Some (None, [])"
proof -
  obtain plan where p: "plan \<in> set (tg_Families target)" using assms(3) by (cases "tg_Families target") auto
  have "filter (nft_holds packet) (baseRules target d) = []"
    using assms(4) by (auto simp: filter_empty_conv baseRules_def base_rule_holds) (metis image_eqI)
  then show ?thesis unfolding nft_walk_def chain_of(3) [OF assms(1,2) p] by (subst walk_filter) simp
qed

end
