(* ===== verification/Nft_Compiled.thy ===== *)
theory Nft_Compiled
  imports Nft_Rules Policy_Compile
begin

text \<open>
  The nftables rules of compiled targets: what \<open>ValidateTarget\<close> accepts and \<open>BuildTarget\<close> returns
  has the distinct families and set names that the walk of a packet relies on, the paths of
  \<open>internal/policy/compile.go\<close> have the shape that the lowering to native rules relies on, and so
  the native rules enforce the configuration.
\<close>

lemma keys_put: "fst ` set (map_put k v m) = insert k (fst ` set m)"
  by (force simp: map_put_def)

section \<open>Accepted targets\<close>

text \<open>The native set names of a list of plans, in the order the checks see them.\<close>

definition plan_set_names :: "(string \<Rightarrow> string) \<Rightarrow> Target \<Rightarrow> FamilyPlan \<Rightarrow> string list" where
  "plan_set_names digest target plan = map (\<lambda>s. setName digest target (fp_Family plan) (ps_ID s)) (fp_Sets plan)"

lemma validate_set_names:
  assumes "fold_result (validate_set digest value f) items st = Inr st'" "tg_IPTables value = None"
  shows "distinct (map (\<lambda>s. setName digest value f (ps_ID s)) items) \<and>
    set (map (\<lambda>s. setName digest value f (ps_ID s)) items) \<inter> fst ` set (ss_nativeSets st) = {} \<and>
    fst ` set (ss_nativeSets st') = fst ` set (ss_nativeSets st) \<union> set (map (\<lambda>s. setName digest value f (ps_ID s)) items)"
  using assms(1)
proof (induction items arbitrary: st)
  case (Cons item rest)
  let ?name = "setName digest value f (ps_ID item)"
  obtain st1 where s: "validate_set digest value f item st = Inr st1" "fold_result (validate_set digest value f) rest st1 = Inr st'"
    using Cons.prems by auto
  have new: "map_of (ss_nativeSets st) ?name = None \<and> ss_nativeSets st1 = map_put ?name (ps_ID item) (ss_nativeSets st)"
    using s(1) assms(2) by (auto simp: validate_set_def Let_def split: option.split_asm if_split_asm SetKind.split_asm)
  show ?case using Cons.IH [OF s(2)] new by (auto simp: keys_put map_of_eq_None_iff)
qed simp

lemma validate_family_accepts:
  assumes "validate_family digest value plan (seen, natives, expected) = Inr st"
  obtains sets expected' where "fp_Family plan \<notin> set seen" "st = (fp_Family plan # seen, ss_nativeSets sets, expected')"
    "fold_result (validate_set digest value (fp_Family plan)) (fp_Sets plan)
       \<lparr>ss_setIDs = [], ss_hasDynamic = False, ss_nativeSets = natives\<rparr> = Inr sets"
  using assms by (auto simp: validate_family_def Let_def split: prod.split_asm if_split_asm)

lemma validate_families:
  assumes "fold_result (validate_family digest value) plans (seen, natives, expected) = Inr (seen', natives', expected')"
  shows "distinct (map fp_Family plans) \<and> set (map fp_Family plans) \<inter> set seen = {}"
    and "tg_IPTables value = None \<Longrightarrow> distinct (concat (map (plan_set_names digest value) plans)) \<and>
      set (concat (map (plan_set_names digest value) plans)) \<inter> fst ` set natives = {}"
  using assms
proof (induction plans arbitrary: seen natives expected)
  case (Cons plan rest)
  have step: "\<exists>sets expected1. fp_Family plan \<notin> set seen \<and>
      fold_result (validate_set digest value (fp_Family plan)) (fp_Sets plan)
        \<lparr>ss_setIDs = [], ss_hasDynamic = False, ss_nativeSets = natives\<rparr> = Inr sets \<and>
      fold_result (validate_family digest value) rest (fp_Family plan # seen, ss_nativeSets sets, expected1) = Inr (seen', natives', expected')"
    if "fold_result (validate_family digest value) (plan # rest) (seen, natives, expected) = Inr (seen', natives', expected')"
    for seen natives expected
    using that by (auto elim!: validate_family_accepts)
  {
    case 1
    with step [OF this] show ?case using Cons.IH(1) by fastforce
  next
    case 2
    with step obtain sets expected1 where s: "fold_result (validate_set digest value (fp_Family plan)) (fp_Sets plan)
          \<lparr>ss_setIDs = [], ss_hasDynamic = False, ss_nativeSets = natives\<rparr> = Inr sets"
        "fold_result (validate_family digest value) rest (fp_Family plan # seen, ss_nativeSets sets, expected1) = Inr (seen', natives', expected')"
      by blast
    show ?case using validate_set_names [OF s(1) 2(1)] Cons.IH(2) [OF 2(1) s(2)] by (auto simp: plan_set_names_def)
  }
qed simp_all

lemma ValidateTarget_accepted:
  assumes "ValidateTarget digest (Some target) = None"
  shows "distinct (map fp_Family (tg_Families target))" "validTargetID (tg_Generation target)" "tg_Families target \<noteq> []"
    and "tg_IPTables target = None \<Longrightarrow> distinct (concat (map (plan_set_names digest target) (tg_Families target)))"
proof -
  obtain r where r: "fold_result (validate_family digest target) (tg_Families target) ([], [], []) = Inr r"
      "validTargetID (tg_Generation target)" "tg_Families target \<noteq> []"
    using assms by (auto simp: ValidateTarget_def split: if_split_asm option.split_asm sum.split_asm)
  obtain a b c where "r = (a, b, c)" by (cases r)
  note v = validate_families [OF r(1) [unfolded this]]
  show "distinct (map fp_Family (tg_Families target))" "validTargetID (tg_Generation target)" "tg_Families target \<noteq> []"
    using v(1) r by simp_all
  show "tg_IPTables target = None \<Longrightarrow> distinct (concat (map (plan_set_names digest target) (tg_Families target)))"
    using v(2) by blast
qed

lemma BuildTarget_built:
  assumes "BuildTarget digest owner i cfg model previous = Inr (Some target)"
  shows "tg_Families target = state_Families model" "ValidateTarget digest (Some target) = None"
    "tg_IPTables target = None \<longleftrightarrow> fw_Backend (cg_Firewall cfg) \<noteq> ''iptables''"
proof -
  define backend where "backend = fw_Backend (cg_Firewall cfg)"
  define dynamicGeneration where "dynamicGeneration =
    (if cs_Enabled (cg_CrowdSec cfg) then
       (let table = (if backend = ''iptables'' then ''filter'' else nf_Table (fw_Nftables (cg_Firewall cfg))) in
        case previous of
          Some p \<Rightarrow>
            if tg_Owner p = owner \<and> target_Backend previous = backend \<and> tg_Table p = table \<and> tg_DynamicGeneration p \<noteq> ''''
            then tg_DynamicGeneration p else i
        | None \<Rightarrow> i)
     else '''')"
  define c0 where "c0 = \<lparr>tg_Owner = owner, tg_Table = nf_Table (fw_Nftables (cg_Firewall cfg)),
    tg_Priority = nf_Priority (fw_Nftables (cg_Firewall cfg)), tg_Generation = i, tg_Families = state_Families model, tg_Counters = [],
    tg_IPTables = None, tg_DynamicGeneration = dynamicGeneration\<rparr>"
  define c1 where "c1 =
    (if backend = ''iptables'' then
       c0\<lparr>tg_Table := ''filter'', tg_Priority := 0, tg_IPTables := Some \<lparr>ip_Attachments = it_Attachments (fw_IPTables (cg_Firewall cfg))\<rparr>\<rparr>
     else c0)"
  define c2 where "c2 =
    (case previous of
       Some p \<Rightarrow>
         if tg_Owner p = tg_Owner c1 \<and> target_Backend previous = target_Backend (Some c1) \<and> tg_Table p = tg_Table c1 \<and>
            tg_DynamicGeneration p = tg_DynamicGeneration c1 \<and> tg_Families p = tg_Families c1 \<and> tg_IPTables p = tg_IPTables c1
         then c1\<lparr>tg_Generation := tg_Generation p\<rparr> else c1
     | None \<Rightarrow> c1)"
  define c where "c = c2\<lparr>tg_Counters := desiredCounters c2 previous\<rparr>"
  have c2: "tg_Families c2 = tg_Families c1" "tg_IPTables c2 = tg_IPTables c1" by (auto simp: c2_def split: option.split)
  have fields: "tg_Families c = state_Families model" "tg_IPTables c = None \<longleftrightarrow> backend \<noteq> ''iptables''"
    unfolding c_def by (simp_all add: c2) (simp_all add: c1_def c0_def)
  have "BuildTarget digest owner i cfg model previous =
    (case ValidateConfig cfg of
       Some e \<Rightarrow> Inl (Runtime_error e)
     | None \<Rightarrow>
         if \<not> validTargetID owner then Inl Owner_id
         else if \<not> validTargetID i then Inl Generation_id
         else if state_Empty model then Inr None
         else case ValidateTarget digest (Some c) of Some e \<Rightarrow> Inl (Target_rejected e) | None \<Rightarrow> Inr (Some c))"
    unfolding BuildTarget_def Let_def c_def c2_def c1_def c0_def dynamicGeneration_def backend_def by (rule refl)
  then have "ValidateTarget digest (Some c) = None \<and> target = c"
    using assms by (simp split: option.split_asm if_split_asm)
  then show "tg_Families target = state_Families model" "ValidateTarget digest (Some target) = None"
    "tg_IPTables target = None \<longleftrightarrow> fw_Backend (cg_Firewall cfg) \<noteq> ''iptables''"
    using fields unfolding backend_def by simp_all
qed

section \<open>Compiled paths\<close>

text \<open>Denials of a compiled path are counted, passes are not.\<close>

definition counted_denial :: "Rule \<Rightarrow> bool" where
  "counted_denial rule = (cr_Kind (ru_Counter rule) = Some Denied \<longleftrightarrow> ru_Action rule \<noteq> Return)"

lemma counted_rules [simp]:
  "counted_denial (return_rule match name)" "deny \<noteq> Return \<Longrightarrow> counted_denial (deny_rule match deny reason name)"
  by (simp_all add: counted_denial_def return_rule_def deny_rule_def no_counter_def)

lemma policy_rules_counted:
  "deny \<noteq> Return \<Longrightarrow> r \<in> set (policy_rules f bindings deny c) \<Longrightarrow> counted_denial r \<and> ma_Flow (ru_Match r) = AnyFlow"
  by (auto simp: policy_rules_def Let_def return_rule_def deny_rule_def zero_match_def counted_denial_def no_counter_def
      split: option.split_asm if_split_asm)

lemma compilePath_guards:
  assumes "deny \<noteq> Return"
  shows "\<exists>e n rest. pa_Rules (compilePath d remote f allow block policies bindings crowdsec deny) = e # n # rest \<and>
    flow_guard EstablishedRelated e \<and> flow_guard NotNew n \<and> (\<forall>rule\<in>set rest. counted_denial rule \<and> ma_Flow (ru_Match rule) = AnyFlow)"
proof -
  have "flow_guard flow (return_rule (zero_match\<lparr>ma_Traffic := any_scope, ma_Flow := flow\<rparr>) '''')" for flow
    by (simp add: flow_guard_def return_rule_def zero_match_def)
  moreover have "ma_Flow (ru_Match (return_rule match name)) = ma_Flow match"
      "ma_Flow (ru_Match (deny_rule match deny reason name)) = ma_Flow match" "ma_Flow zero_match = AnyFlow" for match name reason
    by (simp_all add: return_rule_def deny_rule_def zero_match_def)
  ultimately show ?thesis using policy_rules_counted [OF assms] assms
    by (auto simp: compilePath_def Let_def)
qed

lemma compileFamily_path:
  "\<exists>fpol bindings al bl crowdsec'. find (\<lambda>p. pa_Direction p = d) (fp_Paths (compileFamily digest f allow block cs crowdsec deny)) =
     Some (compilePath d (if d = Egress then DestinationAddress else SourceAddress) f al bl fpol bindings crowdsec' deny)"
proof -
  have d: "pa_Direction (compilePath d' remote f al bl fpol bindings crowdsec' deny) = d'" for d' remote al bl fpol bindings crowdsec'
    by (simp add: compilePath_def Let_def)
  show ?thesis by (cases d) (simp_all add: compileFamily_def Let_def d split: prod.split, blast+)
qed

lemma compiled_path:
  assumes "Compile digest cfg snapshot = Inr st" "snapshot_ok snapshot" "plan \<in> set (state_Families st)"
  shows "\<exists>path. find (\<lambda>p. pa_Direction p = d) (fp_Paths plan) = Some path \<and> path_ok plan path \<and> guards_first plan path"
proof (rule Compile_Inr [OF assms(1)], goal_cases)
  case (1 deny allow block cs)
  let ?plan = "compileFamily digest (fp_Family plan) allow block cs (cs_Enabled (cg_CrowdSec cfg)) deny"
  have p: "plan = ?plan" using 1(6) assms(3) by (auto split: if_splits)
  note refs = compileFamily_references [OF compiled_names [OF 1(5) assms(2)], of digest "fp_Family plan" allow block
      "cs_Enabled (cg_CrowdSec cfg)" deny, folded p]
  define remote where "remote = (if d = Egress then DestinationAddress else SourceAddress)"
  obtain fpol bindings al bl crowdsec path' where path': "path' = compilePath d remote (fp_Family plan) al bl fpol bindings crowdsec deny"
      and found: "find (\<lambda>p. pa_Direction p = d) (fp_Paths plan) = Some path'"
    using compileFamily_path [of d digest "fp_Family plan" allow block cs "cs_Enabled (cg_CrowdSec cfg)" deny, folded p remote_def] by blast
  have fields: "pa_Direction path' = d" "pa_Remote path' = remote" by (simp_all add: path' compilePath_def Let_def)
  have "path_ok plan path'" using refs by (simp add: path_ok_def fields remote_def)
  moreover have "guards_first plan path'"
  proof -
    obtain e n rest where r: "pa_Rules path' = e # n # rest" "flow_guard EstablishedRelated e" "flow_guard NotNew n"
        "\<forall>rule\<in>set rest. counted_denial rule \<and> ma_Flow (ru_Match rule) = AnyFlow"
      using compilePath_guards [OF 1(2)] unfolding path' by blast
    have "path' \<in> set (fp_Paths plan)" using find_SomeD [OF found] by simp
    then have "\<forall>rule\<in>set rest. rule_usable plan rule" using refs r(1,4) by (auto simp: rule_usable_def)
    then show ?thesis unfolding guards_first_def using r by (auto simp: counted_denial_def)
  qed
  ultimately show ?case using found by blast
qed

section \<open>The sets of a target\<close>

text \<open>The content of the native sets: static prefixes, and the leases that are live for the dynamic set.\<close>

definition target_sets :: "(string \<Rightarrow> string) \<Rightarrow> Target \<Rightarrow> prefix list \<Rightarrow> string \<Rightarrow> addr \<Rightarrow> bool" where
  "target_sets digest target dynamic name a =
     (\<exists>plan\<in>set (tg_Families target). \<exists>s\<in>set (fp_Sets plan). setName digest target (fp_Family plan) (ps_ID s) = name \<and>
        covers (if ps_Kind s = DynamicCrowdSecSet then dynamic else ps_Prefixes s) a)"

lemma distinct_concat_same:
  "distinct (concat (map f xs)) \<Longrightarrow> x \<in> set xs \<Longrightarrow> y \<in> set xs \<Longrightarrow> z \<in> set (f x) \<Longrightarrow> z \<in> set (f y) \<Longrightarrow> x = y"
  by (induction xs) auto

lemma distinct_map_inj: "distinct (map f xs) \<Longrightarrow> x \<in> set xs \<Longrightarrow> y \<in> set xs \<Longrightarrow> f x = f y \<Longrightarrow> x = y"
  by (auto simp: distinct_map inj_on_def)

lemma target_sets_ok:
  assumes "distinct (concat (map (plan_set_names digest target) (tg_Families target)))"
    and "plan \<in> set (tg_Families target)" "np_Family packet = fp_Family plan" "np_Sets packet = target_sets digest target dynamic"
  shows "packet_ok digest target plan dynamic packet"
proof -
  have "target_sets digest target dynamic (setName digest target (fp_Family plan) (ps_ID s)) a \<longleftrightarrow>
      covers (if ps_Kind s = DynamicCrowdSecSet then dynamic else ps_Prefixes s) a" if s: "s \<in> set (fp_Sets plan)" for s a
  proof
    assume "target_sets digest target dynamic (setName digest target (fp_Family plan) (ps_ID s)) a"
    then obtain q t where t: "q \<in> set (tg_Families target)" "t \<in> set (fp_Sets q)"
        "setName digest target (fp_Family q) (ps_ID t) = setName digest target (fp_Family plan) (ps_ID s)"
        "covers (if ps_Kind t = DynamicCrowdSecSet then dynamic else ps_Prefixes t) a"
      unfolding target_sets_def by blast
    have z: "setName digest target (fp_Family plan) (ps_ID s) \<in> set (plan_set_names digest target plan)"
        "setName digest target (fp_Family plan) (ps_ID s) \<in> set (plan_set_names digest target q)"
      using s t(2,3) unfolding plan_set_names_def by force+
    have "q = plan" by (rule distinct_concat_same [OF assms(1) t(1) assms(2) z(2,1)])
    moreover have "distinct (plan_set_names digest target plan)" using assms(1,2) by (auto simp: distinct_concat_iff)
    ultimately have "t = s" using distinct_map_inj [of "\<lambda>s. setName digest target (fp_Family plan) (ps_ID s)" "fp_Sets plan" t s] t(2,3) s
      unfolding plan_set_names_def by blast
    then show "covers (if ps_Kind s = DynamicCrowdSecSet then dynamic else ps_Prefixes s) a" using t(4) by (simp only:)
  qed (use s assms(2) in \<open>unfold target_sets_def, blast\<close>)
  then show ?thesis using assms(3,4) by (simp add: packet_ok_def)
qed

section \<open>Enforcement\<close>

lemma nft_enforced:
  assumes compiled: "Compile cdigest cfg snapshot = Inr st" "snapshot_ok snapshot"
    and built: "BuildTarget digest owner i cfg st previous = Inr (Some target)" "fw_Backend (cg_Firewall cfg) \<noteq> ''iptables''"
    and packet: "packet = \<lparr>np_Family = family, np_Flow = flow, np_Sets = target_sets digest target dynamic\<rparr>"
      "family_matches family (remote_of d flow)"
  shows "\<exists>deny hits. denyAction (fw_DenyAction (cg_Firewall cfg)) = Inr deny \<and>
    (if family \<in> fp_Family ` set (state_Families st) then
       (case reported deny (decide cfg snapshot family d flow dynamic) of (action, _, denial) \<Rightarrow>
          nft_walk digest target d packet (Suc (Suc depth)) = Some (action_verdict (reject_kind family flow) action, hits) \<and>
          concat (map rule_counters hits) = counterName (tg_Owner target) family d processed_role #
            (case denial of None \<Rightarrow> [] | Some role \<Rightarrow> [counterName (tg_Owner target) family d role]))
     else nft_walk digest target d packet (Suc (Suc depth)) = Some (None, []))"
proof -
  note b = BuildTarget_built [OF built(1)]
  note v = ValidateTarget_accepted [OF b(2)]
  have names: "distinct (concat (map (plan_set_names digest target) (tg_Families target)))" using v(4) b(3) built(2) by simp
  obtain deny where deny: "denyAction (fw_DenyAction (cg_Firewall cfg)) = Inr deny" using Compile_Inr [OF compiled(1)] by blast
  show ?thesis
  proof (cases "family \<in> fp_Family ` set (state_Families st)")
    case True
    then obtain plan where plan: "plan \<in> set (state_Families st)" "family = fp_Family plan" by blast
    have plan': "plan \<in> set (tg_Families target)" using plan(1) b(1) by (simp only:)
    obtain path where path: "find (\<lambda>p. pa_Direction p = d) (fp_Paths plan) = Some path" "path_ok plan path" "guards_first plan path"
      using compiled_path [OF compiled plan(1)] by blast
    have ok: "packet_ok digest target plan dynamic packet" by (rule target_sets_ok [OF names plan']) (simp_all add: packet plan(2))
    obtain ev where ev: "ev = evaluate plan d flow dynamic"
        "(ev_Action ev, ev_Trace ev, ev_Denied ev) = reported deny (decide cfg snapshot family d flow dynamic)"
      using compiled_decides [OF compiled plan(1) packet(2) [unfolded plan(2)], of dynamic] deny unfolding plan(2) by auto
    have flow: "np_Flow packet = flow" by (simp add: packet)
    obtain hits where "nft_walk digest target d packet (Suc (Suc depth)) = Some (action_verdict (reject_kind family flow) (ev_Action ev), hits)"
        "concat (map rule_counters hits) = counted target family d ev"
      using nft_walk_managed [OF v(1,2) plan' ok path(2,3,1), of depth] unfolding flow plan(2) ev(1) by blast
    then show ?thesis using True deny by (auto simp: ev(2) [symmetric] counted_def)
  next
    case False
    then have "nft_walk digest target d packet (Suc (Suc depth)) = Some (None, [])"
      by (intro nft_walk_unmanaged [OF v(1,2,3)]) (simp add: packet b(1) del: state_Families_id)
    then show ?thesis using False deny by (simp del: state_Families_id)
  qed
qed

definition nft_sample_config :: Config where
  "nft_sample_config = zero_config\<lparr>cg_Version := 1, cg_Global := \<lparr>gl_Allowlist = [], gl_Blocklist = [Prefix (IP4 0x08080808) 33]\<rparr>,
     cg_Firewall := (cg_Firewall zero_config)\<lparr>fw_Backend := ''nftables'', fw_DenyAction := ''reject'', fw_IPv4 := True,
       fw_Nftables := \<lparr>nf_Table = ''perimeterd'', nf_Priority = 0\<rparr>\<rparr>\<rparr>"

definition nft_sample_flow :: Flow where
  "nft_sample_flow = \<lparr>fl_Source = IP4 0x08080808, fl_Destination = NoAddr, fl_Protocol = ''tcp'', fl_Port = 22,
     fl_New = True, fl_Established = False\<rparr>"

definition nft_sample_digest :: "string \<Rightarrow> string" where
  "nft_sample_digest text = replicate 64 (CHR ''0'')"

definition nft_sample_id :: string where
  "nft_sample_id = replicate 32 (CHR ''a'')"

lemma nft_sample:
  "case Compile length nft_sample_config \<lparr>sn_entries = []\<rparr> of Inl _ \<Rightarrow> False | Inr st \<Rightarrow>
   case BuildTarget nft_sample_digest nft_sample_id nft_sample_id nft_sample_config st None of Inl _ \<Rightarrow> False | Inr None \<Rightarrow> False
   | Inr (Some target) \<Rightarrow> IPv4 \<in> fp_Family ` set (state_Families st) \<and> tg_Owner target = nft_sample_id"
  by code_simp

lemma nft_sample_decision:
  "decide nft_sample_config \<lparr>sn_entries = []\<rparr> IPv4 Ingress nft_sample_flow [] = Deny GlobalBlocklist ''''"
proof -
  have "prefix_Contains (Prefix (IP4 0x08080808) 33) (IP4 0x08080808)" by code_simp
  then show ?thesis by (simp add: decide_def nft_sample_config_def nft_sample_flow_def remote_of_def)
qed

section \<open>Properties\<close>

text \<open>
  (C3) The nftables rules enforce the configuration. Take the plans compiled from a configuration
  and the target built from them for nftables, with its sets filled with the prefixes of the
  plans and, for the dynamic set, the leased prefixes. A packet that enters the base chain of its
  direction runs through the base, entry and path chains and meets the verdict the configuration
  prescribes: it goes on when the configuration lets it pass, and is dropped or rejected, with a
  TCP reset exactly for TCP and as administratively prohibited otherwise, when it is denied. It
  is counted once as processed, and a denied packet once more under the reason and action of its
  denial. A packet of a family that is not managed meets no rule. Two levels of nested calls are
  always enough.
\<close>

theorem nft_enforces:
  assumes "Compile cdigest cfg snapshot = Inr st" "snapshot_ok snapshot"
    and "BuildTarget digest owner i cfg st previous = Inr (Some target)" "fw_Backend (cg_Firewall cfg) \<noteq> ''iptables''"
    and "packet = \<lparr>np_Family = family, np_Flow = flow, np_Sets = target_sets digest target dynamic\<rparr>"
      "family_matches family (remote_of d flow)"
  shows "\<exists>deny hits. denyAction (fw_DenyAction (cg_Firewall cfg)) = Inr deny \<and>
    (if family \<in> fp_Family ` set (state_Families st) then
       (case reported deny (decide cfg snapshot family d flow dynamic) of (action, _, denial) \<Rightarrow>
          nft_walk digest target d packet (Suc (Suc depth)) = Some (action_verdict (reject_kind family flow) action, hits) \<and>
          concat (map rule_counters hits) = counterName (tg_Owner target) family d processed_role #
            (case denial of None \<Rightarrow> [] | Some role \<Rightarrow> [counterName (tg_Owner target) family d role]))
     else nft_walk digest target d packet (Suc (Suc depth)) = Some (None, []))"
  by (rule nft_enforced [OF assms])

theorem nft_enforces_witness:
  "\<exists>st target. Compile length nft_sample_config \<lparr>sn_entries = []\<rparr> = Inr st \<and>
     BuildTarget nft_sample_digest nft_sample_id nft_sample_id nft_sample_config st None = Inr (Some target) \<and>
     (\<exists>hits. nft_walk nft_sample_digest target Ingress
         \<lparr>np_Family = IPv4, np_Flow = nft_sample_flow, np_Sets = target_sets nft_sample_digest target []\<rparr> 2 =
           Some (Some (Rejected ''tcp reset''), hits) \<and>
       concat (map rule_counters hits) = [''pd_'' @ nft_sample_id @ ''_counter_v4_ingress_processed'',
         ''pd_'' @ nft_sample_id @ ''_counter_v4_ingress_denied_global_blocklist_reject''])"
proof -
  obtain st target where s: "Compile length nft_sample_config \<lparr>sn_entries = []\<rparr> = Inr st"
      "BuildTarget nft_sample_digest nft_sample_id nft_sample_id nft_sample_config st None = Inr (Some target)"
      "IPv4 \<in> fp_Family ` set (state_Families st)" "tg_Owner target = nft_sample_id"
    using nft_sample by (auto split: sum.split_asm option.split_asm)
  have h: "snapshot_ok \<lparr>sn_entries = []\<rparr>" "fw_Backend (cg_Firewall nft_sample_config) \<noteq> ''iptables''"
      "family_matches IPv4 (remote_of Ingress nft_sample_flow)" "denyAction (fw_DenyAction (cg_Firewall nft_sample_config)) = Inr Reject"
    by (simp_all add: snapshot_ok_def nft_sample_config_def family_matches_def remote_of_def nft_sample_flow_def denyAction_def)
  have n: "counterName nft_sample_id IPv4 Ingress processed_role = ''pd_'' @ nft_sample_id @ ''_counter_v4_ingress_processed''"
      "counterName nft_sample_id IPv4 Ingress \<lparr>cr_Kind = Some Denied, cr_Reason = Some GlobalBlocklist, cr_Action = Some Reject\<rparr> =
         ''pd_'' @ nft_sample_id @ ''_counter_v4_ingress_denied_global_blocklist_reject''"
      "reject_kind IPv4 nft_sample_flow = ''tcp reset''"
    by code_simp+
  obtain hits where "nft_walk nft_sample_digest target Ingress
        \<lparr>np_Family = IPv4, np_Flow = nft_sample_flow, np_Sets = target_sets nft_sample_digest target []\<rparr> (Suc (Suc 0)) =
          Some (action_verdict ''tcp reset'' Reject, hits)"
      "concat (map rule_counters hits) = [''pd_'' @ nft_sample_id @ ''_counter_v4_ingress_processed'',
         ''pd_'' @ nft_sample_id @ ''_counter_v4_ingress_denied_global_blocklist_reject'']"
    using nft_enforces [OF s(1) h(1) s(2) h(2) refl h(3), where depth = 0 and dynamic = "[]"] unfolding nft_sample_decision if_P [OF s(3)] s(4) h(4) reported.simps
      prod.case option.case n(1,3) by (auto simp: n(2))
  then show ?thesis using s(1,2) by (auto simp: action_verdict_def numeral_2_eq_2)
qed

end
