(* ===== verification/Netip_Print.thy ===== *)
theory Netip_Print
  imports Config_CSV
begin

text \<open>
  \<open>Prefix.String\<close> of the Go package \<open>net/netip\<close>, in the form the lookup code stores its
  queries: dotted IPv4, and IPv6 with the longest run of zero groups shortened to \<open>::\<close>.
  The lemmas show that \<open>ParsePrefix\<close> reads back what \<open>String\<close> prints.
\<close>

section \<open>Printing\<close>

definition hex_digit :: "nat \<Rightarrow> char" where
  "hex_digit n = ''0123456789abcdef'' ! n"

definition appendHex :: "nat \<Rightarrow> string" where
  "appendHex x =
     (if 0x1000 \<le> x then [hex_digit (x div 4096)] else []) @
     (if 0x100 \<le> x then [hex_digit (x div 256 mod 16)] else []) @
     (if 0x10 \<le> x then [hex_digit (x div 16 mod 16)] else []) @
     [hex_digit (x mod 16)]"

definition appendTo4 :: "8 word list \<Rightarrow> string" where
  "appendTo4 bs = Itoa (unat (bs ! 0)) @ ''.'' @ Itoa (unat (bs ! 1)) @ ''.'' @ Itoa (unat (bs ! 2)) @ ''.'' @ Itoa (unat (bs ! 3))"

definition v6u16 :: "8 word list \<Rightarrow> nat \<Rightarrow> nat" where
  "v6u16 bs i = 256 * unat (bs ! (2 * i)) + unat (bs ! Suc (2 * i))"

text \<open>The first longest run of at least two zero groups; 255 marks none.\<close>

definition zero_run :: "nat list \<Rightarrow> nat \<Rightarrow> nat \<times> nat \<Rightarrow> nat \<times> nat" where
  "zero_run gs i r =
     (let l = length (takeWhile (\<lambda>g. g = 0) (drop i gs)) in if 2 \<le> l \<and> snd r - fst r < l then (i, i + l) else r)"

text \<open>The printing loop; a run starts at \<open>zeroStart\<close> and ends behind it.\<close>

function print_groups :: "nat list \<Rightarrow> nat \<Rightarrow> nat \<Rightarrow> nat \<Rightarrow> string" where
  "print_groups gs zeroStart zeroEnd i =
     (if 8 \<le> i then []
      else if i = zeroStart then
        ''::'' @
        (if 8 \<le> zeroEnd then []
         else appendHex (gs ! zeroEnd) @ print_groups gs zeroStart zeroEnd (Suc (max i zeroEnd)))
      else (if 0 < i then '':'' else []) @ appendHex (gs ! i) @ print_groups gs zeroStart zeroEnd (Suc i))"
  by pat_completeness auto
termination
  by (relation "measure (\<lambda>(_, _, _, i). 8 - i)") auto

declare print_groups.simps [simp del]

definition appendTo6 :: "8 word list \<Rightarrow> string" where
  "appendTo6 bs =
     (let gs = map (v6u16 bs) [0..<8]; r = fold (zero_run gs) [0..<8] (255, 255) in print_groups gs (fst r) (snd r) 0)"

definition prefix_String :: "prefix \<Rightarrow> string" where
  "prefix_String p =
     (if \<not> prefix_IsValid p then ''invalid Prefix''
      else
        (case pAddr p of
           NoAddr \<Rightarrow> []
         | IP4 v \<Rightarrow> appendTo4 (be_bytes 4 v)
         | IP6 v _ \<Rightarrow>
             if Is4In6 (pAddr p) then ''::ffff:'' @ appendTo4 (be_bytes 4 (ucast v :: 32 word))
             else appendTo6 (be_bytes 16 v)) @
        ''/'' @ Itoa (nat (prefix_Bits p)))"

section \<open>Decimal numbers\<close>

lemma Itoa_no_leading_zero: "10 \<le> n \<Longrightarrow> hd (Itoa n) \<noteq> CHR ''0''"
proof (induction n rule: Itoa.induct)
  case (1 n)
  have e: "Itoa n = Itoa (n div 10) @ [digit_char (n mod 10)]" using 1(2) by (subst Itoa.simps) simp
  have ne: "Itoa (n div 10) \<noteq> []" using Itoa_digits by blast
  show ?case
  proof (cases "10 \<le> n div 10")
    case True
    then show ?thesis using 1 ne unfolding e by simp
  next
    case False
    then have "Itoa (n div 10) = [digit_char (n div 10)]" by (subst Itoa.simps) simp
    moreover have "n div 10 \<noteq> 0" using 1(2) by simp
    ultimately show ?thesis
      using digit_char_digit(2) [of "n div 10"] False unfolding e by (auto simp: digit_value_def)
  qed
qed

lemma parse_bits_Itoa: "parse_bits (Itoa n) = Some n"
proof -
  note d = Itoa_digits [of n]
  have "\<not> (1 < length (Itoa n) \<and> (hd (Itoa n) < CHR ''1'' \<or> CHR ''9'' < hd (Itoa n)))"
  proof
    assume a: "1 < length (Itoa n) \<and> (hd (Itoa n) < CHR ''1'' \<or> CHR ''9'' < hd (Itoa n))"
    then have "10 \<le> n" by (subst (asm) Itoa.simps) (auto split: if_splits)
    moreover have "is_digit (hd (Itoa n))" using d by (cases "Itoa n") auto
    moreover have "c = CHR ''0''" if "is_digit c" "c < CHR ''1''" for c
    proof -
      have "of_char c = (of_char (CHR ''0'') :: nat)" using that by (simp add: is_digit_def less_eq_char_def less_char_def)
      then show ?thesis by (simp only: of_char_eq_iff)
    qed
    ultimately show False using a Itoa_no_leading_zero [of n] by (auto simp: is_digit_def)
  qed
  then show ?thesis using d by (auto simp: parse_bits_def)
qed

section \<open>Dotted addresses\<close>

lemma parse_octets_digits:
  assumes "\<forall>c\<in>set ds. is_digit c" "digLen = 0 \<or> val \<noteq> 0" "foldl (\<lambda>n c. 10 * n + digit_value c) val ds \<le> 255"
    and "digLen = 0 \<longrightarrow> val = 0" "digLen = 0 \<and> 1 < length ds \<longrightarrow> hd ds \<noteq> CHR ''0''"
  shows "parse_octets fs val digLen (ds @ rest) =
    parse_octets fs (foldl (\<lambda>n c. 10 * n + digit_value c) val ds) (digLen + length ds) rest"
  using assms
proof (induction ds arbitrary: val digLen)
  case Nil
  then show ?case by simp
next
  case (Cons c cs)
  have mono: "v \<le> foldl (\<lambda>n c. 10 * n + digit_value c) v xs" for v xs
  proof (induction xs arbitrary: v)
    case (Cons x xs)
    show ?case using Cons [of "10 * v + digit_value x"] by simp
  qed simp
  have le: "10 * val + digit_value c \<le> 255" using Cons.prems(3) mono [of "10 * val + digit_value c" cs] by simp
  have nz: "cs \<noteq> [] \<Longrightarrow> 10 * val + digit_value c \<noteq> 0"
  proof -
    assume "cs \<noteq> []"
    then have "digLen = 0 \<Longrightarrow> c \<noteq> CHR ''0''" using Cons.prems(5) by (cases cs) auto
    moreover have "digit_value c \<noteq> 0" if "c \<noteq> CHR ''0''"
    proof
      assume "digit_value c = 0"
      then have "of_char c = (of_char (CHR ''0'') :: nat)"
        using Cons.prems(1) by (simp add: digit_value_def is_digit_def less_eq_char_def)
      then show False using that by (simp only: of_char_eq_iff)
    qed
    ultimately show ?thesis using Cons.prems(2) by auto
  qed
  have "parse_octets fs val digLen ((c # cs) @ rest) = parse_octets fs (10 * val + digit_value c) (Suc digLen) (cs @ rest)"
    using Cons.prems(1,2) le by (auto simp: mult.commute)
  also have "\<dots> = parse_octets fs (foldl (\<lambda>n c. 10 * n + digit_value c) (10 * val + digit_value c) cs) (Suc digLen + length cs) rest"
  proof (cases "cs = []")
    case True
    then show ?thesis by simp
  next
    case False
    show ?thesis by (rule Cons.IH) (use Cons.prems nz [OF False] in auto)
  qed
  finally show ?case by simp
qed

lemma parse_octets_Itoa:
  assumes "n \<le> 255"
  shows "\<exists>k. 0 < k \<and> parse_octets fs 0 0 (Itoa n @ rest) = parse_octets fs n k rest"
proof -
  note d = Itoa_digits [of n]
  have h: "1 < length (Itoa n) \<Longrightarrow> hd (Itoa n) \<noteq> CHR ''0''"
  proof (cases "n < 10")
    case True
    then show "1 < length (Itoa n) \<Longrightarrow> ?thesis" by (subst (asm) Itoa.simps) simp
  qed (simp add: Itoa_no_leading_zero)
  have "parse_octets fs 0 0 (Itoa n @ rest) = parse_octets fs n (length (Itoa n)) rest"
    using parse_octets_digits [of "Itoa n" 0 0 fs rest] d h assms by (simp add: digits_value_def)
  then show ?thesis using d by (metis length_greater_0_conv)
qed

lemma parse_octets_field:
  assumes "n \<le> 255" "rest \<noteq> []" "length fs \<noteq> 3"
  shows "parse_octets fs 0 0 (Itoa n @ CHR ''.'' # rest) = parse_octets (fs @ [n]) 0 0 rest"
proof -
  obtain k where k: "0 < k" "parse_octets fs 0 0 (Itoa n @ CHR ''.'' # rest) = parse_octets fs n k (CHR ''.'' # rest)"
    using parse_octets_Itoa [OF assms(1)] by blast
  have "\<not> is_digit (CHR ''.'')" by code_simp
  then show ?thesis using k assms(2,3) by simp
qed

lemma Itoa_ne [simp]: "Itoa n \<noteq> []"
  using Itoa_digits by blast

lemma parseIPv4_print: "length bs = 4 \<Longrightarrow> parseIPv4Fields (appendTo4 bs) = Some bs"
proof -
  assume "length bs = 4"
  then obtain a b c d where bs: "bs = [a, b, c, d]" by (auto simp: length_Suc_conv numeral_eq_Suc)
  have le: "unat (w :: 8 word) \<le> 255" for w using unsigned_less [of w] by (simp add: less_Suc_eq_le [symmetric])
  obtain k where k: "parse_octets [unat a, unat b, unat c] 0 0 (Itoa (unat d) @ []) = parse_octets [unat a, unat b, unat c] (unat d) k []"
    using parse_octets_Itoa [OF le] by blast
  have "parse_octets [] 0 0 (appendTo4 bs) = Some [unat a, unat b, unat c, unat d]"
    using k by (simp add: bs appendTo4_def parse_octets_field le)
  then show ?thesis by (simp add: parseIPv4Fields_def bs)
qed

section \<open>Groups\<close>

definition group_bytes :: "nat list \<Rightarrow> 8 word list" where
  "group_bytes gs = concat (map (\<lambda>g. [of_nat (g div 256), of_nat g]) gs)"

fun join_groups :: "nat list \<Rightarrow> string" where
  "join_groups [] = []"
| "join_groups [g] = appendHex g"
| "join_groups (g # gs) = appendHex g @ CHR '':'' # join_groups gs"

lemma length_group_bytes [simp]: "length (group_bytes gs) = 2 * length gs"
  by (induction gs) (auto simp: group_bytes_def)

lemma group_bytes_append [simp]: "group_bytes (gs @ hs) = group_bytes gs @ group_bytes hs"
  by (simp add: group_bytes_def)

lemma hex_value_digit: "n < 16 \<Longrightarrow> hex_value (hex_digit n) = Some n"
proof -
  assume "n < 16"
  moreover have "list_all (\<lambda>n. hex_value (hex_digit n) = Some n) [0..<16]" by code_simp
  ultimately show ?thesis by (simp only: list_all_iff set_upt) simp
qed

lemma hex_value_colon [simp]: "hex_value (CHR '':'') = None"
  by code_simp

definition hex_number :: "string \<Rightarrow> 32 word" where
  "hex_number ds = foldl (\<lambda>n c. push_bit 4 n + of_nat (the (hex_value c))) 0 ds"

lemma appendHex_digits:
  assumes "x < 65536"
  shows "appendHex x \<noteq> []" "length (appendHex x) \<le> 4" "\<forall>c\<in>set (appendHex x). hex_value c \<noteq> None"
    "hex_number (appendHex x) = of_nat x"
proof -
  have d: "x div 4096 < 16" "x div 256 mod 16 < 16" "x div 16 mod 16 < 16" "x mod 16 < 16" using assms by auto
  show "appendHex x \<noteq> []" "length (appendHex x) \<le> 4" by (auto simp: appendHex_def)
  show "\<forall>c\<in>set (appendHex x). hex_value c \<noteq> None" using d by (auto simp: appendHex_def hex_value_digit)
  have q: "x div 256 = x div 16 div 16" "x div 4096 = x div 16 div 16 div 16" by (simp_all add: div_mult2_eq [symmetric])
  have e: "16 * (16 * (16 * (x div 4096) + x div 256 mod 16) + x div 16 mod 16) + x mod 16 = x"
    unfolding q by (simp only: mult_div_mod_eq)
  have p: "push_bit 4 n = 16 * n" for n :: "32 word" by (simp add: push_bit_eq_mult)
  have "hex_number (appendHex x) =
      16 * (16 * (16 * of_nat (x div 4096) + of_nat (x div 256 mod 16)) + of_nat (x div 16 mod 16)) + of_nat (x mod 16)"
  proof -
    consider "4096 \<le> x" | "x < 4096" "256 \<le> x" | "x < 256" "16 \<le> x" | "x < 16" by linarith
    then show ?thesis
      using d by cases (simp_all add: hex_number_def appendHex_def hex_value_digit p)
  qed
  then show "hex_number (appendHex x) = of_nat x" by (subst e [symmetric]) (simp only: of_nat_add of_nat_mult of_nat_numeral)
qed

lemma group_word_bytes:
  assumes "x < 65536"
  shows "ucast (drop_bit 8 (of_nat x :: 32 word)) = (of_nat (x div 256) :: 8 word)" "ucast (of_nat x :: 32 word) = (of_nat x :: 8 word)"
proof -
  have u: "unat (of_nat x :: 32 word) = x" using assms by (simp add: unat_of_nat)
  have "unat (drop_bit 8 (of_nat x :: 32 word)) = x div 256" by (simp only: unat_drop_bit_eq u) (simp add: drop_bit_eq_div)
  then show "ucast (drop_bit 8 (of_nat x :: 32 word)) = (of_nat (x div 256) :: 8 word)" by (metis of_nat_unat)
  show "ucast (of_nat x :: 32 word) = (of_nat x :: 8 word)" using u by (metis of_nat_unat)
qed

lemma parse_group_step:
  assumes "x < 65536" "length ip < 16" "rest = [] \<or> hd rest = CHR '':''"
  shows "parse_groups (appendHex x @ rest) ip e =
    (let ip = ip @ group_bytes [x] in
     case rest of
       [] \<Rightarrow> Some ([], ip, e)
     | c # cs \<Rightarrow>
         if cs = [] then None
         else if hd cs = CHR '':'' then
           if e \<noteq> None then None
           else if tl cs = [] then Some ([], ip, Some (length ip))
           else parse_groups (tl cs) ip (Some (length ip))
         else parse_groups cs ip e)"
proof -
  note a = appendHex_digits [OF assms(1)]
  have tw: "takeWhile (\<lambda>c. hex_value c \<noteq> None) (appendHex x @ rest) = appendHex x"
    using a(3) assms(3) by (cases rest) (auto simp del: not_None_eq)
  have "foldl (\<lambda>n c. push_bit 4 n + of_nat (the (hex_value c))) (0 :: 32 word) (appendHex x) = of_nat x"
    using a(4) by (simp add: hex_number_def)
  note f = this
  have colon: "CHR '':'' \<noteq> CHR ''.''" by simp
  have l: "\<not> 16 \<le> length ip" "\<not> (4 < length (appendHex x) \<or> appendHex x = [])" using assms(2) a(1,2) by auto
  show ?thesis
  proof (cases rest)
    case Nil
    show ?thesis
      using l by (subst parse_groups.simps)
        (simp add: Let_def tw [unfolded Nil append_Nil2] f Nil group_word_bytes [OF assms(1)] group_bytes_def del: not_None_eq)
  next
    case (Cons c cs)
    then have c: "rest = CHR '':'' # cs" using assms(3) by simp
    have d: "drop (length (appendHex x)) (appendHex x @ CHR '':'' # cs) = CHR '':'' # cs" by simp
    have b: "[ucast (drop_bit 8 (of_nat x :: 32 word)), ucast (of_nat x :: 32 word)] = group_bytes [x]"
      by (simp add: group_word_bytes [OF assms(1)] group_bytes_def)
    show ?thesis
      unfolding c by (subst parse_groups.simps)
        (simp only: Let_def tw [unfolded c] d f b l if_False list.case list.sel list.distinct simp_thms colon)
  qed
qed

lemma appendHex_Cons:
  assumes "x < 65536"
  obtains c cs where "appendHex x = c # cs" "c \<noteq> CHR '':''"
proof -
  obtain c cs where c: "appendHex x = c # cs" using appendHex_digits(1) [OF assms] by (cases "appendHex x") auto
  then have "hex_value c \<noteq> None" using appendHex_digits(3) [OF assms] by simp
  then show thesis using that [OF c] hex_value_colon by metis
qed

lemma join_groups_Cons: "gs \<noteq> [] \<Longrightarrow> join_groups (g # gs) = appendHex g @ CHR '':'' # join_groups gs"
  by (cases gs) auto

lemma join_groups_head:
  assumes "gs \<noteq> []" "\<forall>g\<in>set gs. g < 65536"
  obtains c cs where "join_groups gs = c # cs" "c \<noteq> CHR '':''"
proof -
  obtain g hs where gs: "gs = g # hs" using assms(1) by (cases gs) auto
  obtain c cs where c: "appendHex g = c # cs" "c \<noteq> CHR '':''" using appendHex_Cons [of g] assms(2) gs by auto
  then show thesis using that [of c] by (cases hs) (auto simp: gs)
qed

lemma parse_groups_join:
  assumes "gs \<noteq> []" "\<forall>g\<in>set gs. g < 65536" "length ip + 2 * length gs \<le> 16"
  shows "parse_groups (join_groups gs) ip e = Some ([], ip @ group_bytes gs, e)"
  using assms
proof (induction gs arbitrary: ip)
  case (Cons g gs)
  show ?case
  proof (cases "gs = []")
    case True
    then show ?thesis using Cons.prems parse_group_step [of g ip "[]" e] by simp
  next
    case False
    obtain c cs where c: "join_groups gs = c # cs" "c \<noteq> CHR '':''" using join_groups_head [OF False] Cons.prems(2) by auto
    have "parse_groups (join_groups (g # gs)) ip e = parse_groups (join_groups gs) (ip @ group_bytes [g]) e"
      using Cons.prems c by (simp add: join_groups_Cons [OF False] parse_group_step Let_def)
    also have "\<dots> = Some ([], (ip @ group_bytes [g]) @ group_bytes gs, e)" using False Cons.prems by (intro Cons.IH) auto
    finally show ?thesis using group_bytes_append [of "[g]" gs] by simp
  qed
qed simp

lemma parse_groups_ellipsis:
  assumes "gs \<noteq> []" "\<forall>g\<in>set (gs @ hs). g < 65536" "length ip + 2 * length (gs @ hs) < 16"
  shows "parse_groups (join_groups gs @ ''::'' @ join_groups hs) ip None =
    Some ([], ip @ group_bytes (gs @ hs), Some (length ip + 2 * length gs))"
  using assms
proof (induction gs arbitrary: ip)
  case (Cons g gs)
  show ?case
  proof (cases "gs = []")
    case True
    show ?thesis
    proof (cases "hs = []")
      case h: True
      then show ?thesis using Cons.prems True by (simp add: parse_group_step Let_def)
    next
      case h: False
      obtain c cs where c: "join_groups hs = c # cs" "c \<noteq> CHR '':''" using join_groups_head [OF h] Cons.prems(2) by auto
      have "parse_groups (join_groups (g # gs) @ ''::'' @ join_groups hs) ip None =
          parse_groups (join_groups hs) (ip @ group_bytes [g]) (Some (length ip + 2))"
        using Cons.prems True c by (simp add: parse_group_step Let_def)
      also have "\<dots> = Some ([], (ip @ group_bytes [g]) @ group_bytes hs, Some (length ip + 2))"
        using h Cons.prems True by (intro parse_groups_join) auto
      finally show ?thesis using group_bytes_append [of "[g]" hs] True by simp
    qed
  next
    case False
    obtain c cs where c: "join_groups gs = c # cs" "c \<noteq> CHR '':''" using join_groups_head [OF False] Cons.prems(2) by auto
    have "parse_groups (join_groups (g # gs) @ ''::'' @ join_groups hs) ip None =
        parse_groups (join_groups gs @ ''::'' @ join_groups hs) (ip @ group_bytes [g]) None"
      using Cons.prems c by (simp add: join_groups_Cons [OF False] parse_group_step Let_def)
    also have "\<dots> = Some ([], (ip @ group_bytes [g]) @ group_bytes (gs @ hs), Some (length (ip @ group_bytes [g]) + 2 * length gs))"
      using False Cons.prems by (intro Cons.IH) auto
    finally show ?thesis using group_bytes_append [of "[g]" "gs @ hs"] by simp
  qed
qed simp

section \<open>The printed form\<close>

lemma print_groups_tail:
  assumes "length gs = 8" "i \<le> 8" "zeroStart < i \<or> 8 \<le> zeroStart"
  shows "print_groups gs zeroStart zeroEnd i = (if i < 8 then (if 0 < i then '':'' else []) @ join_groups (drop i gs) else [])"
  using assms
proof (induction "8 - i" arbitrary: i)
  case (Suc k)
  have d: "drop i gs = gs ! i # drop (Suc i) gs" using Suc by (intro Cons_nth_drop_Suc [symmetric]) simp
  have e: "drop (Suc i) gs = [] \<longleftrightarrow> i = 7" using Suc by auto
  have s: "print_groups gs zeroStart zeroEnd i =
      (if 0 < i then '':'' else []) @ appendHex (gs ! i) @ print_groups gs zeroStart zeroEnd (Suc i)"
    using Suc by (subst print_groups.simps) auto
  show ?case
  proof (cases "i = 7")
    case True
    then show ?thesis using s e d Suc by (simp add: print_groups.simps [of gs zeroStart zeroEnd 8])
  next
    case False
    moreover have "k = 8 - Suc i" "Suc i \<le> 8" "zeroStart < Suc i \<or> 8 \<le> zeroStart" using Suc(2,4,5) by linarith+
    note Suc(1) [OF this(1) Suc(3) this(2,3)]
    moreover have "Suc i < 8" using False Suc(2) by linarith
    ultimately have "print_groups gs zeroStart zeroEnd (Suc i) = '':'' @ join_groups (drop (Suc i) gs)" by simp
    then show ?thesis using s e d False Suc by (simp add: join_groups_Cons)
  qed
qed (simp add: print_groups.simps)

lemma print_groups_run:
  assumes "length gs = 8" "i \<le> zeroStart" "zeroStart < zeroEnd" "zeroEnd \<le> 8"
  shows "print_groups gs zeroStart zeroEnd i =
    (if i = zeroStart then [] else (if 0 < i then '':'' else []) @ join_groups (drop i (take zeroStart gs))) @
    ''::'' @ join_groups (drop zeroEnd gs)"
  using assms
proof (induction "zeroStart - i" arbitrary: i)
  case 0
  then have i: "i = zeroStart" by simp
  have "appendHex (gs ! zeroEnd) @ print_groups gs zeroStart zeroEnd (Suc zeroEnd) = join_groups (drop zeroEnd gs)" if "zeroEnd < 8"
  proof -
    have d: "drop zeroEnd gs = gs ! zeroEnd # drop (Suc zeroEnd) gs" using that 0 by (intro Cons_nth_drop_Suc [symmetric]) simp
    show ?thesis using that 0 d by (cases "zeroEnd = 7") (auto simp: print_groups_tail join_groups_Cons)
  qed
  then show ?case using 0 i by (subst print_groups.simps) (auto simp: max_def)
next
  case (Suc k)
  have d: "drop i (take zeroStart gs) = gs ! i # drop (Suc i) (take zeroStart gs)"
    using Suc by (subst Cons_nth_drop_Suc [symmetric]) auto
  have e: "drop (Suc i) (take zeroStart gs) = [] \<longleftrightarrow> Suc i = zeroStart" using Suc by auto
  have s: "print_groups gs zeroStart zeroEnd i =
      (if 0 < i then '':'' else []) @ appendHex (gs ! i) @ print_groups gs zeroStart zeroEnd (Suc i)"
    using Suc by (subst print_groups.simps) auto
  show ?case
  proof (cases "Suc i = zeroStart")
    case True
    then have "print_groups gs zeroStart zeroEnd (Suc i) = ''::'' @ join_groups (drop zeroEnd gs)" using Suc by simp
    then show ?thesis using s d e True by simp
  next
    case False
    then have "print_groups gs zeroStart zeroEnd (Suc i) =
        ('':'' @ join_groups (drop (Suc i) (take zeroStart gs))) @ ''::'' @ join_groups (drop zeroEnd gs)"
      using Suc by simp
    then show ?thesis using s d e False Suc.hyps(2) by (simp add: join_groups_Cons)
  qed
qed

definition run_ok :: "nat list \<Rightarrow> nat \<times> nat \<Rightarrow> bool" where
  "run_ok gs r \<longleftrightarrow> r = (255, 255) \<or> fst r + 2 \<le> snd r \<and> snd r \<le> length gs \<and> (\<forall>k. fst r \<le> k \<and> k < snd r \<longrightarrow> gs ! k = 0)"

lemma zero_run_ok: "i \<le> length gs \<Longrightarrow> run_ok gs r \<Longrightarrow> run_ok gs (zero_run gs i r)"
proof -
  assume a: "i \<le> length gs" "run_ok gs r"
  let ?t = "takeWhile (\<lambda>g. g = 0) (drop i gs)"
  have l: "i + length ?t \<le> length gs" using length_takeWhile_le [of "\<lambda>g. g = 0" "drop i gs"] a(1) by simp
  have "gs ! k = 0" if "i \<le> k" "k < i + length ?t" for k
  proof -
    have "?t ! (k - i) = drop i gs ! (k - i)" using that by (intro takeWhile_nth) linarith
    moreover have "?t ! (k - i) \<in> set ?t" using that by (intro nth_mem) linarith
    then have "?t ! (k - i) = 0" by (auto dest: set_takeWhileD)
    ultimately show ?thesis using that l by simp
  qed
  then show ?thesis using a(2) l by (auto simp: zero_run_def run_ok_def Let_def)
qed

lemma fold_zero_run_ok: "list_all (\<lambda>i. i \<le> length gs) is \<Longrightarrow> run_ok gs r \<Longrightarrow> run_ok gs (fold (zero_run gs) is r)"
  by (induction "is" arbitrary: r) (auto simp: zero_run_ok)

section \<open>Round trips\<close>

lemma group_bytes_v6u16:
  assumes "length bs = 16"
  shows "group_bytes (map (v6u16 bs) [0..<8]) = bs" "\<forall>g\<in>set (map (v6u16 bs) [0..<8]). g < 65536"
proof -
  have lt: "unat (w :: 8 word) < 256" for w using unsigned_less [of w] by simp
  have b: "[of_nat (v6u16 bs i div 256), of_nat (v6u16 bs i)] = [bs ! (2 * i), bs ! Suc (2 * i)]" for i
  proof -
    have "v6u16 bs i div 256 = unat (bs ! (2 * i))" using lt [of "bs ! Suc (2 * i)"] by (simp add: v6u16_def)
    moreover have "(of_nat (v6u16 bs i) :: 8 word) = of_nat (unat (bs ! Suc (2 * i)))"
    proof -
      have z0: "(256 :: 8 word) = 0" by code_simp
      have z: "256 * w = 0" for w :: "8 word" unfolding z0 by (rule mult_zero_left)
      show ?thesis by (simp add: v6u16_def z)
    qed
    ultimately show ?thesis by simp
  qed
  have "group_bytes (map (v6u16 bs) [0..<8]) = concat (map (\<lambda>i. [bs ! (2 * i), bs ! Suc (2 * i)]) [0..<8])"
    by (simp only: group_bytes_def map_map comp_def b)
  also have "\<dots> = map ((!) bs) [0..<16]" by (simp add: upt_rec numeral_eq_Suc)
  also have "\<dots> = bs" using map_nth [of bs] assms by simp
  finally show "group_bytes (map (v6u16 bs) [0..<8]) = bs" .
  show "\<forall>g\<in>set (map (v6u16 bs) [0..<8]). g < 65536"
  proof
    fix g assume "g \<in> set (map (v6u16 bs) [0..<8])"
    then obtain i where "g = v6u16 bs i" by auto
    then show "g < 65536" using lt [of "bs ! (2 * i)"] lt [of "bs ! Suc (2 * i)"] by (simp add: v6u16_def)
  qed
qed

lemma group_bytes_zero: "\<forall>g\<in>set gs. g = 0 \<Longrightarrow> group_bytes gs = replicate (2 * length gs) 0"
  by (induction gs) (auto simp: group_bytes_def)

text \<open>Characters of a printed IPv6 address.\<close>

lemma join_groups_chars: "\<forall>g\<in>set gs. g < 65536 \<Longrightarrow> c \<in> set (join_groups gs) \<Longrightarrow> c = CHR '':'' \<or> hex_value c \<noteq> None"
  by (induction gs rule: join_groups.induct) (use appendHex_digits(3) in \<open>force simp del: not_None_eq\<close>)+

lemma appendTo6_form:
  assumes "length bs = 16"
  obtains (plain) gs where "appendTo6 bs = join_groups gs" "length gs = 8" "\<forall>g\<in>set gs. g < 65536" "group_bytes gs = bs"
  | (run) gs hs where "appendTo6 bs = join_groups gs @ ''::'' @ join_groups hs" "length (gs @ hs) \<le> 6"
      "\<forall>g\<in>set (gs @ hs). g < 65536" "bs = group_bytes gs @ replicate (16 - 2 * length (gs @ hs)) 0 @ group_bytes hs"
proof -
  let ?gs = "map (v6u16 bs) [0..<8]"
  define r where "r = fold (zero_run ?gs) [0..<8] (255, 255)"
  note g = group_bytes_v6u16 [OF assms]
  have p: "appendTo6 bs = print_groups ?gs (fst r) (snd r) 0" by (simp add: appendTo6_def r_def Let_def)
  have "run_ok ?gs r" unfolding r_def by (rule fold_zero_run_ok) (simp_all add: list_all_iff run_ok_def)
  then consider "r = (255, 255)" | "fst r + 2 \<le> snd r" "snd r \<le> 8" "\<forall>k. fst r \<le> k \<and> k < snd r \<longrightarrow> ?gs ! k = 0"
    unfolding run_ok_def by auto
  then show thesis
  proof cases
    case 1
    have "appendTo6 bs = join_groups ?gs" using p 1 print_groups_tail [of ?gs 0 255 255] by simp
    then show thesis using plain g by simp
  next
    case 2
    let ?h = "take (fst r) ?gs" and ?m = "take (snd r - fst r) (drop (fst r) ?gs)" and ?t = "drop (snd r) ?gs"
    have e: "?gs = ?h @ ?m @ ?t" using 2(1) by (metis append_take_drop_id drop_drop le_add_diff_inverse2 add_leD1)
    have z: "\<forall>g\<in>set ?m. g = 0" using 2 by (auto simp: in_set_conv_nth)
    have lm: "length ?m = snd r - fst r" using 2 by simp
    have "appendTo6 bs = join_groups ?h @ ''::'' @ join_groups ?t"
      using p 2(1,2) print_groups_run [of ?gs 0 "fst r" "snd r"] by (cases "fst r = 0") simp_all
    moreover have "length (?h @ ?t) \<le> 6" using 2 by simp
    moreover have "\<forall>g\<in>set (?h @ ?t). g < 65536" using g(2) set_take_subset [of "fst r" ?gs] set_drop_subset [of "snd r" ?gs] unfolding set_append by blast
    moreover have "bs = group_bytes ?h @ group_bytes ?m @ group_bytes ?t" using g(1) e by (metis group_bytes_append)
    then have "bs = group_bytes ?h @ replicate (16 - 2 * length (?h @ ?t)) 0 @ group_bytes ?t"
    proof -
      have "16 - 2 * length (?h @ ?t) = 2 * length ?m" using lm 2(1,2) by simp
      then show ?thesis using \<open>bs = group_bytes ?h @ group_bytes ?m @ group_bytes ?t\<close> group_bytes_zero [OF z] by (simp only:)
    qed
    ultimately show thesis by (rule run)
  qed
qed

lemma parseIPv6_print:
  assumes "length bs = 16"
  shows "parseIPv6 (appendTo6 bs) = Some (AddrFrom16 bs)"
proof -
  have zone: "takeWhile (\<lambda>c. c \<noteq> CHR ''%'') s = s" if "\<forall>c\<in>set s. c = CHR '':'' \<or> hex_value c \<noteq> None" for s
  proof -
    have "hex_value (CHR ''%'') = None" by code_simp
    then have "c \<noteq> CHR ''%''" if "c \<in> set s" for c
    proof -
      have "CHR ''%'' \<noteq> CHR '':''" by simp
      with \<open>hex_value (CHR ''%'') = None\<close> \<open>\<forall>c\<in>set s. c = CHR '':'' \<or> hex_value c \<noteq> None\<close> that show ?thesis by metis
    qed
    then show ?thesis by (simp add: takeWhile_eq_all_conv)
  qed
  from assms show ?thesis
  proof (cases rule: appendTo6_form)
    case (plain gs)
    then have ne: "gs \<noteq> []" by auto
    obtain c cs where c: "join_groups gs = c # cs" "c \<noteq> CHR '':''" using join_groups_head [OF ne plain(3)] by blast
    have "parse_groups (join_groups gs) [] None = Some ([], bs, None)" using parse_groups_join [OF ne plain(3), of "[]" None] plain by simp
    moreover have tw: "takeWhile (\<lambda>c. c \<noteq> CHR ''%'') (join_groups gs) = join_groups gs"
      using join_groups_chars [OF plain(3)] by (intro zone) auto
    moreover have "take 2 (join_groups gs) \<noteq> ''::''" using c by auto
    ultimately show ?thesis
      using assms by (simp add: parseIPv6_def plain(1) tw Let_def expand_ellipsis_def AddrFrom16_def)
  next
    case (run gs hs)
    have tw: "takeWhile (\<lambda>c. c \<noteq> CHR ''%'') (appendTo6 bs) = appendTo6 bs"
      using join_groups_chars [of gs] join_groups_chars [of hs] run(1,3) by (intro zone) auto
    have l: "length (group_bytes (gs @ hs)) < 16" using run(2) by simp
    have x: "expand_ellipsis (group_bytes (gs @ hs)) (Some (2 * length gs)) = Some bs"
      using l run(4) by (simp add: expand_ellipsis_def)
    show ?thesis
    proof (cases "gs = []")
      case True
      show ?thesis
      proof (cases "hs = []")
        case h: True
        have "bs = replicate 16 0" using run(4) True h by (simp add: group_bytes_def)
        then have "AddrFrom16 bs = IP6 0 ''''" by (simp only:) code_simp
        then show ?thesis using run(1) True h by (simp add: parseIPv6_def Let_def)
      next
        case h: False
        have "parse_groups (join_groups hs) [] (Some 0) = Some ([], group_bytes hs, Some 0)"
          using parse_groups_join [OF h, of "[]" "Some 0"] run(2,3) True by simp
        moreover have "\<forall>g\<in>set hs. g < 65536" using run(3) by simp
        then have ne: "join_groups hs \<noteq> []" and t: "takeWhile (\<lambda>c. c \<noteq> CHR ''%'') (join_groups hs) = join_groups hs"
        proof -
          assume b: "\<forall>g\<in>set hs. g < 65536"
          from join_groups_head [OF h b] obtain c cs where "join_groups hs = c # cs" by metis
          then show "join_groups hs \<noteq> []" by simp
          show "takeWhile (\<lambda>c. c \<noteq> CHR ''%'') (join_groups hs) = join_groups hs"
            using join_groups_chars [OF b] by (intro zone ballI)
        qed
        moreover have "appendTo6 bs = CHR '':'' # CHR '':'' # join_groups hs" using run(1) True by simp
        ultimately show ?thesis using x True by (simp add: parseIPv6_def t Let_def AddrFrom16_def)
      qed
    next
      case False
      have "\<forall>g\<in>set gs. g < 65536" using run(3) by simp
      then obtain c cs where c: "join_groups gs = c # cs" "c \<noteq> CHR '':''" using join_groups_head [OF False] by blast
      have "parse_groups (appendTo6 bs) [] None = Some ([], group_bytes (gs @ hs), Some (2 * length gs))"
        using parse_groups_ellipsis [OF False run(3), of "[]"] run(1,2) by simp
      moreover have "take 2 (appendTo6 bs) \<noteq> ''::''" using c run(1) by auto
      ultimately show ?thesis using x by (simp add: parseIPv6_def tw Let_def AddrFrom16_def)
    qed
  qed
qed

lemma parse_scan_skip:
  assumes "\<forall>c\<in>set pre. c \<noteq> CHR ''.'' \<and> c \<noteq> CHR '':'' \<and> c \<noteq> CHR ''%''"
  shows "parse_scan s (pre @ rest) = parse_scan s rest"
  using assms by (induction pre) auto

lemma ParseAddr_print4: "length bs = 4 \<Longrightarrow> ParseAddr (appendTo4 bs) = Some (AddrFrom4 bs)"
proof -
  assume l: "length bs = 4"
  have "\<forall>c\<in>set (Itoa n). c \<noteq> CHR ''.'' \<and> c \<noteq> CHR '':'' \<and> c \<noteq> CHR ''%''" for n
  proof -
    have "\<not> is_digit (CHR ''.'')" "\<not> is_digit (CHR '':'')" "\<not> is_digit (CHR ''%'')" by code_simp+
    then show ?thesis using Itoa_digits [of n] by metis
  qed
  then have "parse_scan (appendTo4 bs) (appendTo4 bs) = parseIPv4 (appendTo4 bs)"
    by (subst (2) appendTo4_def) (simp add: parse_scan_skip)
  then show ?thesis using parseIPv4_print [OF l] by (simp add: ParseAddr_def parseIPv4_def)
qed

lemma hex_not_special: "hex_value c \<noteq> None \<Longrightarrow> c \<noteq> CHR ''.'' \<and> c \<noteq> CHR '':'' \<and> c \<noteq> CHR ''%'' \<and> c \<noteq> CHR ''/''"
proof -
  have "hex_value (CHR ''.'') = None" "hex_value (CHR '':'') = None" "hex_value (CHR ''%'') = None" "hex_value (CHR ''/'') = None"
    by code_simp+
  then show "hex_value c \<noteq> None \<Longrightarrow> ?thesis" by metis
qed

lemma parse_scan_colon:
  assumes "CHR '':'' \<in> set t" "\<forall>c\<in>set t. c = CHR '':'' \<or> hex_value c \<noteq> None"
  shows "parse_scan s t = parseIPv6 s"
  using assms by (induction t) (use hex_not_special in \<open>auto simp del: not_None_eq\<close>)

lemma appendTo6_chars:
  assumes "length bs = 16"
  shows "CHR '':'' \<in> set (appendTo6 bs) \<and> (\<forall>c\<in>set (appendTo6 bs). c = CHR '':'' \<or> hex_value c \<noteq> None)"
  using assms
proof (cases rule: appendTo6_form)
  case (plain gs)
  obtain g gs' where g: "gs = g # gs'" using plain(2) by (cases gs) auto
  then have "gs' \<noteq> []" using plain(2) by auto
  then have "CHR '':'' \<in> set (appendTo6 bs)" by (simp add: plain(1) g join_groups_Cons)
  then show ?thesis using join_groups_chars [OF plain(3)] plain(1) by metis
next
  case (run gs hs)
  have "\<forall>g\<in>set gs. g < 65536" "\<forall>g\<in>set hs. g < 65536" using run(3) by simp_all
  note c = join_groups_chars [OF this(1)] join_groups_chars [OF this(2)]
  have s: "set (appendTo6 bs) = set (join_groups gs) \<union> {CHR '':''} \<union> set (join_groups hs)" by (simp add: run(1))
  show ?thesis unfolding s using c by blast
qed

lemma ParseAddr_print6: "length bs = 16 \<Longrightarrow> ParseAddr (appendTo6 bs) = Some (AddrFrom16 bs)"
  unfolding ParseAddr_def using parse_scan_colon appendTo6_chars parseIPv6_print by metis

lemma last_slash_snoc: "CHR ''/'' \<notin> set b \<Longrightarrow> last_slash (a @ CHR ''/'' # b) = Some (a, b)"
proof -
  assume "CHR ''/'' \<notin> set b"
  then have "takeWhile (\<lambda>c. c \<noteq> CHR ''/'') (rev (a @ CHR ''/'' # b)) = rev b"
    by (simp add: takeWhile_append)
  then show ?thesis by (simp add: last_slash_def Let_def)
qed

lemma ParsePrefix_String:
  assumes "pfx_ok p" "\<not> Is4In6 (pAddr p)"
  shows "ParsePrefix (prefix_String p) = Some p"
proof -
  note d = pfx_okD [OF assms(1)]
  have slash: "CHR ''/'' \<notin> set (Itoa n)" for n
  proof -
    have "\<not> is_digit (CHR ''/'')" by code_simp
    then show ?thesis using Itoa_digits [of n] by metis
  qed
  define t where "t = (case pAddr p of NoAddr \<Rightarrow> [] | IP4 v \<Rightarrow> appendTo4 (be_bytes 4 v) | IP6 v _ \<Rightarrow> appendTo6 (be_bytes 16 v))"
  have a: "ParseAddr t = Some (pAddr p) \<and> Zone (pAddr p) = ''''"
    using d(2,3) be_word_be_bytes [where 'a = 32 and n = 4] be_word_be_bytes [where 'a = 128 and n = 16]
    by (cases "pAddr p") (simp_all add: t_def ParseAddr_print4 ParseAddr_print6 AddrFrom4_def AddrFrom16_def)
  have v: "prefix_IsValid p" using assms(1) by (simp add: pfx_ok_def)
  then have "prefix_String p = t @ CHR ''/'' # Itoa (nat (prefix_Bits p))"
    using assms(2) by (cases "pAddr p") (auto simp: prefix_String_def t_def)
  then have "ParsePrefix (prefix_String p) =
      (if (if Is6 (pAddr p) then 128 else 32) < nat (prefix_Bits p) then None else Some (PrefixFrom (pAddr p) (int (nat (prefix_Bits p)))))"
    using a by (simp add: ParsePrefix_def last_slash_snoc [OF slash] parse_bits_Itoa)
  moreover have "PrefixFrom (pAddr p) (int (nat (prefix_Bits p))) = p \<and> nat (prefix_Bits p) \<le> (if Is6 (pAddr p) then 128 else 32)"
    using v d a by (cases p; cases "pAddr p") (auto simp: PrefixFrom_def prefix_Bits_def prefix_IsValid_def plen_def pfam_def)
  ultimately show ?thesis by auto
qed

end
