(* ===== verification/Lookup_Request.thy ===== *)
theory Lookup_Request
  imports Netip_Print Policy_Model
begin

text \<open>
  \<open>internal/lookup/types.go\<close> and \<open>internal/lookup/request.go\<close>: the query and response of a
  lookup and the canonical form of a query.

  The direction of a request is still a string, since it comes from the operator. Error texts
  are values of the datatype \<open>failure_message\<close>.
\<close>

section \<open>Requests and responses\<close>

definition SchemaVersion :: int where
  "SchemaVersion = 2"

definition MaxRecords :: int where
  "MaxRecords = 4096"

record Request =
  rq_Address :: string
  rq_Direction :: string
  rq_Protocol :: string
  rq_Port :: "16 word option"

datatype request_error = Address_required | Zones_not_supported | Mapped_not_supported | Invalid_address
  | Unsupported_direction string | Unsupported_protocol string | Port_requires_tcp_or_udp

datatype failure_message = Request_message request_error | Context_message | Dynamic_prefix_message | Dynamic_decision_message
  | Fixed_message string

record Failure =
  fa_Code :: string
  fa_Message :: failure_message

record Ports =
  pt_Start :: "16 word"
  pt_End :: "16 word"

record lookup_Attachment =
  la_Name :: string
  la_Managed :: bool
  la_PortBasis :: string
  la_InputInterfaces :: "string list"
  la_OutputInterfaces :: "string list"

record Evidence =
  ed_Kind :: string
  ed_Name :: string
  ed_Provider :: string
  ed_Release :: string
  ed_Policy :: string
  ed_Role :: string
  ed_Via :: "string list"
  ed_Prefix :: prefix
  ed_Contributing :: bool
  ed_RetrievedAt :: int
  ed_DecisionID :: int
  ed_DecisionDeadline :: int
  ed_LeaseDeadline :: int

record Outcome =
  oc_Prefix :: prefix
  oc_Direction :: Direction
  oc_Protocol :: string
  oc_Ports :: "Ports option"
  oc_Attachment :: lookup_Attachment
  oc_Verdict :: string
  oc_Action :: Action
  oc_Stage :: string
  oc_Policy :: string
  oc_Priority :: int
  oc_Reason :: string
  oc_Evidence :: "Evidence list"

record Response =
  rs_SchemaVersion :: int
  rs_Query :: Request
  rs_Flow :: string
  rs_ObservedAt :: int
  rs_Revision :: string
  rs_ConfigEpoch :: "64 word"
  rs_Manifest :: string
  rs_DynamicEpoch :: "64 word"
  rs_DynamicOperation :: "64 word"
  rs_Verdict :: string
  rs_Outcomes :: "Outcome list"
  rs_Error :: "Failure option"

definition zero_response :: Response where
  "zero_response = \<lparr>rs_SchemaVersion = 0, rs_Query = \<lparr>rq_Address = '''', rq_Direction = '''', rq_Protocol = '''', rq_Port = None\<rparr>,
     rs_Flow = '''', rs_ObservedAt = 0, rs_Revision = '''', rs_ConfigEpoch = 0, rs_Manifest = '''', rs_DynamicEpoch = 0,
     rs_DynamicOperation = 0, rs_Verdict = '''', rs_Outcomes = [], rs_Error = None\<rparr>"

definition Unknown :: "Request \<Rightarrow> string \<Rightarrow> failure_message \<Rightarrow> Response" where
  "Unknown request code message =
     zero_response\<lparr>rs_SchemaVersion := SchemaVersion, rs_Query := request, rs_Flow := ''new'', rs_Verdict := ''unknown'',
       rs_Error := Some \<lparr>fa_Code = code, fa_Message = message\<rparr>\<rparr>"

section \<open>Normalization\<close>

definition check_literal :: "addr \<Rightarrow> request_error + unit" where
  "check_literal a =
     (if Zone a \<noteq> '''' then Inl Zones_not_supported else if Is4In6 a then Inl Mapped_not_supported else Inr ())"

definition request_network :: "string \<Rightarrow> request_error + prefix" where
  "request_network address =
     (case ParsePrefix address of
        Some parsed \<Rightarrow> result_bind (check_literal (pAddr parsed)) (\<lambda>_. Inr (prefix_Masked parsed))
      | None \<Rightarrow>
          (case ParseAddr address of
             None \<Rightarrow> Inl Invalid_address
           | Some a \<Rightarrow> result_bind (check_literal a) (\<lambda>_. Inr (PrefixFrom a (int (BitLen a))))))"

definition request_Normalize :: "Request \<Rightarrow> request_error + Request" where
  "request_Normalize value =
     (if rq_Address value = '''' then Inl Address_required
      else
        result_bind (request_network (rq_Address value)) (\<lambda>network.
          if \<not> prefix_IsValid network then Inl Invalid_address
          else
            result_bind (check_literal (pAddr network)) (\<lambda>_.
              let value = value\<lparr>rq_Address := prefix_String network\<rparr> in
              if rq_Direction value \<notin> {'''', ''ingress'', ''egress''} then Inl (Unsupported_direction (rq_Direction value))
              else if rq_Protocol value \<notin> {'''', ''tcp'', ''udp'', ''icmp'', ''other''} then Inl (Unsupported_protocol (rq_Protocol value))
              else if rq_Port value \<noteq> None \<and> rq_Protocol value \<noteq> ''tcp'' \<and> rq_Protocol value \<noteq> ''udp'' then
                Inl Port_requires_tcp_or_udp
              else Inr value)))"

section \<open>Canonical queries\<close>

lemma PrefixFrom_host_ok: "addr_ok a \<Longrightarrow> pfx_ok (PrefixFrom a (int (BitLen a)))"
  by (cases a) (auto simp: addr_ok_def pfx_ok_iff PrefixFrom_def plen_def pfam_def psize_def plo_def)

lemma check_literal_Inr [simp]: "check_literal a = Inr u \<longleftrightarrow> Zone a = '''' \<and> \<not> Is4In6 a"
  by (simp add: check_literal_def)

lemma request_network_ok:
  assumes "request_network t = Inr p" "prefix_IsValid p"
  shows "pfx_ok p"
proof (cases "ParsePrefix t")
  case (Some q)
  then show ?thesis using assms ParsePrefix_Masked_ok by (auto simp: request_network_def)
next
  case None
  then obtain a where "ParseAddr t = Some a" "Zone a = ''''" "p = PrefixFrom a (int (BitLen a))"
    using assms(1) by (auto simp: request_network_def split: option.splits)
  then show ?thesis using ParseAddr_valid PrefixFrom_host_ok by (auto simp: addr_ok_def)
qed

lemma request_Normalize_Inr:
  assumes "request_Normalize r = Inr n"
  obtains p where "request_network (rq_Address r) = Inr p" "pfx_ok p" "\<not> Is4In6 (pAddr p)"
    "n = r\<lparr>rq_Address := prefix_String p\<rparr>" "ParsePrefix (rq_Address n) = Some p"
    "rq_Direction n \<in> {'''', ''ingress'', ''egress''}" "rq_Protocol n \<in> {'''', ''tcp'', ''udp'', ''icmp'', ''other''}"
    "rq_Port n = None \<or> rq_Protocol n = ''tcp'' \<or> rq_Protocol n = ''udp''"
proof -
  obtain p where p: "request_network (rq_Address r) = Inr p" "prefix_IsValid p" "\<not> Is4In6 (pAddr p)"
    "n = r\<lparr>rq_Address := prefix_String p\<rparr>"
    "rq_Direction r \<in> {'''', ''ingress'', ''egress''}" "rq_Protocol r \<in> {'''', ''tcp'', ''udp'', ''icmp'', ''other''}"
    "rq_Port r = None \<or> rq_Protocol r = ''tcp'' \<or> rq_Protocol r = ''udp''"
    using assms by (auto simp: request_Normalize_def Let_def simp del: insert_iff split: if_splits)
  have ok: "pfx_ok p" using request_network_ok [OF p(1,2)] .
  show thesis by (rule that [of p]) (use p ok ParsePrefix_String [OF ok p(3)] in simp_all)
qed

lemma request_network_denotes:
  assumes "request_network t = Inr p" "pfx_ok p" "addr_ok a"
  shows "prefix_Contains p a \<longleftrightarrow>
    (case ParsePrefix t of Some q \<Rightarrow> prefix_Contains q a | None \<Rightarrow> ParseAddr t = Some a)"
proof (cases "ParsePrefix t")
  case (Some q)
  then have "p = prefix_Masked q" using assms(1) by (auto simp: request_network_def)
  then show ?thesis using Some ParsePrefix_valid [OF Some] prefix_Contains_Masked [of q a] by (auto simp: addr_ok_def)
next
  case None
  then obtain b where b: "ParseAddr t = Some b" "Zone b = ''''" "p = PrefixFrom b (int (BitLen b))"
    using assms(1) by (auto simp: request_network_def split: option.splits)
  have ob: "addr_ok b" using ParseAddr_valid [OF b(1)] b(2) by (simp add: addr_ok_def)
  then have "plo p = aval b" "phi p = aval b" "pfam p = BitLen b" "pfam p \<noteq> 0"
    using b(3) by (cases b; simp add: PrefixFrom_def plo_def phi_def psize_def pfam_def plen_def addr_ok_def)+
  then have "prefix_Contains p a \<longleftrightarrow> BitLen a = BitLen b \<and> aval a = aval b"
    using prefix_Contains_iff [OF assms(2), of a] assms(3) by (auto simp: addr_ok_def)
  then show ?thesis using None b(1) aval_inj [OF assms(3) ob] by auto
qed

section \<open>Properties\<close>

text \<open>
  (C5) A normalized query is a fixed point of \<open>Normalize\<close>, its address parses as a masked
  prefix, and this prefix holds exactly the addresses that the operator's text denotes: those of
  the given prefix, or the one given address.
\<close>

theorem request_Normalize_exact:
  assumes "request_Normalize r = Inr n"
  shows "request_Normalize n = Inr n \<and>
    (\<exists>p. ParsePrefix (rq_Address n) = Some p \<and> pfx_ok p \<and>
      (\<forall>a. addr_ok a \<longrightarrow> (prefix_Contains p a \<longleftrightarrow>
        (case ParsePrefix (rq_Address r) of Some q \<Rightarrow> prefix_Contains q a | None \<Rightarrow> ParseAddr (rq_Address r) = Some a))))"
proof -
  obtain p where p: "request_network (rq_Address r) = Inr p" "pfx_ok p" "\<not> Is4In6 (pAddr p)"
    "n = r\<lparr>rq_Address := prefix_String p\<rparr>" "ParsePrefix (rq_Address n) = Some p"
    "rq_Direction n \<in> {'''', ''ingress'', ''egress''}" "rq_Protocol n \<in> {'''', ''tcp'', ''udp'', ''icmp'', ''other''}"
    "rq_Port n = None \<or> rq_Protocol n = ''tcp'' \<or> rq_Protocol n = ''udp''"
    using request_Normalize_Inr [OF assms] .
  note d = pfx_okD [OF p(2)]
  have e: "rq_Address n \<noteq> ''''"
  proof
    assume "rq_Address n = ''''"
    then have "ParsePrefix '''' = Some p" using p(5) by simp
    then show False by (simp add: ParsePrefix_def last_slash_def)
  qed
  have "request_network (rq_Address n) = Inr p" using p(3,5) d by (simp add: request_network_def)
  moreover have "n\<lparr>rq_Address := prefix_String p\<rparr> = n" using p(4) by simp
  ultimately have "request_Normalize n = Inr n"
    using e d p(3,6-8) by (auto simp: request_Normalize_def Let_def simp del: insert_iff)
  then show ?thesis using p(2,5) request_network_denotes [OF p(1,2)] by blast
qed

theorem request_Normalize_exact_witness:
  "request_Normalize \<lparr>rq_Address = ''10.1.2.3/8'', rq_Direction = ''ingress'', rq_Protocol = ''tcp'', rq_Port = Some 443\<rparr> =
     Inr \<lparr>rq_Address = ''10.0.0.0/8'', rq_Direction = ''ingress'', rq_Protocol = ''tcp'', rq_Port = Some 443\<rparr> \<and>
   request_Normalize \<lparr>rq_Address = ''10.0.0.0/8'', rq_Direction = ''ingress'', rq_Protocol = ''tcp'', rq_Port = Some 443\<rparr> =
     Inr \<lparr>rq_Address = ''10.0.0.0/8'', rq_Direction = ''ingress'', rq_Protocol = ''tcp'', rq_Port = Some 443\<rparr>"
proof -
  have "request_Normalize \<lparr>rq_Address = ''10.1.2.3/8'', rq_Direction = ''ingress'', rq_Protocol = ''tcp'', rq_Port = Some 443\<rparr> =
     Inr \<lparr>rq_Address = ''10.0.0.0/8'', rq_Direction = ''ingress'', rq_Protocol = ''tcp'', rq_Port = Some 443\<rparr>" by code_simp
  with request_Normalize_exact [OF this] show ?thesis by blast
qed

end
