(* ===== verification/Lookup_Static.thy ===== *)
theory Lookup_Static
  imports Lookup_Request Firewall_Target Source_Records Crowdsec_Projection
begin

text \<open>
  \<open>internal/lookup/static.go\<close>: the immutable view of the applied configuration, target and
  source records that a lookup is evaluated against.

  Cloning a slice gives the same value here. Maps with a default (the zero value of a missing
  key) are total functions; the others are partial maps.
\<close>

section \<open>The view\<close>

record sourceRef =
  sf_record :: Record
  sf_via :: "string list"

record policySources =
  py_include :: "sourceRef list"
  py_exclude :: "sourceRef list"

record Static =
  sv_globalAllow :: "prefix list"
  sv_globalBlock :: "prefix list"
  sv_policyList :: "Policy list"
  sv_groups :: "string \<rightharpoonup> string list"
  sv_families :: "FamilyPlan list"
  sv_records :: "Record list"
  sv_manifest :: string
  sv_priorities :: "string \<rightharpoonup> int"
  sv_policies :: "string \<rightharpoonup> Policy"
  sv_sources :: "string \<rightharpoonup> policySources"
  sv_attachments :: "string \<Rightarrow> Attachment list"
  sv_boundaries :: "Family \<Rightarrow> prefix list"
  sv_setIndex :: "Family \<Rightarrow> string \<rightharpoonup> prefix list"
  sv_table :: string
  sv_nft :: bool
  sv_crowdsec :: bool

section \<open>Source references\<close>

type_synonym via_map = "Selector \<rightharpoonup> string list"

definition add_via :: "SelectorKind \<Rightarrow> string \<Rightarrow> string \<Rightarrow> via_map \<Rightarrow> via_map" where
  "add_via kind via name keys =
     (case CanonicalSelector kind name of
        Inl _ \<Rightarrow> keys
      | Inr selector \<Rightarrow>
          if via \<noteq> '''' then keys(selector \<mapsto> (case keys selector of None \<Rightarrow> [] | Some vs \<Rightarrow> vs) @ [via])
          else if keys selector = None then keys(selector \<mapsto> []) else keys)"

definition add_group :: "(string \<rightharpoonup> string list) \<Rightarrow> string \<Rightarrow> via_map \<Rightarrow> via_map" where
  "add_group groups name keys =
     (case (case groups name of None \<Rightarrow> Countries name | Some members \<Rightarrow> Some members) of
        None \<Rightarrow> keys
      | Some members \<Rightarrow> fold (add_via Country (''group:'' @ name)) members keys)"

definition add_rir :: "string \<Rightarrow> via_map \<Rightarrow> via_map" where
  "add_rir name keys =
     (case CanonicalSelector RIR name of
        Inl _ \<Rightarrow> keys
      | Inr region \<Rightarrow> fold (add_via Country (''rir:'' @ sl_Value region)) (RIRCountries (sl_Value region)) keys)"

definition source_keys :: "(string \<rightharpoonup> string list) \<Rightarrow> Selection \<Rightarrow> via_map" where
  "source_keys groups value =
     fold (add_via Provider '''') (se_Providers value)
       (fold (add_via IPList '''') (se_IPLists value)
         (fold (add_via ASN '''') (se_ASNs value)
           (fold add_rir (se_RIRs value)
             (fold (add_group groups) (se_Groups value)
               (fold (add_via Country '''') (se_Countries value) Map.empty)))))"

definition sourceRefs :: "(string \<rightharpoonup> string list) \<Rightarrow> Record list \<Rightarrow> Selection \<Rightarrow> sourceRef list" where
  "sourceRefs groups records value =
     concat (map (\<lambda>record. case source_keys groups value (sr_Selector record) of
        None \<Rightarrow> []
      | Some vias \<Rightarrow> [\<lparr>sf_record = record, sf_via = sort_slice (<) vias\<rparr>]) records)"

section \<open>Indexes\<close>

definition prefix_family :: "prefix \<Rightarrow> Family" where
  "prefix_family value = (if Is4 (pAddr value) then IPv4 else IPv6)"

text \<open>
  The set index of a family after the loop over the plans: a later set replaces an earlier one
  with the same identifier.
\<close>

definition set_index :: "FamilyPlan list \<Rightarrow> Family \<Rightarrow> string \<rightharpoonup> prefix list" where
  "set_index families family =
     fold (\<lambda>plan index. if fp_Family plan = family then fold (\<lambda>s index. index(ps_ID s \<mapsto> ps_Prefixes s)) (fp_Sets plan) index else index)
       families Map.empty"

definition raw_boundaries :: "Static \<Rightarrow> Family \<Rightarrow> prefix list" where
  "raw_boundaries s family =
     concat (map (\<lambda>plan. if fp_Family plan = family then concat (map ps_Prefixes (fp_Sets plan)) else []) (sv_families s)) @
     concat (map (\<lambda>record. if family = IPv4 then sr_IPv4 record else sr_IPv6 record) (sv_records s)) @
     filter (\<lambda>value. prefix_family value = family) (sv_globalAllow s @ sv_globalBlock s)"

definition buildIndexes :: "Static \<Rightarrow> Static" where
  "buildIndexes s =
     s\<lparr>sv_setIndex := set_index (sv_families s),
       sv_boundaries := \<lambda>family. slices_compact (sort_slice prefix_less (raw_boundaries s family))\<rparr>"

definition static_family :: "Static \<Rightarrow> Family \<Rightarrow> FamilyPlan option" where
  "static_family s family = find (\<lambda>value. fp_Family value = family) (sv_families s)"

section \<open>Construction\<close>

definition stringsJoin :: "string list \<Rightarrow> string" where
  "stringsJoin vs = (case vs of [] \<Rightarrow> '''' | v # rest \<Rightarrow> v @ concat (map (\<lambda>w. CHR 0x00 # w) rest))"

definition attachment_less :: "Attachment \<Rightarrow> Attachment \<Rightarrow> bool" where
  "attachment_less left right =
     (if at_Chain left \<noteq> at_Chain right then at_Chain left < at_Chain right
      else if at_OriginalDestination left \<noteq> at_OriginalDestination right then \<not> at_OriginalDestination left
      else stringsJoin (at_InputInterfaces left) < stringsJoin (at_InputInterfaces right))"

text \<open>The fields of the view that do not depend on the target.\<close>

definition config_view :: "Config \<Rightarrow> source_Snapshot \<Rightarrow> Static" where
  "config_view cfg snapshot =
     (let policies = cg_Policies cfg; refs = sourceRefs (cg_Groups cfg) (sn_records snapshot) in
      \<lparr>sv_globalAllow = gl_Allowlist (cg_Global cfg), sv_globalBlock = gl_Blocklist (cg_Global cfg),
       sv_policyList = policies, sv_groups = cg_Groups cfg, sv_families = [], sv_records = sn_records snapshot,
       sv_manifest = sn_manifest snapshot,
       sv_priorities = fold (\<lambda>item m. m(po_Name item \<mapsto> po_Priority item)) policies Map.empty,
       sv_policies = fold (\<lambda>item m. m(po_Name item \<mapsto> item)) policies Map.empty,
       sv_sources = fold (\<lambda>item m. m(po_Name item \<mapsto>
         \<lparr>py_include = refs (po_Include item), py_exclude = refs (po_Exclude item)\<rparr>)) policies Map.empty,
       sv_attachments = \<lambda>_. [], sv_boundaries = \<lambda>_. [], sv_setIndex = \<lambda>_. Map.empty, sv_table = '''',
       sv_nft = False, sv_crowdsec = cs_Enabled (cg_CrowdSec cfg)\<rparr>)"

definition NewStatic ::
  "golib \<Rightarrow> (float64 \<Rightarrow> string) \<Rightarrow> Config \<Rightarrow> Target option \<Rightarrow> source_Snapshot \<Rightarrow> source_error + Static" where
  "NewStatic lib FormatFloat cfg target snapshot =
     (case snapshot_ValidateConfig lib FormatFloat snapshot cfg of
        Some e \<Rightarrow> Inl e
      | None \<Rightarrow>
          (let view = config_view cfg snapshot in
           case target of
             None \<Rightarrow> Inr view
           | Some target \<Rightarrow>
               (let view = buildIndexes
                      (view\<lparr>sv_families := (if length (tg_Families target) = 0 then [] else CloneFamilies (tg_Families target)),
                            sv_table := tg_Table target\<rparr>);
                    view = (case tg_IPTables target of
                      Some iptables \<Rightarrow> view\<lparr>sv_attachments := \<lambda>direction.
                        filter (\<lambda>item. at_Direction item = direction) (ip_Attachments iptables)\<rparr>
                    | None \<Rightarrow> view\<lparr>sv_nft := True\<rparr>) in
                Inr (view\<lparr>sv_attachments := \<lambda>direction. sort_slice attachment_less (sv_attachments view direction)\<rparr>))))"

end
