(* ===== verification/Lookup_Partition.thy ===== *)
theory Lookup_Partition
  imports Lookup_Request Firewall_Dynamic
begin

text \<open>
  The address partition of \<open>internal/lookup/evaluate.go\<close>: \<open>partitionPrefixes\<close> splits the
  queried prefix until no boundary cuts a part, and \<open>mergePrefixes\<close> joins parts with equal
  outcomes again.

  A context is the flag whether it is cancelled. Every poll of the code is a test of the flag; a
  context that is cancelled between two polls leads to the same responses as one that is
  cancelled from the start.
\<close>

definition contextErr :: "bool \<Rightarrow> bool" where
  "contextErr ctx = ctx"

section \<open>Splitting\<close>

definition splitPrefix :: "prefix \<Rightarrow> prefix \<times> prefix \<times> bool" where
  "splitPrefix value =
     (let bits = prefix_Bits value; width = int (BitLen (pAddr value)) in
      if width \<le> bits then (Prefix NoAddr 0, Prefix NoAddr 0, False)
      else
        (let left = prefix_Masked (PrefixFrom (pAddr value) (bits + 1)) in
         if Is4 (pAddr value) then
           (left, prefix_Masked (PrefixFrom (AddrFrom4 (set_byte_bit (nat bits) (As4 (pAddr left)))) (bits + 1)), True)
         else
           (left, prefix_Masked (PrefixFrom (AddrFrom16 (set_byte_bit (nat bits) (As16 (pAddr left)))) (bits + 1)), True)))"

definition work_limit :: int where
  "work_limit = MaxRecords * 8"

text \<open>The closure \<open>add\<close>; \<open>None\<close> is its result false.\<close>

definition add_boundary :: "bool \<Rightarrow> prefix \<Rightarrow> prefix \<Rightarrow> prefix list \<times> bool \<Rightarrow> (prefix list \<times> bool) option" where
  "add_boundary ctx query value state =
     (if contextErr ctx then None
      else if prefix_Bits value \<le> prefix_Bits query \<or> \<not> prefix_Contains query (pAddr value) then Some state
      else if work_limit \<le> int (length (fst state)) then None
      else Some (fst state @ [value], True))"

fun add_boundaries :: "bool \<Rightarrow> prefix \<Rightarrow> prefix list \<Rightarrow> prefix list \<times> bool \<Rightarrow> (prefix list \<times> bool) option" where
  "add_boundaries ctx query [] state = Some state"
| "add_boundaries ctx query (value # rest) state =
     Option.bind (add_boundary ctx query value state) (add_boundaries ctx query rest)"

text \<open>The scan over the boundaries from the start of \<open>node\<close> on.\<close>

fun split_scan :: "prefix \<Rightarrow> prefix list \<Rightarrow> bool" where
  "split_scan node [] = False"
| "split_scan node (boundary # rest) =
     (if \<not> prefix_Contains node (pAddr boundary) then False
      else if prefix_Bits node < prefix_Bits boundary then True
      else split_scan node rest)"

definition needs_split :: "prefix list \<Rightarrow> prefix \<Rightarrow> bool" where
  "needs_split boundaries node =
     split_scan node
       (drop (sort_search (length boundaries) (\<lambda>index. 0 \<le> addr_Compare (pAddr (boundaries ! index)) (pAddr node))) boundaries)"

text \<open>The work list grows with every split, up to its limit, or the index advances.\<close>

function partition_loop :: "bool \<Rightarrow> prefix list \<Rightarrow> prefix list \<Rightarrow> nat \<Rightarrow> prefix list option" where
  "partition_loop ctx boundaries work index =
     (if length work \<le> index then Some work
      else if contextErr ctx then None
      else if \<not> needs_split boundaries (work ! index) then partition_loop ctx boundaries work (Suc index)
      else
        (let (left, right, _) = splitPrefix (work ! index); work = work[index := left] @ [right] in
         if work_limit < int (length work) then None else partition_loop ctx boundaries work index))"
  by pat_completeness auto
termination
  by (relation "(\<lambda>(_, _, work, _). nat (work_limit + 1 - int (length work))) <*mlex*> measure (\<lambda>(_, _, work, index). length work - index)")
    (auto intro: mlex_less mlex_leq wf_mlex)

declare partition_loop.simps [simp del]

definition address_less :: "prefix \<Rightarrow> prefix \<Rightarrow> bool" where
  "address_less p q = (addr_Compare (pAddr p) (pAddr q) < 0)"

definition partitionPrefixes ::
  "bool \<Rightarrow> prefix \<Rightarrow> prefix list \<Rightarrow> TimedPrefix list \<Rightarrow> Decision list \<Rightarrow> prefix list option" where
  "partitionPrefixes ctx query boundaries leases decisions =
     (if contextErr ctx then None
      else if prefix_Bits query = int (BitLen (pAddr query)) then Some [query]
      else
        (let start = sort_search (length boundaries) (\<lambda>index. 0 \<le> addr_Compare (pAddr (boundaries ! index)) (pAddr query));
             boundaries = drop start boundaries;
             end' = sort_search (length boundaries) (\<lambda>index. \<not> prefix_Contains query (pAddr (boundaries ! index)));
             boundaries = take end' boundaries in
         if work_limit < int (length boundaries) then None
         else
           Option.bind (add_boundaries ctx query (map tp_Prefix leases) (boundaries, False)) (\<lambda>state.
           Option.bind (add_boundaries ctx query (map de_Prefix decisions) state) (\<lambda>(boundaries, owned).
             let boundaries = (if owned then slices_compact (sort_slice prefix_less boundaries) else boundaries) in
             map_option (sort_slice address_less) (partition_loop ctx boundaries [query] 0)))))"

definition overlaps :: "prefix \<Rightarrow> prefix \<Rightarrow> bool" where
  "overlaps left right =
     (prefix_IsValid left \<and> prefix_IsValid right \<and> BitLen (pAddr left) = BitLen (pAddr right) \<and>
      (prefix_Contains left (pAddr right) \<or> prefix_Contains right (pAddr left)))"

section \<open>Merging\<close>

text \<open>
  The output slice is kept in reverse, so that its last elements are the first of the list. It
  shares its array with the input, of which it has overwritten only elements read before.
\<close>

definition parent :: "prefix \<Rightarrow> prefix" where
  "parent p = prefix_Masked (PrefixFrom (pAddr p) (prefix_Bits p - 1))"

fun merge_top :: "prefix list \<Rightarrow> prefix list" where
  "merge_top (right # left # out) =
     (if prefix_Bits left = 0 \<or> prefix_Bits left \<noteq> prefix_Bits right then right # left # out
      else if parent right \<noteq> parent left then right # left # out
      else merge_top (parent left # out))"
| "merge_top out = out"

fun merge_prefixes_loop :: "prefix list \<Rightarrow> prefix list \<Rightarrow> prefix list" where
  "merge_prefixes_loop out [] = rev out"
| "merge_prefixes_loop out (value # rest) =
     (if out \<noteq> [] \<and> prefix_Contains (hd out) (pAddr value) \<and> prefix_Bits (hd out) \<le> prefix_Bits value
      then merge_prefixes_loop out rest
      else merge_prefixes_loop (merge_top (value # out)) rest)"

definition mergePrefixes :: "prefix list \<Rightarrow> prefix list" where
  "mergePrefixes vs = merge_prefixes_loop [] (sort_slice prefix_less vs)"

section \<open>Halves\<close>

lemma set_half:
  assumes "LENGTH('a::len) = 8 * n" "length bs = n" "i < 8 * n"
  shows "be_word (set_byte_bit i (be_bytes n (be_word bs :: 'a word))) = (be_word (set_byte_bit i bs) :: 'a word)"
  using assms by (simp add: be_word_set_byte_bit be_word_be_bytes)

lemma splitPrefix_eq:
  assumes "pfx_ok p" "plen p < pfam p"
  shows "splitPrefix p = (fst (split_prefix p), snd (split_prefix p), True)"
proof -
  note ok = pfx_okD [OF assms(1)] and h = split_prefix_halves [OF assms]
  define q where "q = PrefixFrom (pAddr p) (prefix_Bits p + 1)"
  have wz: "withoutZone (pAddr p) = pAddr p" using ok(3) by (cases "pAddr p") auto
  have q: "prefix_IsValid q" "addr_IsValid (pAddr q)" "plen q = Suc (plen p)" "pfam q = pfam p" "pAddr q = pAddr p"
    using ok(2,8) assms(2) wz by (simp_all add: q_def prefix_IsValid_def plen_def pfam_def nat_add_distrib)
  have "psize q dvd plo p" using psize_dvd [of p q] ok(6) q(3,4) by (auto intro: dvd_trans)
  then have "plo (prefix_Masked q) = plo p" using q assms(2) prefix_Masked_ok(4) [of q] by (simp add: plo_def)
  then have left: "prefix_Masked q = fst (split_prefix p)"
    using q assms(2) prefix_Masked_ok [of q] h by (intro prefix_eqI) simp_all
  have bits: "\<not> int (BitLen (pAddr p)) \<le> prefix_Bits p" "nat (prefix_Bits p) = plen p"
    using ok(8) assms(2) by (simp_all add: pfam_def)
  have r: "prefix_Masked (snd (split_prefix p)) = snd (split_prefix p)" using pfx_okD(9) [OF h(2)] .
  have maxb: "\<not> (if Is4 (pAddr p) then 32 else 128) \<le> prefix_Bits p"
    using bits(1) ok(2) by (cases "pAddr p") auto
  show ?thesis
  proof (cases "pAddr p")
    case (IP4 v)
    have l: "fst (split_prefix p) = PrefixFrom (AddrFrom4 (clear_byte_bit (plen p) (be_bytes 4 v))) (prefix_Bits p + 1)"
      using maxb IP4 bits(2) by (simp add: split_prefix_def Let_def)
    have "set_byte_bit (plen p) (As4 (pAddr (fst (split_prefix p)))) =
        set_byte_bit (plen p) (be_bytes 4 (be_word (clear_byte_bit (plen p) (be_bytes 4 v)) :: 32 word))"
      by (simp add: l AddrFrom4_def)
    moreover have "snd (split_prefix p) = PrefixFrom (AddrFrom4 (set_byte_bit (plen p) (clear_byte_bit (plen p) (be_bytes 4 v)))) (prefix_Bits p + 1)"
      using maxb IP4 bits(2) by (simp add: split_prefix_def Let_def)
    moreover have "be_word (set_byte_bit (plen p) (be_bytes 4 (be_word (clear_byte_bit (plen p) (be_bytes 4 v)) :: 32 word))) =
        (be_word (set_byte_bit (plen p) (clear_byte_bit (plen p) (be_bytes 4 v))) :: 32 word)"
      using assms(2) IP4 by (intro set_half) (simp_all add: pfam_def)
    ultimately show ?thesis
      using r left bits IP4 unfolding splitPrefix_def Let_def q_def by (simp add: AddrFrom4_def)
  next
    case (IP6 v z)
    have l: "fst (split_prefix p) = PrefixFrom (AddrFrom16 (clear_byte_bit (plen p) (be_bytes 16 v))) (prefix_Bits p + 1)"
      using maxb IP6 bits(2) by (simp add: split_prefix_def Let_def)
    have "set_byte_bit (plen p) (As16 (pAddr (fst (split_prefix p)))) =
        set_byte_bit (plen p) (be_bytes 16 (be_word (clear_byte_bit (plen p) (be_bytes 16 v)) :: 128 word))"
      by (simp add: l AddrFrom16_def)
    moreover have "snd (split_prefix p) = PrefixFrom (AddrFrom16 (set_byte_bit (plen p) (clear_byte_bit (plen p) (be_bytes 16 v)))) (prefix_Bits p + 1)"
      using maxb IP6 bits(2) by (simp add: split_prefix_def Let_def)
    moreover have "be_word (set_byte_bit (plen p) (be_bytes 16 (be_word (clear_byte_bit (plen p) (be_bytes 16 v)) :: 128 word))) =
        (be_word (set_byte_bit (plen p) (clear_byte_bit (plen p) (be_bytes 16 v))) :: 128 word)"
      using assms(2) IP6 by (intro set_half) (simp_all add: pfam_def)
    ultimately show ?thesis
      using r left bits IP6 unfolding splitPrefix_def Let_def q_def by (simp add: AddrFrom16_def)
  qed (use ok(2) in simp)
qed

lemma halves_contain:
  assumes "pfx_ok p" "plen p < pfam p"
  shows "prefix_Contains p a \<longleftrightarrow> prefix_Contains (fst (split_prefix p)) a \<or> prefix_Contains (snd (split_prefix p)) a"
    and "disjoint_pair (fst (split_prefix p)) (snd (split_prefix p))"
proof -
  note h = split_prefix_halves [OF assms]
  have "plo p \<le> phi (fst (split_prefix p))" "plo (snd (split_prefix p)) \<le> phi p"
    using plo_le_phi [of "fst (split_prefix p)"] plo_le_phi [of "snd (split_prefix p)"] unfolding h by simp_all
  then show "prefix_Contains p a \<longleftrightarrow> prefix_Contains (fst (split_prefix p)) a \<or> prefix_Contains (snd (split_prefix p)) a"
    unfolding prefix_Contains_iff [OF assms(1)] prefix_Contains_iff [OF h(1)] prefix_Contains_iff [OF h(2)] h(3,4,7,8,9) by auto
  show "disjoint_pair (fst (split_prefix p)) (snd (split_prefix p))"
    unfolding disjoint_pair_def prefix_Contains_iff [OF h(1)] prefix_Contains_iff [OF h(2)] h(9) by auto
qed

section \<open>Boundaries\<close>

text \<open>A boundary cuts a part when it lies strictly inside.\<close>

definition cuts :: "prefix \<Rightarrow> prefix \<Rightarrow> bool" where
  "cuts b p = (prefix_Contains p (pAddr b) \<and> plen p < plen b)"

definition ordered :: "prefix list \<Rightarrow> bool" where
  "ordered bs = ((\<forall>b\<in>set bs. pfx_ok b) \<and> sorted_wrt (\<lambda>x y. \<not> prefix_less y x) bs)"

lemma ordered_Cons: "ordered (b # bs) \<longleftrightarrow> pfx_ok b \<and> ordered bs \<and> (\<forall>c\<in>set bs. \<not> prefix_less c b)"
  by (auto simp: ordered_def)

lemma not_less_addr:
  assumes "pfx_ok b" "pfx_ok c" "\<not> prefix_less c b"
  shows "pfam b < pfam c \<or> pfam b = pfam c \<and> plo b \<le> plo c"
  using assms prefix_less_iff [OF assms(2,1)] by auto

lemma ordered_upward_start:
  assumes "ordered bs" "addr_ok a"
  shows "upward (\<lambda>b. 0 \<le> addr_Compare (pAddr b) a) bs"
  using assms(1)
proof (induction bs)
  case (Cons b bs)
  have "0 \<le> addr_Compare (pAddr c) a" if "c \<in> set bs" "0 \<le> addr_Compare (pAddr b) a" for c
  proof -
    have "pfx_ok b" "pfx_ok c" "\<not> prefix_less c b" using Cons.prems that by (auto simp: ordered_def)
    then show ?thesis
      using not_less_addr [of b c] that(2) pfx_okD(1) [of b] pfx_okD(1) [of c] assms(2)
      by (auto simp: addr_Compare_ge pfam_def plo_def)
  qed
  then show ?case using Cons by (auto simp: ordered_Cons)
qed simp

lemma ordered_upward_outside:
  assumes "ordered bs" "pfx_ok p" "\<forall>b\<in>set bs. 0 \<le> addr_Compare (pAddr b) (pAddr p)"
  shows "upward (\<lambda>b. \<not> prefix_Contains p (pAddr b)) bs"
  using assms(1,3)
proof (induction bs)
  case (Cons b bs)
  have "\<not> prefix_Contains p (pAddr c)" if "c \<in> set bs" "\<not> prefix_Contains p (pAddr b)" for c
  proof -
    have ok: "pfx_ok b" "pfx_ok c" "\<not> prefix_less c b" "0 \<le> addr_Compare (pAddr b) (pAddr p)"
      using Cons.prems that by (auto simp: ordered_def)
    then show ?thesis
      using not_less_addr [of b c] that(2) pfx_okD(1) [OF ok(1)] pfx_okD(1) [OF assms(2)]
      by (auto simp: addr_Compare_ge pfam_def plo_def prefix_Contains_iff [OF assms(2)])
  qed
  then show ?case using Cons by (auto simp: ordered_Cons)
qed simp

lemma split_scan_takeWhile: "split_scan p bs \<longleftrightarrow> (\<exists>b\<in>set (takeWhile (\<lambda>b. prefix_Contains p (pAddr b)) bs). prefix_Bits p < prefix_Bits b)"
  by (induction bs) auto

lemma start_Contains:
  assumes "pfx_ok p" "addr_ok a" "prefix_Contains p a"
  shows "0 \<le> addr_Compare a (pAddr p)"
  using assms pfx_okD(1) [OF assms(1)] by (auto simp: addr_Compare_ge prefix_Contains_iff pfam_def plo_def)

lemma needs_split_iff:
  assumes "ordered bs" "pfx_ok p"
  shows "needs_split bs p \<longleftrightarrow> (\<exists>b\<in>set bs. cuts b p)"
proof -
  let ?ge = "\<lambda>b. 0 \<le> addr_Compare (pAddr b) (pAddr p)" and ?in = "\<lambda>b. prefix_Contains p (pAddr b)"
  note up = ordered_upward_start [OF assms(1) pfx_okD(1) [OF assms(2)]]
  have d: "drop (sort_search (length bs) (\<lambda>i. ?ge (bs ! i))) bs = filter ?ge bs"
    using drop_sort_search [OF up] dropWhile_upward [OF up] by simp
  have o: "ordered (filter ?ge bs)" using assms(1) by (auto simp: ordered_def sorted_wrt_filter)
  have "takeWhile ?in (filter ?ge bs) = filter ?in (filter ?ge bs)"
    using takeWhile_upward [OF ordered_upward_outside [OF o assms(2)]] by simp
  then have "needs_split bs p \<longleftrightarrow> (\<exists>b\<in>set bs. ?ge b \<and> ?in b \<and> prefix_Bits p < prefix_Bits b)"
    unfolding needs_split_def d split_scan_takeWhile by auto
  also have "\<dots> \<longleftrightarrow> (\<exists>b\<in>set bs. cuts b p)"
  proof -
    have "?ge b \<and> ?in b \<and> prefix_Bits p < prefix_Bits b \<longleftrightarrow> cuts b p" if "b \<in> set bs" for b
    proof -
      have "pfx_ok b" using that assms(1) by (simp add: ordered_def)
      note b = pfx_okD [OF this] and p = pfx_okD [OF assms(2)]
      show ?thesis using start_Contains [OF assms(2) b(1)] b(8) p(8) by (auto simp: cuts_def)
    qed
    then show ?thesis by blast
  qed
  finally show ?thesis .
qed

section \<open>The partition\<close>

definition part_of :: "prefix \<Rightarrow> prefix list \<Rightarrow> bool" where
  "part_of q ws = ((\<forall>w\<in>set ws. pfx_ok w \<and> pfam w = pfam q) \<and> sorted_wrt disjoint_pair ws \<and> (\<forall>a. covers ws a = prefix_Contains q a))"

lemma part_of_split:
  assumes "part_of q ws" "i < length ws" "plen (ws ! i) < pfam (ws ! i)"
  shows "part_of q (ws[i := fst (split_prefix (ws ! i))] @ [snd (split_prefix (ws ! i))])"
proof -
  let ?p = "ws ! i" and ?xs = "take i ws" and ?ys = "drop (Suc i) ws"
  let ?l = "fst (split_prefix ?p)" and ?r = "snd (split_prefix ?p)"
  have ws: "ws = ?xs @ ?p # ?ys" using assms(2) by (rule id_take_nth_drop)
  have ok: "pfx_ok ?p" "pfam ?p = pfam q" using assms(1,2) by (auto simp: part_of_def)
  note h = split_prefix_halves [OF ok(1) assms(3)] and c = halves_contain [OF ok(1) assms(3)]
  have new: "ws[i := ?l] @ [?r] = ?xs @ ?l # ?ys @ [?r]" using assms(2) by (simp add: upd_conv_take_nth_drop)
  have old: "sorted_wrt disjoint_pair (?p # ?xs @ ?ys)"
  proof -
    have "sorted_wrt disjoint_pair (?xs @ ?p # ?ys)" using assms(1) ws by (simp add: part_of_def)
    then show ?thesis using sorted_wrt_perm [OF symp_disjoint_pair, of "?p # ?xs @ ?ys" "?xs @ ?p # ?ys"] by simp
  qed
  have "sorted_wrt disjoint_pair (?l # ?r # ?xs @ ?ys)"
    using old c by (auto simp: disjoint_pair_def)
  then have "sorted_wrt disjoint_pair (ws[i := ?l] @ [?r])"
    unfolding new by (subst sorted_wrt_perm [OF symp_disjoint_pair, of _ "?l # ?r # ?xs @ ?ys"]) simp_all
  moreover have "covers (ws[i := ?l] @ [?r]) a = covers ws a" for a
    unfolding new by (subst (4) ws) (auto simp: c(1))
  moreover have "\<forall>w\<in>set (ws[i := ?l] @ [?r]). pfx_ok w \<and> pfam w = pfam q"
    using assms(1) h ok(2) set_update_subset_insert [of ws i ?l] by (auto simp: part_of_def)
  ultimately show ?thesis using assms(1) by (auto simp: part_of_def)
qed

lemma partition_loop_correct:
  assumes "partition_loop ctx bs ws i = Some vs" "ordered bs" "part_of q ws" "\<forall>k<i. k < length ws \<longrightarrow> \<not> needs_split bs (ws ! k)"
  shows "part_of q vs \<and> (\<forall>v\<in>set vs. \<forall>b\<in>set bs. \<not> cuts b v)"
  using assms
proof (induction ctx bs ws i rule: partition_loop.induct)
  case (1 ctx bs ws i)
  show ?case
  proof (cases "length ws \<le> i")
    case True
    then have "vs = ws" using 1(3) by (simp add: partition_loop.simps [of ctx bs ws i])
    moreover have "\<not> needs_split bs w" if "w \<in> set ws" for w using 1(6) True that by (auto simp: in_set_conv_nth)
    ultimately show ?thesis using 1(4,5) needs_split_iff [OF 1(4)] by (auto simp: part_of_def)
  next
    case False
    let ?p = "ws ! i"
    have ok: "pfx_ok ?p" using 1(5) False by (auto simp: part_of_def)
    have ctx: "\<not> contextErr ctx" using 1(3) False by (auto simp: partition_loop.simps [of ctx bs ws i])
    show ?thesis
    proof (cases "needs_split bs ?p")
      case n: False
      then have "partition_loop ctx bs ws (Suc i) = Some vs" using 1(3) False ctx by (simp add: partition_loop.simps [of ctx bs ws i])
      moreover have "\<forall>k<Suc i. k < length ws \<longrightarrow> \<not> needs_split bs (ws ! k)" using 1(6) n by (auto simp: less_Suc_eq)
      ultimately show ?thesis using 1(1) [OF False ctx] n 1(4,5) by blast
    next
      case n: True
      then obtain b where b: "b \<in> set bs" "cuts b ?p" using needs_split_iff [OF 1(4) ok] by blast
      then have "pfx_ok b" using 1(4) by (simp add: ordered_def)
      then have lt: "plen ?p < pfam ?p"
        using b(2) pfx_okD(5) [of b] by (auto simp: cuts_def prefix_Contains_iff [OF ok] pfam_def)
      let ?ws = "ws[i := fst (split_prefix ?p)] @ [snd (split_prefix ?p)]"
      note s = splitPrefix_eq [OF ok lt]
      have "\<not> work_limit < int (length ?ws) \<and> partition_loop ctx bs ?ws i = Some vs"
        using 1(3) False ctx n s by (simp add: partition_loop.simps [of ctx bs ws i] Let_def split: if_splits)
      moreover have "part_of q ?ws" using part_of_split [OF 1(5) _ lt] False by simp
      moreover have "\<forall>k<i. k < length ?ws \<longrightarrow> \<not> needs_split bs (?ws ! k)"
        using 1(6) False by (auto simp: nth_append)
      ultimately show ?thesis using 1(2) [OF False ctx] n s 1(4) by simp
    qed
  qed
qed

lemma part_within:
  assumes "part_of q ws" "pfx_ok q" "w \<in> set ws"
  shows "plo q \<le> plo w" "phi w \<le> phi q" "plen q \<le> plen w"
proof -
  have w: "pfx_ok w" "pfam w = pfam q" using assms(1,3) by (auto simp: part_of_def)
  have sub: "prefix_Contains q a" if "prefix_Contains w a" for a
    using assms(1,3) that by (auto simp: part_of_def covers_def)
  have "prefix_Contains w (pAddr w)" using pfx_okD(1) [OF w(1)] by (simp add: prefix_Contains_iff [OF w(1)] pfam_def plo_def [symmetric])
  then show lo: "plo q \<le> plo w" using sub by (simp add: prefix_Contains_iff [OF assms(2)] plo_def)
  have "prefix_Contains w (prefixEnd w)" using prefixEnd_end [OF w(1)] by (simp add: prefix_Contains_iff [OF w(1)])
  then show hi: "phi w \<le> phi q" using sub [of "prefixEnd w"] prefixEnd_end(3) [OF w(1)] prefix_Contains_iff [OF assms(2)] by metis
  show "plen q \<le> plen w"
  proof (rule ccontr)
    assume "\<not> plen q \<le> plen w"
    then have "plen w < plen q" by simp
    then have "psize q < psize w" using w(2) pfx_okD(5) [OF w(1)] pfx_okD(5) [OF assms(2)]
      unfolding psize_def w(2) by (intro power_strict_increasing) linarith+
    then show False using lo hi psize_pos [of q] unfolding phi_def by linarith
  qed
qed

text \<open>A boundary that does not cut a part treats all its addresses alike.\<close>

lemma uncut_uniform:
  assumes "pfx_ok b" "pfx_ok w" "\<not> cuts b w" "prefix_Contains w x" "prefix_Contains w y"
  shows "prefix_Contains b x = prefix_Contains b y"
proof (cases "pfam b = pfam w")
  case False
  then show ?thesis using assms(4,5) by (auto simp: prefix_Contains_iff [OF assms(1)] prefix_Contains_iff [OF assms(2)])
next
  case fam: True
  have "phi b < plo w \<or> phi w < plo b \<or> plo b \<le> plo w \<and> phi w \<le> phi b"
  proof -
    consider "plo b < plo w" | "plo w \<le> plo b" "plo b \<le> phi w" | "phi w < plo b" by linarith
    then show ?thesis
    proof cases
      case 1
      then show ?thesis using pfx_nested_less(1) [OF assms(1,2) fam] by linarith
    next
      case 2
      have "prefix_Contains w (pAddr b)"
        using 2 fam pfx_okD(1) [OF assms(1)] by (auto simp: prefix_Contains_iff [OF assms(2)] pfam_def plo_def)
      then have le: "plen b \<le> plen w" using assms(3) by (simp add: cuts_def)
      then have "plo b = plo w" using pfx_same_start [OF assms(2,1) fam [symmetric] 2] by simp
      moreover have "phi w \<le> phi b" using pfx_nested [OF assms(1,2) fam] le \<open>plo b = plo w\<close> plo_le_phi [of b] by (metis order_refl)
      ultimately show ?thesis by simp
    qed simp
  qed
  then show ?thesis using assms(4,5) fam by (auto simp: prefix_Contains_iff [OF assms(1)] prefix_Contains_iff [OF assms(2)])
qed

lemma covers_uniform:
  assumes "\<forall>b\<in>set bs. pfx_ok b \<and> \<not> cuts b w" "pfx_ok w" "prefix_Contains w x" "prefix_Contains w y"
  shows "covers bs x = covers bs y"
  using assms uncut_uniform unfolding covers_def by blast

lemma address_less_key:
  "address_less p q \<longleftrightarrow>
     (BitLen (pAddr p), aval (pAddr p), Zone (pAddr p)) < (BitLen (pAddr q), aval (pAddr q), Zone (pAddr q))"
  by (cases "pAddr p"; cases "pAddr q") (auto simp: address_less_def cmp_def word_less_nat_alt word_unat_eq_iff split: if_splits)

interpretation address_order: strict_weak address_less
  by (rule strict_weak_key [where f = "\<lambda>p. (BitLen (pAddr p), aval (pAddr p), Zone (pAddr p))"])
    (rule address_less_key)

lemma part_canonical:
  assumes "part_of q ws"
  shows "canonical (sort_slice address_less ws)"
proof -
  let ?s = "sort_slice address_less ws"
  have ok: "\<forall>w\<in>set ?s. pfx_ok w \<and> pfam w = pfam q" using assms by (simp add: part_of_def)
  have "sorted_wrt disjoint_pair ?s"
    using assms sorted_wrt_perm [OF symp_disjoint_pair, of ?s ws] by (simp add: part_of_def)
  then have "sorted_wrt (\<lambda>x y. disjoint_pair x y \<and> \<not> address_less y x) ?s"
    using address_order.sorted_sort_slice [of ws] by (simp add: sorted_wrt_iff_nth_less)
  then have "sorted_wrt pbefore ?s"
  proof (rule sorted_wrt_mono_rel [rotated])
    fix x y assume xy: "x \<in> set ?s" "y \<in> set ?s" "disjoint_pair x y \<and> \<not> address_less y x"
    have o: "pfx_ok x" "pfx_ok y" "pfam x = pfam y" using ok xy(1,2) by auto
    have lo: "plo x \<le> plo y"
      using xy(3) o pfx_okD(1) [OF o(1)] pfx_okD(1) [OF o(2)]
      by (auto simp: address_less_def addr_Compare_less pfam_def plo_def)
    have "\<not> plo y \<le> phi x"
    proof
      assume "plo y \<le> phi x"
      then have "prefix_Contains x (pAddr y)" "prefix_Contains y (pAddr y)"
        using lo o pfx_okD(1) [OF o(2)] plo_le_phi [of y]
        by (auto simp: prefix_Contains_iff [OF o(1)] prefix_Contains_iff [OF o(2)] pfam_def plo_def [symmetric])
      then show False using xy(3) by (auto simp: disjoint_pair_def)
    qed
    then show "pbefore x y" using o(3) by (simp add: pbefore_def)
  qed
  then show ?thesis using ok by (simp add: canonical_def)
qed

lemma add_boundaries_Some:
  assumes "add_boundaries ctx q vs (bs, owned) = Some (cs, owned')"
  shows "set cs = set bs \<union> {v \<in> set vs. prefix_Bits q < prefix_Bits v \<and> prefix_Contains q (pAddr v)} \<and> (\<not> owned' \<longrightarrow> cs = bs \<and> \<not> owned)"
  using assms
proof (induction vs arbitrary: bs owned)
  case (Cons v vs)
  then show ?case
    by (fastforce simp: add_boundary_def not_le split: if_splits bind_splits)
qed simp

lemma partition_boundaries:
  assumes "ordered bs" "pfx_ok q"
  defines "start \<equiv> sort_search (length bs) (\<lambda>i. 0 \<le> addr_Compare (pAddr (bs ! i)) (pAddr q))"
  defines "cs \<equiv> drop start bs"
  defines "end' \<equiv> sort_search (length cs) (\<lambda>i. \<not> prefix_Contains q (pAddr (cs ! i)))"
  shows "ordered (take end' cs) \<and> set (take end' cs) = {b \<in> set bs. prefix_Contains q (pAddr b)}"
proof -
  let ?ge = "\<lambda>b. 0 \<le> addr_Compare (pAddr b) (pAddr q)" and ?in = "\<lambda>b. prefix_Contains q (pAddr b)"
  note up = ordered_upward_start [OF assms(1) pfx_okD(1) [OF assms(2)]]
  have cs: "cs = filter ?ge bs" unfolding cs_def start_def using drop_sort_search [OF up] dropWhile_upward [OF up] by simp
  have o: "ordered cs" using assms(1) unfolding cs by (auto simp: ordered_def sorted_wrt_filter)
  have up': "upward (\<lambda>b. \<not> ?in b) cs" using o assms(2) by (rule ordered_upward_outside) (simp add: cs)
  have "take end' cs = filter ?in cs"
    unfolding end'_def using take_sort_search [OF up'] takeWhile_upward [OF up'] by simp
  moreover have "?ge b" if "b \<in> set bs" "?in b" for b
    using that assms(1) start_Contains [OF assms(2) pfx_okD(1)] by (auto simp: ordered_def)
  moreover have "ordered (filter ?in cs)" using o by (auto simp: ordered_def sorted_wrt_filter)
  ultimately show ?thesis by (auto simp: cs)
qed

text \<open>
  The result of the partition: disjoint ascending parts of the query that no boundary, lease or
  decision cuts.
\<close>

lemma partition_correct:
  assumes "partitionPrefixes ctx q bs leases decisions = Some ws" "ordered bs" "pfx_ok q"
    and "\<forall>l\<in>set leases. pfx_ok (tp_Prefix l)" "\<forall>d\<in>set decisions. pfx_ok (de_Prefix d)"
  shows "canonical ws \<and> (\<forall>w\<in>set ws. pfam w = pfam q) \<and> (\<forall>a. covers ws a = prefix_Contains q a) \<and>
    (\<forall>w\<in>set ws. \<forall>b\<in>set bs \<union> tp_Prefix ` set leases \<union> de_Prefix ` set decisions. \<not> cuts b w)"
proof -
  note qd = pfx_okD [OF assms(3)]
  have all_ok: "\<forall>b\<in>set bs \<union> tp_Prefix ` set leases \<union> de_Prefix ` set decisions. pfx_ok b"
    using assms(2,4,5) by (auto simp: ordered_def)
  have single: "part_of q [q]" using assms(3) by (simp add: part_of_def)
  show ?thesis
  proof (cases "plen q = pfam q")
    case True
    then have ws: "ws = [q]" using assms(1) qd(8) by (auto simp: partitionPrefixes_def pfam_def split: if_splits)
    have "\<not> cuts b q" if "pfx_ok b" for b
      using True pfx_okD(5) [OF that] by (auto simp: cuts_def prefix_Contains_iff [OF assms(3)] pfam_def)
    then show ?thesis using all_ok assms(3) unfolding ws by (auto simp: canonical_def)
  next
    case False
    define start where "start = sort_search (length bs) (\<lambda>i. 0 \<le> addr_Compare (pAddr (bs ! i)) (pAddr q))"
    define cs where "cs = drop start bs"
    define end' where "end' = sort_search (length cs) (\<lambda>i. \<not> prefix_Contains q (pAddr (cs ! i)))"
    have t: "ordered (take end' cs)" "set (take end' cs) = {b \<in> set bs. prefix_Contains q (pAddr b)}"
      using partition_boundaries [OF assms(2,3)] unfolding end'_def cs_def start_def by auto
    have nb: "prefix_Bits q \<noteq> int (BitLen (pAddr q))" using False qd(8) by (simp add: pfam_def)
    obtain ds o1 es o2 vs where s: "add_boundaries ctx q (map tp_Prefix leases) (take end' cs, False) = Some (ds, o1)"
      "add_boundaries ctx q (map de_Prefix decisions) (ds, o1) = Some (es, o2)"
      "partition_loop ctx (if o2 then slices_compact (sort_slice prefix_less es) else es) [q] 0 = Some vs"
      "ws = sort_slice address_less vs"
      using assms(1) nb unfolding partitionPrefixes_def Let_def start_def cs_def end'_def
      by (auto split: if_splits bind_splits)
    let ?fs = "if o2 then slices_compact (sort_slice prefix_less es) else es"
    note a = add_boundaries_Some [OF s(1)] add_boundaries_Some [OF s(2)]
    have set_fs: "set ?fs = {b \<in> set bs. prefix_Contains q (pAddr b)} \<union>
        {v \<in> tp_Prefix ` set leases \<union> de_Prefix ` set decisions. prefix_Bits q < prefix_Bits v \<and> prefix_Contains q (pAddr v)}"
      using a t(2) by auto
    have "ordered ?fs"
    proof (cases o2)
      case True
      have "\<forall>b\<in>set es. pfx_ok b" using all_ok set_fs True by auto
      then show ?thesis
        using True prefix_order.sorted_sort_slice [of es] by (simp add: ordered_def sorted_wrt_slices_compact)
    next
      case f: False
      then show ?thesis using a t(1) by simp
    qed
    note l = partition_loop_correct [OF s(3) this single]
    then have p: "part_of q vs" and nc: "\<forall>v\<in>set vs. \<forall>b\<in>set ?fs. \<not> cuts b v" by auto
    have "\<not> cuts b v" if v: "v \<in> set vs" and b: "b \<in> set bs \<union> tp_Prefix ` set leases \<union> de_Prefix ` set decisions" for v b
    proof
      assume c: "cuts b v"
      have q: "prefix_Contains q (pAddr b)" using c v p by (auto simp: cuts_def part_of_def covers_def)
      have "plen q < plen b" using part_within(3) [OF p assms(3) v] c by (auto simp: cuts_def)
      then have "prefix_Bits q < prefix_Bits b" using b all_ok qd(8) pfx_okD(8) [of b] by auto
      then have "b \<in> set ?fs" unfolding set_fs using q b by blast
      then show False using nc v c by blast
    qed
    then show ?thesis using part_canonical [OF p] p unfolding s(4) by (auto simp: part_of_def covers_def)
  qed
qed

section \<open>Merging is exact\<close>

lemma parent_ok:
  assumes "pfx_ok p" "prefix_Bits p \<noteq> 0"
  shows "pfx_ok (parent p)" "pfam (parent p) = pfam p" "Suc (plen (parent p)) = plen p"
    "plo (parent p) \<le> plo p" "phi p \<le> phi (parent p)" "psize (parent p) = 2 * psize p"
proof -
  note ok = pfx_okD [OF assms(1)]
  define q where "q = PrefixFrom (pAddr p) (prefix_Bits p - 1)"
  have n: "plen p \<noteq> 0" using assms(2) ok(8) by simp
  have wz: "withoutZone (pAddr p) = pAddr p" using ok(3) by (cases "pAddr p") auto
  have le: "plen p \<le> BitLen (pAddr p)" using ok(5) by (simp add: pfam_def)
  have q: "prefix_IsValid q" "addr_IsValid (pAddr q)" "plen q = plen p - 1" "pfam q = pfam p" "pAddr q = pAddr p"
  proof -
    have b: "prefix_Bits p - 1 = int (plen p - 1)" using ok(8) n by (simp add: of_nat_diff)
    show "prefix_IsValid q" "addr_IsValid (pAddr q)" "plen q = plen p - 1" "pfam q = pfam p" "pAddr q = pAddr p"
      unfolding q_def b using ok(2) le wz by (simp_all add: prefix_IsValid_def plen_def pfam_def)
  qed
  have e: "parent p = prefix_Masked q" by (simp add: parent_def q_def)
  have pl: "plen q \<le> pfam q" using q(3,4) ok(5) by simp
  note m = prefix_Masked_ok [OF q(1,2) pl]
  show pok: "pfx_ok (parent p)" and fam: "pfam (parent p) = pfam p" and len: "Suc (plen (parent p)) = plen p"
    using m q n by (simp_all add: e)
  show lo: "plo (parent p) \<le> plo p" using m(4) q(5) by (simp add: e plo_def)
  have "prefix_Contains (parent p) (pAddr p)"
    unfolding e prefix_Contains_Masked [OF q(1,2) pl] using q ok(1) by (simp add: prefix_Contains_div pfam_def)
  then show "phi p \<le> phi (parent p)"
    using pfx_nested [OF pok assms(1) fam] len by (simp add: prefix_Contains_iff [OF pok] plo_def)
  have "pfam p - plen (parent p) = Suc (pfam p - plen p)" using len ok(5) by linarith
  then show "psize (parent p) = 2 * psize p" unfolding psize_def fam by simp
qed

lemma siblings:
  assumes "pfx_ok l" "pfx_ok r" "pbefore l r" "pfam l = pfam r" "prefix_Bits l \<noteq> 0" "prefix_Bits l = prefix_Bits r" "parent r = parent l"
  shows "plo (parent l) = plo l" "phi (parent l) = phi r" "plo r = Suc (phi l)"
proof -
  note pl = parent_ok [OF assms(1,5)]
  have rb: "prefix_Bits r \<noteq> 0" using assms(5,6) by simp
  note pr = parent_ok [OF assms(2) rb, unfolded assms(7)]
  have s: "psize r = psize l" using pl(6) pr(6) by simp
  have "phi l < plo r" using assms(3,4) by (simp add: pbefore_def)
  then show "plo (parent l) = plo l" "phi (parent l) = phi r" "plo r = Suc (phi l)"
    using pl(4,5,6) pr(4,5) s psize_pos [of l] psize_pos [of r] psize_pos [of "parent l"] unfolding phi_def by linarith+
qed

declare merge_top.simps [simp del]

lemma merge_top_correct:
  assumes "canonical (rev out)" "\<forall>p\<in>set out. pfam p = F"
  shows "canonical (rev (merge_top out)) \<and> (\<forall>p\<in>set (merge_top out). pfam p = F) \<and>
    (\<forall>a. covers (merge_top out) a = covers out a) \<and>
    (out \<noteq> [] \<longrightarrow> merge_top out \<noteq> [] \<and> plo (hd (merge_top out)) \<le> plo (hd out) \<and> plen (hd (merge_top out)) \<le> plen (hd out))"
  using assms
proof (induction out rule: merge_top.induct)
  case (1 r l out)
  show ?case
  proof (cases "prefix_Bits l = 0 \<or> prefix_Bits l \<noteq> prefix_Bits r \<or> parent r \<noteq> parent l")
    case True
    then have "merge_top (r # l # out) = r # l # out" by (auto simp: merge_top.simps(1))
    then show ?thesis using 1(2,3) by simp
  next
    case False
    have ok: "pfx_ok l" "pfx_ok r" "pbefore l r" "pfam l = F" "pfam r = F" "\<forall>p\<in>set out. pbefore p l"
      using 1(2,3) by (auto simp: canonical_def sorted_wrt_append)
    have lb: "prefix_Bits l \<noteq> 0" and rb: "prefix_Bits r \<noteq> 0" using False by auto
    note pl = parent_ok [OF ok(1) lb] and pr = parent_ok [OF ok(2) rb]
    have fam: "pfam l = pfam r" using ok by simp
    have s: "plo (parent l) = plo l" "phi (parent l) = phi r" "plo r = Suc (phi l)"
      using siblings [OF ok(1-3) fam lb] False by auto
    have can: "canonical (rev (parent l # out))"
      using 1(2) ok(6) pl(1,2) s(1) by (auto simp: canonical_append canonical_Cons pbefore_def)
    have cov: "prefix_Contains (parent l) a \<longleftrightarrow> prefix_Contains l a \<or> prefix_Contains r a" for a
    proof -
      have "plo l \<le> phi l" "phi l < phi r" using plo_le_phi [of l] plo_le_phi [of r] s(3) by linarith+
      then show ?thesis
        unfolding prefix_Contains_iff [OF pl(1)] prefix_Contains_iff [OF ok(1)] prefix_Contains_iff [OF ok(2)] pl(2) s fam [symmetric] by (auto simp del: plo_le_phi)
    qed
    have step: "merge_top (r # l # out) = merge_top (parent l # out)" using False by (simp add: merge_top.simps(1))
    have "\<forall>p\<in>set (parent l # out). pfam p = F" using 1(3) pl(2) ok by simp
    then have ih: "canonical (rev (merge_top (parent l # out)))" "\<forall>p\<in>set (merge_top (parent l # out)). pfam p = F"
      "\<forall>a. covers (merge_top (parent l # out)) a = covers (parent l # out) a" "merge_top (parent l # out) \<noteq> []"
      "plo (hd (merge_top (parent l # out))) \<le> plo (parent l)" "plen (hd (merge_top (parent l # out))) \<le> plen (parent l)"
      using 1(1) [OF _ _ can] False by simp_all
    have "plo (parent l) \<le> plo r" "plen (parent l) \<le> plen r" using pr False by auto
    then show ?thesis using ih unfolding step by (simp add: cov disj_ac)
  qed
qed (simp_all add: merge_top.simps(2,3))

lemma merge_prefixes_loop_correct:
  assumes "canonical (rev out)" "\<forall>p\<in>set out \<union> set vs. pfam p = F" "ordered vs"
    and "out \<noteq> [] \<Longrightarrow> \<exists>u. pfx_ok u \<and> pfam u = F \<and> plo (hd out) \<le> plo u \<and> plen (hd out) \<le> plen u \<and> (\<forall>v\<in>set vs. \<not> prefix_less v u)"
  shows "canonical (merge_prefixes_loop out vs) \<and> (\<forall>p\<in>set (merge_prefixes_loop out vs). pfam p = F) \<and>
    (\<forall>a. covers (merge_prefixes_loop out vs) a \<longleftrightarrow> covers out a \<or> covers vs a)"
  using assms
proof (induction vs arbitrary: out)
  case Nil
  then show ?case using covers_set_eq [of "rev out" out] by simp
next
  case (Cons v vs)
  have v: "pfx_ok v" "pfam v = F" "ordered vs" "\<forall>w\<in>set vs. \<not> prefix_less w v" using Cons.prems(2,3) by (auto simp: ordered_Cons)
  let ?skip = "out \<noteq> [] \<and> prefix_Contains (hd out) (pAddr v) \<and> prefix_Bits (hd out) \<le> prefix_Bits v"
  have hd_ok: "pfx_ok (hd out)" "pfam (hd out) = F" if "out \<noteq> []" using that Cons.prems(1,2) by (auto simp: canonical_def)
  show ?case
  proof (cases ?skip)
    case True
    have ne: "out \<noteq> []" using True by simp
    note h = hd_ok [OF ne]
    have "plen (hd out) \<le> plen v" using True pfx_okD(8) [OF h(1)] pfx_okD(8) [OF v(1)] by simp
    moreover have "plo (hd out) \<le> plo v" "plo v \<le> phi (hd out)" using True by (auto simp: prefix_Contains_iff [OF h(1)] plo_def)
    ultimately have "phi v \<le> phi (hd out)" using pfx_nested [OF h(1) v(1)] h(2) v(2) by simp
    then have sub: "prefix_Contains v a \<Longrightarrow> covers out a" for a
      using \<open>plo (hd out) \<le> plo v\<close> h v(2) ne
      by (auto simp: covers_def prefix_Contains_iff [OF v(1)] prefix_Contains_iff [OF h(1)] intro!: bexI [of _ "hd out"])
    have "canonical (merge_prefixes_loop out vs) \<and> (\<forall>p\<in>set (merge_prefixes_loop out vs). pfam p = F) \<and>
        (\<forall>a. covers (merge_prefixes_loop out vs) a \<longleftrightarrow> covers out a \<or> covers vs a)"
      using Cons.prems v(3) by (intro Cons.IH) auto
    then show ?thesis using True sub by auto
  next
    case False
    have before: "pbefore p v" if "p \<in> set out" for p
    proof -
      have ne: "out \<noteq> []" using that by auto
      note h = hd_ok [OF ne]
      obtain u where u: "pfx_ok u" "pfam u = F" "plo (hd out) \<le> plo u" "plen (hd out) \<le> plen u" "\<not> prefix_less v u"
        using Cons.prems(4) [OF ne] by auto
      have uv: "plo u < plo v \<or> plo u = plo v \<and> plen u \<le> plen v"
        using u(5) prefix_less_iff [OF v(1) u(1)] u(2) v(2) by auto
      have "\<not> plo v \<le> phi (hd out)"
      proof
        assume le: "plo v \<le> phi (hd out)"
        have lo: "plo (hd out) \<le> plo v" using uv u(3) by linarith
        then have "prefix_Contains (hd out) (pAddr v)"
          using le h v(2) pfx_okD(1) [OF v(1)] by (simp add: prefix_Contains_iff [OF h(1)] plo_def pfam_def)
        then have lt: "plen v < plen (hd out)" using False ne pfx_okD(8) [OF h(1)] pfx_okD(8) [OF v(1)] by simp
        then have "plo v = plo (hd out)" using pfx_same_start [OF h(1) v(1) _ lo le] h(2) v(2) by simp
        then show False using uv u(3,4) lt by linarith
      qed
      then have hv: "pbefore (hd out) v" using h(2) v(2) by (simp add: pbefore_def)
      obtain x xs where out: "out = x # xs" using ne by (cases out) auto
      then have "p = hd out \<or> pbefore p (hd out)" using that Cons.prems(1) by (auto simp: canonical_append)
      then show ?thesis using hv pbefore_trans by blast
    qed
    have "canonical (rev (v # out))" using Cons.prems(1) before v(1) by (simp add: canonical_append canonical_Cons)
    moreover have "\<forall>p\<in>set (v # out). pfam p = F" using Cons.prems(2) by auto
    ultimately have M: "canonical (rev (merge_top (v # out))) \<and> (\<forall>p\<in>set (merge_top (v # out)). pfam p = F) \<and>
        (\<forall>a. covers (merge_top (v # out)) a = covers (v # out) a) \<and>
        (v # out \<noteq> [] \<longrightarrow> merge_top (v # out) \<noteq> [] \<and> plo (hd (merge_top (v # out))) \<le> plo (hd (v # out)) \<and>
          plen (hd (merge_top (v # out))) \<le> plen (hd (v # out)))"
      by (rule merge_top_correct)
    obtain out' where o': "merge_top (v # out) = out'" by simp
    have m: "canonical (rev out')" "\<forall>p\<in>set out'. pfam p = F" "\<And>a. covers out' a = covers (v # out) a"
        "plo (hd out') \<le> plo v" "plen (hd out') \<le> plen v"
      using M unfolding o' by simp_all
    have "canonical (merge_prefixes_loop out' vs) \<and> (\<forall>p\<in>set (merge_prefixes_loop out' vs). pfam p = F) \<and>
        (\<forall>a. covers (merge_prefixes_loop out' vs) a \<longleftrightarrow> covers out' a \<or> covers vs a)"
      by (rule Cons.IH) (use m v Cons.prems(2) in auto)
    moreover have "merge_prefixes_loop out (v # vs) = merge_prefixes_loop out' vs" using False o' by auto
    ultimately show ?thesis using m(3) by auto
  qed
qed

lemma mergePrefixes_correct:
  assumes "\<forall>p\<in>set ps. pfx_ok p \<and> pfam p = F"
  shows "canonical (mergePrefixes ps)" "\<forall>p\<in>set (mergePrefixes ps). pfam p = F" "covers (mergePrefixes ps) a = covers ps a"
proof -
  have "ordered (sort_slice prefix_less ps)" using assms prefix_order.sorted_sort_slice [of ps] by (simp add: ordered_def)
  then have m: "canonical (mergePrefixes ps) \<and> (\<forall>p\<in>set (mergePrefixes ps). pfam p = F) \<and>
      (\<forall>a. covers (mergePrefixes ps) a \<longleftrightarrow> covers [] a \<or> covers (sort_slice prefix_less ps) a)"
    unfolding mergePrefixes_def using assms by (intro merge_prefixes_loop_correct) simp_all
  then show "canonical (mergePrefixes ps)" "\<forall>p\<in>set (mergePrefixes ps). pfam p = F" by auto
  show "covers (mergePrefixes ps) a = covers ps a" using m covers_set_eq [of "sort_slice prefix_less ps" ps a] by simp
qed

lemma partition_sample:
  "partitionPrefixes False (Prefix (IP4 0x0A000000) 9) [Prefix (IP4 0x0A400000) 11] [] [] =
     Some [Prefix (IP4 0x0A000000) 11, Prefix (IP4 0x0A400000) 11, Prefix (IP4 0x0A800000) 10]"
  by code_simp

section \<open>Properties\<close>

text \<open>
  (C4) The partition of a query consists of disjoint masked prefixes in ascending order that cover
  exactly the query, and within a part every boundary, lease and decision contains either all
  addresses or none.
\<close>

theorem partitionPrefixes_exact:
  assumes "partitionPrefixes ctx q bs leases decisions = Some ws" "ordered bs" "pfx_ok q"
    and "list_all (\<lambda>l. pfx_ok (tp_Prefix l)) leases" "list_all (\<lambda>d. pfx_ok (de_Prefix d)) decisions"
  shows "canonical ws \<and> (\<forall>a. covers ws a = prefix_Contains q a) \<and>
    (\<forall>w\<in>set ws. \<forall>b\<in>set bs \<union> tp_Prefix ` set leases \<union> de_Prefix ` set decisions.
      \<forall>x y. prefix_Contains w x \<and> prefix_Contains w y \<longrightarrow> prefix_Contains b x = prefix_Contains b y)"
proof -
  have ok: "\<forall>l\<in>set leases. pfx_ok (tp_Prefix l)" "\<forall>d\<in>set decisions. pfx_ok (de_Prefix d)"
    using assms(4,5) by (simp_all add: list_all_iff)
  note c = partition_correct [OF assms(1-3) ok]
  have "prefix_Contains b x = prefix_Contains b y"
    if "w \<in> set ws" "b \<in> set bs \<union> tp_Prefix ` set leases \<union> de_Prefix ` set decisions" "prefix_Contains w x" "prefix_Contains w y" for w b x y
  proof (rule uncut_uniform)
    show "pfx_ok b" using that(2) ok assms(2) by (auto simp: ordered_def)
    show "pfx_ok w" using c that(1) canonical_ok by blast
    show "\<not> cuts b w" using c that(1,2) by blast
  qed (use that in auto)
  then show ?thesis using c by (intro conjI ballI allI impI) auto
qed

theorem partitionPrefixes_exact_witness:
  "\<exists>ws. partitionPrefixes False (Prefix (IP4 0x0A000000) 9) [Prefix (IP4 0x0A400000) 11] [] [] = Some ws \<and> canonical ws \<and>
     covers ws (IP4 0x0A000001) \<and> \<not> covers ws (IP4 0x0B000000)"
proof -
  have "\<exists>ws. partitionPrefixes False (Prefix (IP4 0x0A000000) 9) [Prefix (IP4 0x0A400000) 11] [] [] = Some ws"
    by (rule exI [of _ "[Prefix (IP4 0x0A000000) 11, Prefix (IP4 0x0A400000) 11, Prefix (IP4 0x0A800000) 10]"])
      (simp add: partition_sample)
  then obtain ws where w: "partitionPrefixes False (Prefix (IP4 0x0A000000) 9) [Prefix (IP4 0x0A400000) 11] [] [] = Some ws" by blast
  moreover have "ordered [Prefix (IP4 0x0A400000) 11]" by (simp add: ordered_def) code_simp
  moreover have "pfx_ok (Prefix (IP4 0x0A000000) 9)" by code_simp
  moreover have "prefix_Contains (Prefix (IP4 0x0A000000) 9) (IP4 0x0A000001)" by code_simp
  moreover have "\<not> prefix_Contains (Prefix (IP4 0x0A000000) 9) (IP4 0x0B000000)" by code_simp
  ultimately show ?thesis using partitionPrefixes_exact [OF w] by simp
qed

end
