(* ===== verification/Lookup_Attribution.thy ===== *)
theory Lookup_Attribution
  imports Lookup_Static Lookup_Partition
begin

text \<open>
  \<open>internal/lookup/attribution.go\<close>: the evidence behind an outcome. The result is \<open>None\<close> when
  the context is cancelled or the evidence exceeds the limit.
\<close>

section \<open>Membership\<close>

definition containingPrefix :: "prefix list \<Rightarrow> addr \<Rightarrow> prefix option" where
  "containingPrefix vs address =
     (let position = sort_search (length vs) (\<lambda>index. 0 < addr_Compare (pAddr (vs ! index)) address) in
      if position \<noteq> 0 \<and> prefix_Contains (vs ! (position - 1)) address then Some (vs ! (position - 1)) else None)"

definition sourcePrefix :: "Record \<Rightarrow> addr \<Rightarrow> prefix option" where
  "sourcePrefix record address = containingPrefix (if Is4 address then sr_IPv4 record else sr_IPv6 record) address"

section \<open>Evidence\<close>

record Dynamic =
  dy_Epoch :: "64 word"
  dy_Operation :: "64 word"
  dy_Prefixes :: "TimedPrefix list"
  dy_Decisions :: "Decision list"
  dy_ValidUntil :: instant

definition zero_evidence :: Evidence where
  "zero_evidence = \<lparr>ed_Kind = '''', ed_Name = '''', ed_Provider = '''', ed_Release = '''', ed_Policy = '''', ed_Role = '''',
     ed_Via = [], ed_Prefix = Prefix NoAddr 0, ed_Contributing = False, ed_RetrievedAt = 0, ed_DecisionID = 0,
     ed_DecisionDeadline = 0, ed_LeaseDeadline = 0\<rparr>"

definition sourceEvidence :: "sourceRef \<Rightarrow> string \<Rightarrow> string \<Rightarrow> prefix \<Rightarrow> bool \<Rightarrow> Evidence" where
  "sourceEvidence value policyName role covered contributing =
     (let kind = sl_Kind (sr_Selector (sf_record value));
          provider = (if kind = ''country'' \<or> kind = ''asn''
            then (if sr_SourceKind (sf_record value) = '''' then ''ripestat'' else sr_SourceKind (sf_record value)) else '''') in
      zero_evidence\<lparr>ed_Kind := kind, ed_Name := sl_Value (sr_Selector (sf_record value)), ed_Provider := provider,
        ed_Release := sr_Release (sf_record value), ed_Policy := policyName, ed_Role := role, ed_Via := sf_via value,
        ed_Prefix := covered, ed_Contributing := contributing, ed_RetrievedAt := sr_RetrievedAt (sf_record value)\<rparr>)"

definition evidenceLess :: "Evidence \<Rightarrow> Evidence \<Rightarrow> bool" where
  "evidenceLess left right =
     (if ed_Kind left \<noteq> ed_Kind right then ed_Kind left < ed_Kind right
      else if ed_Name left \<noteq> ed_Name right then ed_Name left < ed_Name right
      else if ed_Provider left \<noteq> ed_Provider right then ed_Provider left < ed_Provider right
      else if ed_Release left \<noteq> ed_Release right then ed_Release left < ed_Release right
      else if ed_Policy left \<noteq> ed_Policy right then ed_Policy left < ed_Policy right
      else if ed_Role left \<noteq> ed_Role right then ed_Role left < ed_Role right
      else if addr_Compare (pAddr (ed_Prefix left)) (pAddr (ed_Prefix right)) \<noteq> 0
        then addr_Compare (pAddr (ed_Prefix left)) (pAddr (ed_Prefix right)) < 0
      else if prefix_Bits (ed_Prefix left) \<noteq> prefix_Bits (ed_Prefix right)
        then prefix_Bits (ed_Prefix left) < prefix_Bits (ed_Prefix right)
      else if ed_Contributing left \<noteq> ed_Contributing right then \<not> ed_Contributing left
      else if ed_DecisionID left \<noteq> ed_DecisionID right then ed_DecisionID left < ed_DecisionID right
      else if ed_DecisionDeadline left \<noteq> ed_DecisionDeadline right then ed_DecisionDeadline left < ed_DecisionDeadline right
      else if ed_LeaseDeadline left \<noteq> ed_LeaseDeadline right then ed_LeaseDeadline left < ed_LeaseDeadline right
      else if ed_RetrievedAt left \<noteq> ed_RetrievedAt right then ed_RetrievedAt left < ed_RetrievedAt right
      else if length (ed_Via left) \<noteq> length (ed_Via right) then length (ed_Via left) < length (ed_Via right)
      else ed_Via left < ed_Via right)"

text \<open>One guarded \<open>append\<close>: the limit is tested before every record.\<close>

definition append_evidence :: "int \<Rightarrow> Evidence \<Rightarrow> Evidence list \<Rightarrow> Evidence list option" where
  "append_evidence limit e result = (if limit \<le> int (length result) then None else Some (result @ [e]))"

fun append_all :: "int \<Rightarrow> Evidence list \<Rightarrow> Evidence list \<Rightarrow> Evidence list option" where
  "append_all limit [] result = Some result"
| "append_all limit (e # es) result = Option.bind (append_evidence limit e result) (append_all limit es)"

definition global_evidence :: "string \<Rightarrow> string \<Rightarrow> bool \<Rightarrow> prefix list \<Rightarrow> addr \<Rightarrow> Evidence list" where
  "global_evidence name role contributing vs addr =
     map (\<lambda>value. zero_evidence\<lparr>ed_Kind := ''global'', ed_Name := name, ed_Role := role, ed_Prefix := value,
        ed_Contributing := contributing\<rparr>) (filter (\<lambda>value. prefix_Contains value addr) vs)"

text \<open>The loop over the references of one side of a policy, with its poll of the context.\<close>

fun refs_loop :: "bool \<Rightarrow> string \<Rightarrow> string \<Rightarrow> bool \<Rightarrow> addr \<Rightarrow> int \<Rightarrow> sourceRef list \<Rightarrow> Evidence list \<Rightarrow> Evidence list option" where
  "refs_loop ctx name role contributing addr limit [] result = Some result"
| "refs_loop ctx name role contributing addr limit (value # rest) result =
     (if contextErr ctx then None
      else
        (case sourcePrefix (sf_record value) addr of
           None \<Rightarrow> refs_loop ctx name role contributing addr limit rest result
         | Some covered \<Rightarrow>
             Option.bind (append_evidence limit (sourceEvidence value name role covered contributing) result)
               (refs_loop ctx name role contributing addr limit rest)))"

definition matches_any :: "sourceRef list \<Rightarrow> addr \<Rightarrow> bool" where
  "matches_any refs addr = list_ex (\<lambda>value. sourcePrefix (sf_record value) addr \<noteq> None) refs"

fun policies_loop ::
  "bool \<Rightarrow> Static \<Rightarrow> Rule \<Rightarrow> addr \<Rightarrow> string \<Rightarrow> int \<Rightarrow> Policy list \<Rightarrow> Evidence list \<Rightarrow> Evidence list option" where
  "policies_loop ctx static rule addr stage limit [] result = Some result"
| "policies_loop ctx static rule addr stage limit (configured # rest) result =
     (if po_Mode configured = ''disabled'' then policies_loop ctx static rule addr stage limit rest result
      else if contextErr ctx then None
      else
        (let name = po_Name configured;
             sources = (case sv_sources static name of None \<Rightarrow> \<lparr>py_include = [], py_exclude = []\<rparr> | Some v \<Rightarrow> v);
             includeMatch = matches_any (py_include sources) addr;
             excludeMatch = matches_any (py_exclude sources) addr;
             effective = (includeMatch \<and> \<not> excludeMatch);
             deciding = (stage = ''policy'' \<and> ru_Policy rule = name) in
         Option.bind (refs_loop ctx name ''include'' (deciding \<and> effective) addr limit (py_include sources) result) (\<lambda>result.
         Option.bind (refs_loop ctx name ''exclude'' (deciding \<and> includeMatch \<and> excludeMatch) addr limit (py_exclude sources) result)
           (policies_loop ctx static rule addr stage limit rest))))"

definition lease_deadline :: "TimedPrefix list \<Rightarrow> addr \<Rightarrow> instant" where
  "lease_deadline leases addr =
     fold (\<lambda>t lease. if prefix_Contains (tp_Prefix t) addr \<and> (lease = 0 \<or> tp_Deadline t < lease) then tp_Deadline t else lease) leases 0"

fun decisions_loop ::
  "bool \<Rightarrow> TimedPrefix list \<Rightarrow> addr \<Rightarrow> string \<Rightarrow> int \<Rightarrow> Decision list \<Rightarrow> Evidence list \<Rightarrow> Evidence list option" where
  "decisions_loop ctx leases addr stage limit [] result = Some result"
| "decisions_loop ctx leases addr stage limit (decision # rest) result =
     (if contextErr ctx then None
      else if \<not> prefix_Contains (de_Prefix decision) addr then decisions_loop ctx leases addr stage limit rest result
      else
        Option.bind (append_evidence limit
            (zero_evidence\<lparr>ed_Kind := ''crowdsec'', ed_Name := ''crowdsec'', ed_Role := ''decision'', ed_Prefix := de_Prefix decision,
              ed_Contributing := (stage = ''crowdsec''), ed_DecisionID := de_ID decision, ed_DecisionDeadline := de_Deadline decision,
              ed_LeaseDeadline := lease_deadline leases addr\<rparr>) result)
          (decisions_loop ctx leases addr stage limit rest))"

text \<open>
  A nil slice of decisions has no elements, so that the loop over the decisions may run in any
  case.
\<close>

definition explain ::
  "bool \<Rightarrow> Static \<Rightarrow> Rule \<Rightarrow> prefix \<Rightarrow> Dynamic \<Rightarrow> string \<Rightarrow> int \<Rightarrow> Evidence list option" where
  "explain ctx static rule address dynamic stage limit =
     (let addr = pAddr address in
      Option.bind (append_all limit (global_evidence ''global_allowlist'' ''allow'' (stage = ''global_allow'') (sv_globalAllow static) addr) []) (\<lambda>result.
      Option.bind (append_all limit (global_evidence ''global_blocklist'' ''block'' (stage = ''global_block'') (sv_globalBlock static) addr) result) (\<lambda>result.
      Option.bind (policies_loop ctx static rule addr stage limit (sv_policyList static) result) (\<lambda>result.
        map_option (sort_slice evidenceLess) (decisions_loop ctx (dy_Prefixes dynamic) addr stage limit (dy_Decisions dynamic) result)))))"

end
