(* ===== verification/Lookup_Evaluate.thy ===== *)
theory Lookup_Evaluate
  imports Lookup_Attribution
begin

text \<open>
  \<open>internal/lookup/evaluate.go\<close>: the answer to a query. Every early return of a loop is an
  \<open>Inl\<close> with the response; the accumulated state of the loops is the list of outcomes and
  the number of records.
\<close>

section \<open>Dynamic evidence\<close>

definition validPrefix :: "prefix \<Rightarrow> bool" where
  "validPrefix value = (prefix_IsValid value \<and> value = prefix_Masked value \<and> Zone (pAddr value) = '''')"

definition validateDynamic :: "Dynamic \<Rightarrow> failure_message option" where
  "validateDynamic dynamic =
     (if list_ex (\<lambda>value. \<not> validPrefix (tp_Prefix value) \<or> tp_Deadline value = 0) (dy_Prefixes dynamic)
      then Some Dynamic_prefix_message
      else if list_ex (\<lambda>value. de_ID value \<le> 0 \<or> \<not> validPrefix (de_Prefix value) \<or> de_Deadline value = 0) (dy_Decisions dynamic)
      then Some Dynamic_decision_message
      else None)"

definition uncertainDynamic :: "Dynamic \<Rightarrow> prefix \<Rightarrow> instant \<Rightarrow> bool" where
  "uncertainDynamic dynamic address now =
     (list_ex (\<lambda>value. \<not> (now < tp_Deadline value \<or> \<not> overlaps (tp_Prefix value) address)) (dy_Prefixes dynamic) \<or>
      list_ex (\<lambda>value. \<not> (now < de_Deadline value \<or> \<not> overlaps (de_Prefix value) address)) (dy_Decisions dynamic))"

section \<open>Traffic scopes\<close>

record trafficScope =
  tf_protocol :: string
  tf_ports :: "Ports option"

definition rule_ports :: "string \<Rightarrow> Rule \<Rightarrow> 16 word list" where
  "rule_ports protocol rule =
     (let traffic = ma_Traffic (ru_Match rule) in
      if sc_Any traffic then []
      else
        concat (map (\<lambda>span. if pr_End span < 65535 then [pr_Start span, pr_End span + 1] else [pr_Start span])
          (if protocol = ''udp'' then sc_UDP traffic else sc_TCP traffic)))"

fun port_intervals :: "16 word list \<Rightarrow> Ports list" where
  "port_intervals [] = []"
| "port_intervals [start] = [\<lparr>pt_Start = start, pt_End = 65535\<rparr>]"
| "port_intervals (start # next # rest) = \<lparr>pt_Start = start, pt_End = next - 1\<rparr> # port_intervals (next # rest)"

definition protocol_scopes :: "FamilyPlan option \<Rightarrow> 16 word option \<Rightarrow> string \<Rightarrow> trafficScope list" where
  "protocol_scopes plan port protocol =
     (case port of
        Some p \<Rightarrow> [\<lparr>tf_protocol = protocol, tf_ports = Some \<lparr>pt_Start = p, pt_End = p\<rparr>\<rparr>]
      | None \<Rightarrow>
          if protocol \<noteq> ''tcp'' \<and> protocol \<noteq> ''udp'' then [\<lparr>tf_protocol = protocol, tf_ports = None\<rparr>]
          else
            (let rules = (case plan of None \<Rightarrow> [] | Some plan \<Rightarrow> concat (map pa_Rules (fp_Paths plan)));
                 boundaries = 0 # concat (map (rule_ports protocol) rules);
                 unique = slices_compact (sort_slice (<) boundaries) in
             map (\<lambda>ports. \<lparr>tf_protocol = protocol, tf_ports = Some ports\<rparr>) (port_intervals unique)))"

definition trafficScopes :: "Static \<Rightarrow> Family \<Rightarrow> Request \<Rightarrow> trafficScope list" where
  "trafficScopes static family request =
     (let protocols = (if rq_Protocol request \<noteq> '''' then [rq_Protocol request] else [''tcp'', ''udp'', ''icmp'', ''other'']) in
      concat (map (protocol_scopes (static_family static family) (rq_Port request)) protocols))"

section \<open>Attachments\<close>

definition portBasis :: "Attachment \<Rightarrow> string" where
  "portBasis value = (if at_OriginalDestination value then ''original_destination'' else ''current_destination'')"

definition attachmentsFor :: "Static \<Rightarrow> Direction \<Rightarrow> lookup_Attachment list" where
  "attachmentsFor s direction =
     (if sv_nft s then
        [\<lparr>la_Name = ''inet/'' @ sv_table s @ ''/'' @ (if direction = Egress then ''output'' else ''input''), la_Managed = True,
          la_PortBasis = ''current_destination'', la_InputInterfaces = [], la_OutputInterfaces = []\<rparr>]
      else
        map (\<lambda>value. \<lparr>la_Name = at_Chain value, la_Managed = True, la_PortBasis = portBasis value,
          la_InputInterfaces = at_InputInterfaces value, la_OutputInterfaces = at_OutputInterfaces value\<rparr>)
          (sv_attachments s (direction_string direction)))"

definition makeNotManagedWith :: "prefix \<Rightarrow> Direction \<Rightarrow> trafficScope \<Rightarrow> lookup_Attachment \<Rightarrow> string \<Rightarrow> Outcome" where
  "makeNotManagedWith address direction scope attachment reason =
     \<lparr>oc_Prefix = address, oc_Direction = direction, oc_Protocol = tf_protocol scope, oc_Ports = tf_ports scope,
      oc_Attachment = attachment\<lparr>la_Managed := False\<rparr>, oc_Verdict = ''not_blocked'', oc_Action = Return,
      oc_Stage = ''not_managed'', oc_Policy = '''', oc_Priority = 0, oc_Reason = reason, oc_Evidence = []\<rparr>"

definition makeNotManaged :: "prefix \<Rightarrow> Direction \<Rightarrow> trafficScope \<Rightarrow> string \<Rightarrow> Outcome" where
  "makeNotManaged address direction scope reason =
     makeNotManagedWith address direction scope
       \<lparr>la_Name = '''', la_Managed = False, la_PortBasis = ''current_destination'', la_InputInterfaces = [], la_OutputInterfaces = []\<rparr> reason"

section \<open>Rules\<close>

definition portMatches :: "PortRange list \<Rightarrow> Ports option \<Rightarrow> bool" where
  "portMatches vs ports =
     (case ports of
        None \<Rightarrow> length vs \<noteq> 0
      | Some ports \<Rightarrow> list_ex (\<lambda>value. pr_Start value \<le> pt_Start ports \<and> pt_End ports \<le> pr_End value) vs)"

definition lookup_scopeMatches :: "Scope \<Rightarrow> Family \<Rightarrow> trafficScope \<Rightarrow> bool" where
  "lookup_scopeMatches value family scope =
     (if sc_Any value then True
      else if tf_protocol scope = ''tcp'' then portMatches (sc_TCP value) (tf_ports scope)
      else if tf_protocol scope = ''udp'' then portMatches (sc_UDP value) (tf_ports scope)
      else if tf_protocol scope = ''icmp'' then sc_ICMP value \<and> (family = IPv4 \<or> family = IPv6)
      else False)"

definition lookup_ruleMatches ::
  "Static \<Rightarrow> FamilyPlan \<Rightarrow> Rule \<Rightarrow> prefix \<Rightarrow> Dynamic \<Rightarrow> trafficScope \<Rightarrow> instant \<Rightarrow> bool" where
  "lookup_ruleMatches static plan rule address dynamic scope now =
     (let match = ru_Match rule in
      if \<not> lookup_scopeMatches (ma_Traffic match) (fp_Family plan) scope then False
      else if ma_SetID match = '''' then True
      else
        (let in_set =
           (if ma_SetID match = ''crowdsec''
            then list_ex (\<lambda>value. now < tp_Deadline value \<and> prefix_Contains (tp_Prefix value) (pAddr address)) (dy_Prefixes dynamic)
            else containingPrefix (case sv_setIndex static (fp_Family plan) (ma_SetID match) of None \<Rightarrow> [] | Some vs \<Rightarrow> vs)
              (pAddr address) \<noteq> None) in
         if ma_NegateSet match then \<not> in_set else in_set))"

definition policy_mode :: "Static \<Rightarrow> string \<Rightarrow> string" where
  "policy_mode static name = (case sv_policies static name of None \<Rightarrow> '''' | Some p \<Rightarrow> po_Mode p)"

definition classifyRule :: "Rule \<Rightarrow> Static \<Rightarrow> string \<times> string" where
  "classifyRule rule static =
     (let setID = ma_SetID (ru_Match rule); mode = policy_mode static (ru_Policy rule) in
      if setID = ''global_allowlist'' then (''global_allow'', ''global_allowlist'')
      else if setID = ''global_blocklist'' then (''global_block'', ''global_blocklist'')
      else if setID = ''crowdsec'' then (''crowdsec'', ''crowdsec'')
      else if setID = ''geo_eligible'' then (''classifier'', ''not_geo_eligible'')
      else if ru_Policy rule \<noteq> '''' then
        (if ru_Action rule = Drop \<or> ru_Action rule = Reject then
           (if mode = ''allowlist'' then (''policy'', ''allowlist_absence'') else (''policy'', ''geo_policy''))
         else if mode = ''allowlist'' \<and> setID \<noteq> '''' then (''policy'', ''allowlist_match'')
         else if mode = ''blocklist'' \<and> setID = '''' then (''policy'', ''blocklist_miss'')
         else (''policy'', ''policy_pass''))
      else (''pass'', ''no_matching_policy''))"

definition rule_outcome :: "Static \<Rightarrow> Rule \<Rightarrow> prefix \<Rightarrow> Direction \<Rightarrow> trafficScope \<Rightarrow> lookup_Attachment \<Rightarrow> Outcome" where
  "rule_outcome static rule address direction scope attachment =
     \<lparr>oc_Prefix = address, oc_Direction = direction, oc_Protocol = tf_protocol scope, oc_Ports = tf_ports scope,
      oc_Attachment = attachment,
      oc_Verdict = (if ru_Action rule = Drop \<or> ru_Action rule = Reject then ''blocked'' else ''not_blocked''),
      oc_Action = ru_Action rule, oc_Stage = fst (classifyRule rule static), oc_Policy = ru_Policy rule,
      oc_Priority = (if ru_Policy rule \<noteq> '''' then (case sv_priorities static (ru_Policy rule) of None \<Rightarrow> 0 | Some p \<Rightarrow> p) else 0),
      oc_Reason = snd (classifyRule rule static), oc_Evidence = []\<rparr>"

fun rules_loop ::
  "bool \<Rightarrow> Static \<Rightarrow> FamilyPlan \<Rightarrow> Dynamic \<Rightarrow> prefix \<Rightarrow> Direction \<Rightarrow> trafficScope \<Rightarrow> lookup_Attachment \<Rightarrow> instant \<Rightarrow> int \<Rightarrow>
   Rule list \<Rightarrow> Outcome option" where
  "rules_loop ctx static plan dynamic address direction scope attachment now limit [] = None"
| "rules_loop ctx static plan dynamic address direction scope attachment now limit (rule # rest) =
     (if contextErr ctx then None
      else if ma_Flow (ru_Match rule) = EstablishedRelated \<or> ma_Flow (ru_Match rule) = NotNew
        then rules_loop ctx static plan dynamic address direction scope attachment now limit rest
      else if \<not> lookup_ruleMatches static plan rule address dynamic scope now
        then rules_loop ctx static plan dynamic address direction scope attachment now limit rest
      else
        (let outcome = rule_outcome static rule address direction scope attachment in
         map_option (\<lambda>evidence. outcome\<lparr>oc_Evidence := evidence\<rparr>)
           (explain ctx static rule address dynamic (oc_Stage outcome) limit)))"

definition evaluateScope ::
  "bool \<Rightarrow> Static \<Rightarrow> FamilyPlan \<Rightarrow> Dynamic \<Rightarrow> prefix \<Rightarrow> Direction \<Rightarrow> trafficScope \<Rightarrow> lookup_Attachment \<Rightarrow> instant \<Rightarrow> int \<Rightarrow>
   Outcome option" where
  "evaluateScope ctx static plan dynamic address direction scope attachment now limit =
     (case find (\<lambda>path. pa_Direction path = direction) (fp_Paths plan) of
        None \<Rightarrow> Some (makeNotManagedWith address direction scope attachment ''direction is not managed'')
      | Some path \<Rightarrow> rules_loop ctx static plan dynamic address direction scope attachment now limit (pa_Rules path))"

section \<open>Coalescing\<close>

definition attachmentEqual :: "lookup_Attachment \<Rightarrow> lookup_Attachment \<Rightarrow> bool" where
  "attachmentEqual left right =
     (if la_Name left \<noteq> la_Name right \<or> la_Managed left \<noteq> la_Managed right \<or> la_PortBasis left \<noteq> la_PortBasis right \<or>
         length (la_InputInterfaces left) \<noteq> length (la_InputInterfaces right) \<or>
         length (la_OutputInterfaces left) \<noteq> length (la_OutputInterfaces right) then False
      else list_all2 (=) (la_InputInterfaces left) (la_InputInterfaces right) \<and>
           list_all2 (=) (la_OutputInterfaces left) (la_OutputInterfaces right))"

definition evidenceEqual :: "Evidence \<Rightarrow> Evidence \<Rightarrow> bool" where
  "evidenceEqual left right =
     (if ed_Kind left \<noteq> ed_Kind right \<or> ed_Name left \<noteq> ed_Name right \<or> ed_Provider left \<noteq> ed_Provider right \<or>
         ed_Release left \<noteq> ed_Release right \<or> ed_Policy left \<noteq> ed_Policy right \<or> ed_Role left \<noteq> ed_Role right \<or>
         ed_Prefix left \<noteq> ed_Prefix right \<or> ed_Contributing left \<noteq> ed_Contributing right \<or>
         ed_DecisionID left \<noteq> ed_DecisionID right \<or> ed_RetrievedAt left \<noteq> ed_RetrievedAt right \<or>
         ed_DecisionDeadline left \<noteq> ed_DecisionDeadline right \<or> ed_LeaseDeadline left \<noteq> ed_LeaseDeadline right \<or>
         length (ed_Via left) \<noteq> length (ed_Via right) then False
      else list_all2 (=) (ed_Via left) (ed_Via right))"

definition outcomeSame :: "Outcome \<Rightarrow> Outcome \<Rightarrow> bool" where
  "outcomeSame left right =
     (if oc_Direction left \<noteq> oc_Direction right \<or> oc_Protocol left \<noteq> oc_Protocol right \<or> oc_Verdict left \<noteq> oc_Verdict right \<or>
         oc_Action left \<noteq> oc_Action right \<or> oc_Stage left \<noteq> oc_Stage right \<or> oc_Policy left \<noteq> oc_Policy right \<or>
         oc_Priority left \<noteq> oc_Priority right \<or> oc_Reason left \<noteq> oc_Reason right \<or>
         \<not> attachmentEqual (oc_Attachment left) (oc_Attachment right) then False
      else if (oc_Ports left = None) \<noteq> (oc_Ports right = None) then False
      else if oc_Ports left \<noteq> None \<and> the (oc_Ports left) \<noteq> the (oc_Ports right) then False
      else if length (oc_Evidence left) \<noteq> length (oc_Evidence right) then False
      else list_all2 evidenceEqual (oc_Evidence left) (oc_Evidence right))"

record outcomeGroup =
  og_prototype :: Outcome
  og_prefixes :: "prefix list"

fun add_to_group :: "Outcome \<Rightarrow> outcomeGroup list \<Rightarrow> outcomeGroup list" where
  "add_to_group value [] = [\<lparr>og_prototype = value, og_prefixes = [oc_Prefix value]\<rparr>]"
| "add_to_group value (g # groups) =
     (if outcomeSame (og_prototype g) value
      then g\<lparr>og_prefixes := og_prefixes g @ [oc_Prefix value]\<rparr> # groups
      else g # add_to_group value groups)"

fun group_outcomes :: "bool \<Rightarrow> Outcome list \<Rightarrow> outcomeGroup list \<Rightarrow> outcomeGroup list option" where
  "group_outcomes ctx [] groups = Some groups"
| "group_outcomes ctx (value # rest) groups =
     (if contextErr ctx then None else group_outcomes ctx rest (add_to_group value groups))"

fun evidence_list_less :: "Evidence list \<Rightarrow> Evidence list \<Rightarrow> bool" where
  "evidence_list_less (l # ls) (r # rs) =
     (if evidenceLess l r then True else if evidenceLess r l then False else evidence_list_less ls rs)"
| "evidence_list_less _ _ = False"

definition attachmentLess :: "lookup_Attachment \<Rightarrow> lookup_Attachment \<Rightarrow> bool option" where
  "attachmentLess left right =
     (if la_Name left \<noteq> la_Name right then Some (la_Name left < la_Name right)
      else if la_PortBasis left \<noteq> la_PortBasis right then Some (la_PortBasis left < la_PortBasis right)
      else if la_Managed left \<noteq> la_Managed right then Some (\<not> la_Managed left)
      else if length (la_InputInterfaces left) \<noteq> length (la_InputInterfaces right)
        then Some (length (la_InputInterfaces left) < length (la_InputInterfaces right))
      else if la_InputInterfaces left \<noteq> la_InputInterfaces right then Some (la_InputInterfaces left < la_InputInterfaces right)
      else if length (la_OutputInterfaces left) \<noteq> length (la_OutputInterfaces right)
        then Some (length (la_OutputInterfaces left) < length (la_OutputInterfaces right))
      else if la_OutputInterfaces left \<noteq> la_OutputInterfaces right then Some (la_OutputInterfaces left < la_OutputInterfaces right)
      else None)"

definition portsLess :: "Ports option \<Rightarrow> Ports option \<Rightarrow> bool option" where
  "portsLess left right =
     (if (left = None) \<noteq> (right = None) then Some (left = None)
      else if left \<noteq> None \<and> the left \<noteq> the right then
        (if pt_Start (the left) \<noteq> pt_Start (the right) then Some (pt_Start (the left) < pt_Start (the right))
         else Some (pt_End (the left) < pt_End (the right)))
      else None)"

definition outcomeLess :: "Outcome \<Rightarrow> Outcome \<Rightarrow> bool" where
  "outcomeLess left right =
     (if addr_Compare (pAddr (oc_Prefix left)) (pAddr (oc_Prefix right)) \<noteq> 0
        then addr_Compare (pAddr (oc_Prefix left)) (pAddr (oc_Prefix right)) < 0
      else if prefix_Bits (oc_Prefix left) \<noteq> prefix_Bits (oc_Prefix right)
        then prefix_Bits (oc_Prefix left) < prefix_Bits (oc_Prefix right)
      else if oc_Direction left \<noteq> oc_Direction right
        then direction_string (oc_Direction left) < direction_string (oc_Direction right)
      else if oc_Protocol left \<noteq> oc_Protocol right then oc_Protocol left < oc_Protocol right
      else
        (case portsLess (oc_Ports left) (oc_Ports right) of
           Some b \<Rightarrow> b
         | None \<Rightarrow>
             (case attachmentLess (oc_Attachment left) (oc_Attachment right) of
                Some b \<Rightarrow> b
              | None \<Rightarrow>
                  if oc_Verdict left \<noteq> oc_Verdict right then oc_Verdict left < oc_Verdict right
                  else if oc_Stage left \<noteq> oc_Stage right then oc_Stage left < oc_Stage right
                  else if oc_Policy left \<noteq> oc_Policy right then oc_Policy left < oc_Policy right
                  else if oc_Priority left \<noteq> oc_Priority right then oc_Priority left < oc_Priority right
                  else if oc_Reason left \<noteq> oc_Reason right then oc_Reason left < oc_Reason right
                  else if length (oc_Evidence left) \<noteq> length (oc_Evidence right)
                    then length (oc_Evidence left) < length (oc_Evidence right)
                  else evidence_list_less (oc_Evidence left) (oc_Evidence right))))"

definition coalesceOutcomes :: "bool \<Rightarrow> Outcome list \<Rightarrow> Outcome list" where
  "coalesceOutcomes ctx vs =
     (case group_outcomes ctx vs [] of
        None \<Rightarrow> []
      | Some groups \<Rightarrow>
          sort_slice outcomeLess
            (concat (map (\<lambda>g. map (\<lambda>value. (og_prototype g)\<lparr>oc_Prefix := value\<rparr>) (mergePrefixes (og_prefixes g))) groups)))"

section \<open>Evaluation\<close>

text \<open>What the loops of \<open>Evaluate\<close> do not change.\<close>

record evaluation_input =
  ei_ctx :: bool
  ei_static :: Static
  ei_dynamic :: Dynamic
  ei_request :: Request
  ei_family :: Family
  ei_now :: instant

definition limit_exceeded :: "Request \<Rightarrow> Response" where
  "limit_exceeded request =
     Unknown request ''limit_exceeded'' (Fixed_message ''lookup outcomes and evidence exceed the record limit'')"

definition cancelled :: "Request \<Rightarrow> Response" where
  "cancelled request = Unknown request ''enforcement_unavailable'' Context_message"

fun attachment_loop ::
  "evaluation_input \<Rightarrow> prefix \<Rightarrow> Direction \<Rightarrow> trafficScope \<Rightarrow> lookup_Attachment list \<Rightarrow> Outcome list \<times> int \<Rightarrow>
   Response + Outcome list \<times> int" where
  "attachment_loop i address direction scope [] state = Inr state"
| "attachment_loop i address direction scope (attachment # rest) (outcomes, records) =
     (case static_family (ei_static i) (ei_family i) of
        None \<Rightarrow>
          if MaxRecords \<le> records then Inl (limit_exceeded (ei_request i))
          else attachment_loop i address direction scope rest
            (outcomes @ [makeNotManagedWith address direction scope attachment ''address family is not managed''], records + 1)
      | Some plan \<Rightarrow>
          if sv_crowdsec (ei_static i) \<and> uncertainDynamic (ei_dynamic i) address (ei_now i) then
            Inl (Unknown (ei_request i) ''enforcement_unavailable''
              (Fixed_message ''acknowledged dynamic lease coverage is uncertain''))
          else
            (case evaluateScope (ei_ctx i) (ei_static i) plan (ei_dynamic i) address direction scope attachment (ei_now i)
                    (MaxRecords - records - 1) of
               None \<Rightarrow> if contextErr (ei_ctx i) then Inl (cancelled (ei_request i)) else Inl (limit_exceeded (ei_request i))
             | Some outcome \<Rightarrow>
                 if MaxRecords < records + 1 + int (length (oc_Evidence outcome)) then Inl (limit_exceeded (ei_request i))
                 else attachment_loop i address direction scope rest
                   (outcomes @ [outcome], records + (1 + int (length (oc_Evidence outcome))))))"

fun scope_loop ::
  "evaluation_input \<Rightarrow> prefix \<Rightarrow> Direction \<Rightarrow> trafficScope list \<Rightarrow> Outcome list \<times> int \<Rightarrow> Response + Outcome list \<times> int" where
  "scope_loop i address direction [] state = Inr state"
| "scope_loop i address direction (scope # rest) (outcomes, records) =
     (if contextErr (ei_ctx i) then Inl (cancelled (ei_request i))
      else
        result_bind
          (if length (attachmentsFor (ei_static i) direction) = 0 then
             (if MaxRecords \<le> records then Inl (limit_exceeded (ei_request i))
              else Inr (outcomes @ [makeNotManaged address direction scope ''no managed attachment''], records + 1))
           else attachment_loop i address direction scope (attachmentsFor (ei_static i) direction) (outcomes, records))
          (scope_loop i address direction rest))"

fun direction_loop ::
  "evaluation_input \<Rightarrow> trafficScope list \<Rightarrow> prefix \<Rightarrow> Direction list \<Rightarrow> Outcome list \<times> int \<Rightarrow> Response + Outcome list \<times> int" where
  "direction_loop i scopes address [] state = Inr state"
| "direction_loop i scopes address (direction # rest) state =
     result_bind (scope_loop i address direction scopes state) (direction_loop i scopes address rest)"

fun address_loop ::
  "evaluation_input \<Rightarrow> trafficScope list \<Rightarrow> Direction list \<Rightarrow> prefix list \<Rightarrow> Outcome list \<times> int \<Rightarrow> Response + Outcome list \<times> int" where
  "address_loop i scopes directions [] state = Inr state"
| "address_loop i scopes directions (address # rest) state =
     (if contextErr (ei_ctx i) then Inl (cancelled (ei_request i))
      else result_bind (direction_loop i scopes address directions state) (address_loop i scopes directions rest))"

text \<open>The directions of a normalized request, whose direction is empty or one of the two.\<close>

definition request_directions :: "Request \<Rightarrow> Direction list" where
  "request_directions request =
     (if rq_Direction request \<noteq> '''' then [if rq_Direction request = ''ingress'' then Ingress else Egress] else [Ingress, Egress])"

definition summary :: "Outcome list \<Rightarrow> string" where
  "summary outcomes =
     (let blocked = list_ex (\<lambda>outcome. oc_Verdict outcome = ''blocked'') outcomes;
          clear = list_ex (\<lambda>outcome. oc_Verdict outcome \<noteq> ''blocked'') outcomes in
      if blocked \<and> clear then ''mixed'' else if blocked then ''blocked'' else ''not_blocked'')"

definition query_prefix :: "Request \<Rightarrow> prefix" where
  "query_prefix request = (case ParsePrefix (rq_Address request) of None \<Rightarrow> Prefix NoAddr 0 | Some p \<Rightarrow> p)"

definition evaluate_query :: "evaluation_input \<Rightarrow> Response" where
  "evaluate_query i =
     (let query = query_prefix (ei_request i) in
      case partitionPrefixes (ei_ctx i) query (sv_boundaries (ei_static i) (ei_family i)) (dy_Prefixes (ei_dynamic i))
             (dy_Decisions (ei_dynamic i)) of
        None \<Rightarrow>
          if contextErr (ei_ctx i) then cancelled (ei_request i)
          else Unknown (ei_request i) ''limit_exceeded'' (Fixed_message ''address partition exceeds lookup work limit'')
      | Some addresses \<Rightarrow>
          (let scopes = trafficScopes (ei_static i) (ei_family i) (ei_request i) in
           if length scopes = 0 then Unknown (ei_request i) ''invalid_input'' (Fixed_message ''request has no traffic scope'')
           else
             (case address_loop i scopes (request_directions (ei_request i)) addresses ([], 0) of
                Inl response \<Rightarrow> response
              | Inr (outcomes, records) \<Rightarrow>
                  (let outcomes = coalesceOutcomes (ei_ctx i) outcomes in
                   if contextErr (ei_ctx i) then cancelled (ei_request i)
                   else
                     zero_response\<lparr>rs_SchemaVersion := SchemaVersion, rs_Query := ei_request i, rs_Flow := ''new'',
                       rs_ObservedAt := ei_now i, rs_Manifest := sv_manifest (ei_static i), rs_Outcomes := outcomes,
                       rs_Verdict := summary outcomes\<rparr>))))"

text \<open>\<open>clock\<close> is the value of \<open>time.Now()\<close>.\<close>

definition Evaluate :: "bool \<Rightarrow> Static option \<Rightarrow> Dynamic \<Rightarrow> Request \<Rightarrow> instant \<Rightarrow> instant \<Rightarrow> Response" where
  "Evaluate ctx static dynamic request now clock =
     (case request_Normalize request of
        Inl e \<Rightarrow> Unknown request ''invalid_input'' (Request_message e)
      | Inr normalized \<Rightarrow>
          (let now = (if now = 0 then clock else now) in
           case static of
             None \<Rightarrow> Unknown normalized ''enforcement_unavailable'' (Fixed_message ''lookup state is unavailable'')
           | Some static \<Rightarrow>
               (case validateDynamic dynamic of
                  Some e \<Rightarrow> Unknown normalized ''enforcement_unavailable'' e
                | None \<Rightarrow>
                    if sv_crowdsec static \<and> dy_ValidUntil dynamic \<noteq> 0 \<and> \<not> now < dy_ValidUntil dynamic then
                      Unknown normalized ''enforcement_unavailable'' (Fixed_message ''acknowledged CrowdSec lease view has expired'')
                    else
                      evaluate_query \<lparr>ei_ctx = ctx, ei_static = static, ei_dynamic = dynamic, ei_request = normalized,
                        ei_family = (if Is4 (pAddr (query_prefix normalized)) then IPv4 else IPv6), ei_now = now\<rparr>)))"

end
