(* ===== verification/Lookup_Sound.thy ===== *)
theory Lookup_Sound
  imports Lookup_Evaluate
begin

text \<open>
  Correctness of the lookup evaluation of \<open>internal/lookup/evaluate.go\<close>.

  A lookup never inspects single flows: it cuts the queried addresses at every boundary of the
  applied state, cuts the ports at every boundary of the applied rules and evaluates one
  representative of each part. The lemmas here show that this is exact. Every outcome gives the
  action and policy the plan gives to every new flow it stands for, and every new flow of the
  query is covered by an outcome for each managed attachment. The reference is \<open>evaluate\<close>
  of \<open>Policy_Model\<close>, which decides one concrete flow.
\<close>

section \<open>Traffic scopes\<close>

definition in_ports :: "Ports option \<Rightarrow> 16 word \<Rightarrow> bool" where
  "in_ports ports port = (case ports of None \<Rightarrow> True | Some ports \<Rightarrow> pt_Start ports \<le> port \<and> port \<le> pt_End ports)"

interpretation port_order: strict_total "(<) :: 16 word \<Rightarrow> 16 word \<Rightarrow> bool"
  by unfold_locales auto

lemma port_intervals_cover:
  assumes "sorted_wrt (<) bs" "bs \<noteq> []" "hd bs \<le> port"
  shows "\<exists>i\<in>set (port_intervals bs). pt_Start i \<le> port \<and> port \<le> pt_End i"
  using assms
proof (induction bs rule: port_intervals.induct)
  case (2 start)
  have "unat port < 2 ^ LENGTH(16)" by (rule unsigned_less)
  then have "port \<le> 65535" by (simp add: word_le_nat_alt)
  then show ?case using 2 by simp
next
  case (3 start nxt rest)
  show ?case
  proof (cases "nxt \<le> port")
    case True
    then show ?thesis using 3 by auto
  next
    case False
    then have "port \<le> nxt - 1" using unat_minus_one [of nxt] by (cases "nxt = 0") (auto simp: word_le_nat_alt word_less_nat_alt not_le)
    then show ?thesis using 3 by auto
  qed
qed simp

text \<open>No boundary lies inside an interval, except at its start.\<close>

lemma port_intervals_uncut:
  assumes "sorted_wrt (<) bs" "i \<in> set (port_intervals bs)" "b \<in> set bs" "pt_Start i < b"
  shows "pt_End i < b"
  using assms
proof (induction bs rule: port_intervals.induct)
  case (3 start nxt rest)
  have n: "nxt - 1 < b" if "nxt \<le> b" "start < nxt" for b
    using that unat_minus_one [of nxt] by (cases "nxt = 0") (auto simp: word_le_nat_alt word_less_nat_alt unat_eq_zero)
  have lower: "nxt \<le> pt_Start j" if "j \<in> set (port_intervals (nxt # rest))" for j
  proof -
    have "pt_Start j \<in> set (nxt # rest)"
      using that by (induction "nxt # rest" arbitrary: nxt rest rule: port_intervals.induct) auto
    then show ?thesis using 3(2) by auto
  qed
  show ?case
  proof (cases "i \<in> set (port_intervals (nxt # rest))")
    case True
    then have "b \<in> set (nxt # rest)" using 3(2,4,5) lower [OF True] by auto
    then show ?thesis using 3 True by auto
  next
    case False
    then have i: "i = \<lparr>pt_Start = start, pt_End = nxt - 1\<rparr>" using 3(3) by simp
    then have "b \<in> set (nxt # rest)" using 3(4,5) by auto
    then have "nxt \<le> b" using 3(2) by auto
    then show ?thesis using n [of b] i 3(2) by simp
  qed
qed auto

text \<open>The scopes of a request, and the flows they stand for.\<close>

definition plan_rules :: "FamilyPlan \<Rightarrow> Rule list" where
  "plan_rules plan = concat (map pa_Rules (fp_Paths plan))"

lemma scope_boundaries:
  fixes protocol :: string and rules :: "Rule list"
  defines "unique \<equiv> slices_compact (sort_slice (<) (0 # concat (map (rule_ports protocol) rules)))"
  shows "sorted_wrt (<) unique" "set unique = insert 0 (\<Union>r\<in>set rules. set (rule_ports protocol r))" "hd unique = 0" "unique \<noteq> []"
proof -
  let ?bs = "0 # concat (map (rule_ports protocol) rules)"
  have "sorted_wrt (\<le>) (sort_slice (<) ?bs)" using port_order.sorted_sort_slice [of ?bs] by (simp add: not_less)
  then have "sorted_wrt (\<le>) unique \<and> distinct_adj unique"
    unfolding unique_def using slices_compact_distinct_adj sorted_wrt_slices_compact by blast
  then show s: "sorted_wrt (<) unique" by (rule sorted_distinct_adj)
  show st: "set unique = insert 0 (\<Union>r\<in>set rules. set (rule_ports protocol r))" by (simp add: unique_def)
  show ne: "unique \<noteq> []" using st by auto
  obtain x xs where x: "unique = x # xs" using ne by (cases unique) auto
  have "0 \<in> set unique" using st by simp
  then show "hd unique = 0" using s x by (auto simp: word_less_nat_alt)
qed

lemma portMatches_interval:
  assumes "i \<in> set (port_intervals bs)" "sorted_wrt (<) bs" "pt_Start i \<le> port" "port \<le> pt_End i"
    and "\<forall>span\<in>set vs. pr_Start span \<in> set bs \<and> (pr_End span < 65535 \<longrightarrow> pr_End span + 1 \<in> set bs)"
  shows "portMatches vs (Some i) \<longleftrightarrow> portInRanges vs port"
proof -
  have "pr_Start span \<le> pt_Start i \<and> pt_End i \<le> pr_End span \<longleftrightarrow> pr_Start span \<le> port \<and> port \<le> pr_End span"
    if s: "span \<in> set vs" for span
  proof
    assume a: "pr_Start span \<le> port \<and> port \<le> pr_End span"
    have "\<not> pt_Start i < pr_Start span"
      using port_intervals_uncut [OF assms(2,1), of "pr_Start span"] assms(4,5) s a by auto
    moreover have "pt_End i \<le> pr_End span"
    proof (cases "pr_End span < 65535")
      case True
      then have n: "unat (pr_End span + 1) = Suc (unat (pr_End span))"
        by (simp add: unat_word_ariths word_less_nat_alt)
      have "pt_Start i < pr_End span + 1" using a assms(3) n by (simp add: word_less_nat_alt word_le_nat_alt)
      then have "pt_End i < pr_End span + 1" using port_intervals_uncut [OF assms(2,1)] assms(5) s True by blast
      then show ?thesis using n by (simp add: word_less_nat_alt word_le_nat_alt)
    next
      case False
      have "unat (pt_End i) < 2 ^ LENGTH(16)" by (rule unsigned_less)
      then show ?thesis using False by (simp add: word_less_nat_alt word_le_nat_alt)
    qed
    ultimately show "pr_Start span \<le> pt_Start i \<and> pt_End i \<le> pr_End span" by (simp add: not_less)
  qed (use assms(3,4) in auto)
  then show ?thesis by (auto simp: portMatches_def portInRanges_def list_ex_iff)
qed

lemma portMatches_single: "portMatches vs (Some \<lparr>pt_Start = p, pt_End = p\<rparr>) \<longleftrightarrow> portInRanges vs p"
  by (auto simp: portMatches_def portInRanges_def list_ex_iff)

lemma rule_ports_spans:
  assumes "\<not> sc_Any (ma_Traffic (ru_Match rule))"
    and "span \<in> set (if protocol = ''udp'' then sc_UDP (ma_Traffic (ru_Match rule)) else sc_TCP (ma_Traffic (ru_Match rule)))"
  shows "pr_Start span \<in> set (rule_ports protocol rule) \<and> (pr_End span < 65535 \<longrightarrow> pr_End span + 1 \<in> set (rule_ports protocol rule))"
  using assms by (force simp: rule_ports_def Let_def)

text \<open>Within a scope of a plan, the lookup matches traffic as the packet filter does.\<close>

lemma scope_agrees:
  assumes "scope \<in> set (protocol_scopes (Some plan) port' protocol)" "rule \<in> set (plan_rules plan)" "in_ports (tf_ports scope) port"
    and "port' = None \<or> protocol = ''tcp'' \<or> protocol = ''udp''"
  shows "lookup_scopeMatches (ma_Traffic (ru_Match rule)) f scope = scopeMatches (ma_Traffic (ru_Match rule)) protocol port"
proof (cases "sc_Any (ma_Traffic (ru_Match rule))")
  case True
  then show ?thesis by (simp add: lookup_scopeMatches_def scopeMatches_def)
next
  case na: False
  let ?t = "ma_Traffic (ru_Match rule)"
  have proto: "tf_protocol scope = protocol"
    using assms(1) by (auto simp: protocol_scopes_def Let_def split: option.splits if_splits)
  have ports: "portMatches (if protocol = ''udp'' then sc_UDP ?t else sc_TCP ?t) (tf_ports scope) \<longleftrightarrow>
      portInRanges (if protocol = ''udp'' then sc_UDP ?t else sc_TCP ?t) port" if pr: "protocol = ''tcp'' \<or> protocol = ''udp''"
  proof (cases port')
    case (Some p)
    then have s: "tf_ports scope = Some \<lparr>pt_Start = p, pt_End = p\<rparr>" using assms(1) by (simp add: protocol_scopes_def)
    then have "port = p" using assms(3) by (auto simp: in_ports_def)
    then show ?thesis using portMatches_single s by simp
  next
    case None
    define unique where "unique = slices_compact (sort_slice (<) (0 # concat (map (rule_ports protocol) (plan_rules plan))))"
    obtain i where i: "i \<in> set (port_intervals unique)" "tf_ports scope = Some i"
      using assms(1) pr None by (auto simp: protocol_scopes_def Let_def unique_def plan_rules_def)
    note b = scope_boundaries [of protocol "plan_rules plan", folded unique_def]
    show ?thesis
      unfolding i(2)
    proof (rule portMatches_interval [OF i(1) b(1)])
      show "pt_Start i \<le> port" "port \<le> pt_End i" using assms(3) i(2) by (auto simp: in_ports_def)
      show "\<forall>span\<in>set (if protocol = ''udp'' then sc_UDP ?t else sc_TCP ?t).
          pr_Start span \<in> set unique \<and> (pr_End span < 65535 \<longrightarrow> pr_End span + 1 \<in> set unique)"
        using rule_ports_spans [OF na] assms(2) b(2) by blast
    qed
  qed
  consider "protocol = ''tcp''" | "protocol = ''udp''" | "protocol \<noteq> ''tcp''" "protocol \<noteq> ''udp''" by blast
  then show ?thesis
  proof cases
    case 1
    then show ?thesis using ports na by (simp add: lookup_scopeMatches_def scopeMatches_def proto)
  next
    case 2
    then show ?thesis using ports na by (simp add: lookup_scopeMatches_def scopeMatches_def proto)
  next
    case 3
    then show ?thesis using na by (cases f) (simp_all add: lookup_scopeMatches_def scopeMatches_def proto)
  qed
qed

text \<open>Every requested flow belongs to a scope.\<close>

definition request_flow :: "Request \<Rightarrow> Flow \<Rightarrow> bool" where
  "request_flow request flow =
     (fl_New flow \<and> \<not> fl_Established flow \<and>
      (if rq_Protocol request \<noteq> '''' then fl_Protocol flow = rq_Protocol request
       else fl_Protocol flow \<in> {''tcp'', ''udp'', ''icmp'', ''other''}) \<and>
      (rq_Port request = None \<or> rq_Port request = Some (fl_Port flow)))"

lemma protocol_scopes_cover:
  assumes "port' = None \<or> port' = Some port"
  shows "\<exists>scope\<in>set (protocol_scopes plan port' protocol). tf_protocol scope = protocol \<and> in_ports (tf_ports scope) port"
proof (cases port')
  case (Some p)
  then show ?thesis using assms by (simp add: protocol_scopes_def in_ports_def)
next
  case None
  let ?rules = "case plan of None \<Rightarrow> [] | Some plan \<Rightarrow> concat (map pa_Rules (fp_Paths plan))"
  note b = scope_boundaries [of protocol ?rules]
  have "hd (slices_compact (sort_slice (<) (0 # concat (map (rule_ports protocol) ?rules)))) \<le> port" using b(3) by simp
  note c = port_intervals_cover [OF b(1,4) this]
  show ?thesis
    using None c by (auto simp: protocol_scopes_def Let_def in_ports_def)
qed

lemma trafficScopes_cover:
  assumes "request_flow request flow"
  shows "\<exists>scope\<in>set (trafficScopes static family request). tf_protocol scope = fl_Protocol flow \<and> in_ports (tf_ports scope) (fl_Port flow)"
proof -
  have p: "rq_Port request = None \<or> rq_Port request = Some (fl_Port flow)" using assms by (auto simp: request_flow_def)
  obtain s where s: "s \<in> set (protocol_scopes (static_family static family) (rq_Port request) (fl_Protocol flow))"
    "tf_protocol s = fl_Protocol flow" "in_ports (tf_ports s) (fl_Port flow)"
    using protocol_scopes_cover [OF p] by blast
  have "fl_Protocol flow \<in> set (if rq_Protocol request \<noteq> '''' then [rq_Protocol request] else [''tcp'', ''udp'', ''icmp'', ''other''])"
    using assms by (auto simp: request_flow_def)
  then have "s \<in> set (trafficScopes static family request)" using s(1) unfolding trafficScopes_def Let_def set_concat set_map by blast
  then show ?thesis using s by blast
qed

section \<open>Well-formed views\<close>

definition family_bits :: "Family \<Rightarrow> nat" where
  "family_bits f = (case f of IPv4 \<Rightarrow> 32 | IPv6 \<Rightarrow> 128)"

text \<open>
  A plan whose sets are canonical and told apart by their identifiers, with the dynamic set under
  its fixed name.
\<close>

definition plan_ok :: "FamilyPlan \<Rightarrow> bool" where
  "plan_ok plan =
     (distinct (map ps_ID (fp_Sets plan)) \<and>
      (\<forall>s\<in>set (fp_Sets plan). (ps_Kind s = DynamicCrowdSecSet) = (ps_ID s = ''crowdsec'') \<and> canonical (ps_Prefixes s) \<and>
         (\<forall>p\<in>set (ps_Prefixes s). pfam p = family_bits (fp_Family plan))) \<and>
      (\<forall>path\<in>set (fp_Paths plan).
         pa_Remote path = (if pa_Direction path = Egress then DestinationAddress else SourceAddress) \<and>
         (\<forall>r\<in>set (pa_Rules path). ma_SetID (ru_Match r) = ''crowdsec'' \<longrightarrow> ''crowdsec'' \<in> ps_ID ` set (fp_Sets plan))))"

definition view_ok :: "Static \<Rightarrow> bool" where
  "view_ok s =
     (distinct (map fp_Family (sv_families s)) \<and> (\<forall>plan\<in>set (sv_families s). plan_ok plan) \<and>
      sv_setIndex s = set_index (sv_families s) \<and>
      (\<forall>f. ordered (sv_boundaries s f)) \<and>
      (\<forall>plan\<in>set (sv_families s). \<forall>t\<in>set (fp_Sets plan). set (ps_Prefixes t) \<subseteq> set (sv_boundaries s (fp_Family plan))))"

lemma set_index_sets:
  "distinct (map ps_ID sets) \<Longrightarrow>
     fold (\<lambda>s index. index(ps_ID s \<mapsto> ps_Prefixes s)) sets m k =
       (case find (\<lambda>s. ps_ID s = k) sets of None \<Rightarrow> m k | Some s \<Rightarrow> Some (ps_Prefixes s))"
proof (induction sets arbitrary: m)
  case (Cons s sets)
  have "find (\<lambda>t. ps_ID t = k) sets = None" if "ps_ID s = k"
    using Cons.prems that by (auto simp: find_None_iff intro: rev_image_eqI)
  then show ?case using Cons by auto
qed simp

lemma set_index_plan:
  assumes "distinct (map fp_Family families)" "plan \<in> set families" "distinct (map ps_ID (fp_Sets plan))"
  shows "set_index families (fp_Family plan) k = map_option ps_Prefixes (find (\<lambda>s. ps_ID s = k) (fp_Sets plan))"
proof -
  let ?f = "\<lambda>(p :: FamilyPlan) (index :: string \<rightharpoonup> prefix list).
    if fp_Family p = fp_Family plan then fold (\<lambda>(s :: PrefixSet) index. index(ps_ID s \<mapsto> ps_Prefixes s)) (fp_Sets p) index else index"
  obtain xs ys where s: "families = xs @ plan # ys" using assms(2) by (auto dest: split_list)
  have skip: "fold ?f zs m = m" if "\<forall>p\<in>set zs. fp_Family p \<noteq> fp_Family plan" for zs m
    using that by (induction zs) auto
  have "\<forall>p\<in>set xs. fp_Family p \<noteq> fp_Family plan" "\<forall>p\<in>set ys. fp_Family p \<noteq> fp_Family plan"
    using assms(1) by (auto simp: s intro: rev_image_eqI)
  then have "set_index families (fp_Family plan) = fold (\<lambda>s index. index(ps_ID s \<mapsto> ps_Prefixes s)) (fp_Sets plan) Map.empty"
    using skip by (simp add: set_index_def s)
  then show ?thesis using set_index_sets [OF assms(3)] by (simp split: option.splits)
qed

lemma containingPrefix_covers:
  assumes "canonical ps" "\<forall>p\<in>set ps. pfam p = BitLen a" "addr_ok a"
  shows "containingPrefix ps a \<noteq> None \<longleftrightarrow> covers ps a"
  using search_contains [OF assms] by (auto simp: containingPrefix_def Let_def)

section \<open>Rules\<close>

definition live_leases :: "Dynamic \<Rightarrow> instant \<Rightarrow> prefix list" where
  "live_leases dynamic now = map tp_Prefix (filter (\<lambda>l. now < tp_Deadline l) (dy_Prefixes dynamic))"

text \<open>A part of the partition that no set, lease or decision cuts.\<close>

definition part_ok :: "Static \<Rightarrow> Family \<Rightarrow> Dynamic \<Rightarrow> prefix \<Rightarrow> bool" where
  "part_ok s f dynamic w =
     (pfx_ok w \<and> pfam w = family_bits f \<and> (\<forall>b\<in>set (sv_boundaries s f). \<not> cuts b w) \<and>
      (\<forall>l\<in>set (dy_Prefixes dynamic). pfx_ok (tp_Prefix l) \<and> \<not> cuts (tp_Prefix l) w))"

lemma part_start: "pfx_ok w \<Longrightarrow> prefix_Contains w (pAddr w)"
  using pfx_okD(1) [of w] by (simp add: prefix_Contains_iff pfam_def plo_def [symmetric])

lemma set_agrees:
  assumes "view_ok s" "plan \<in> set (sv_families s)" "part_ok s (fp_Family plan) dynamic w" "prefix_Contains w a"
    and "k = ''crowdsec'' \<Longrightarrow> ''crowdsec'' \<in> ps_ID ` set (fp_Sets plan)"
  shows "(if k = ''crowdsec'' then list_ex (\<lambda>l. now < tp_Deadline l \<and> prefix_Contains (tp_Prefix l) (pAddr w)) (dy_Prefixes dynamic)
     else containingPrefix (case sv_setIndex s (fp_Family plan) k of None \<Rightarrow> [] | Some vs \<Rightarrow> vs) (pAddr w) \<noteq> None) \<longleftrightarrow>
     set_member (fp_Sets plan) (live_leases dynamic now) k a"
proof -
  have pok: "plan_ok plan" using assms(1,2) by (simp add: view_ok_def)
  have w: "pfx_ok w" "pfam w = family_bits (fp_Family plan)" using assms(3) by (auto simp: part_ok_def)
  note st = part_start [OF w(1)]
  show ?thesis
  proof (cases "k = ''crowdsec''")
    case True
    obtain t where t: "t \<in> set (fp_Sets plan)" "ps_ID t = ''crowdsec''" using assms(5) True by auto
    have "find (\<lambda>u. ps_ID u = k) (fp_Sets plan) = Some t"
      using find_key [of ps_ID "fp_Sets plan" t] t True pok by (simp add: plan_ok_def)
    moreover have "ps_Kind t = DynamicCrowdSecSet" using pok t by (auto simp: plan_ok_def)
    ultimately have "set_member (fp_Sets plan) (live_leases dynamic now) k a \<longleftrightarrow> covers (live_leases dynamic now) a"
      by (simp add: set_member_def covers_def)
    also have "\<dots> \<longleftrightarrow> covers (live_leases dynamic now) (pAddr w)"
      using assms(3) by (intro covers_uniform [OF _ w(1) assms(4) st]) (auto simp: live_leases_def part_ok_def)
    finally show ?thesis using True by (auto simp: covers_def live_leases_def list_ex_iff)
  next
    case False
    have idx: "sv_setIndex s (fp_Family plan) k = map_option ps_Prefixes (find (\<lambda>u. ps_ID u = k) (fp_Sets plan))"
      using assms(1,2) pok by (auto simp: view_ok_def plan_ok_def intro: set_index_plan)
    show ?thesis
    proof (cases "find (\<lambda>u. ps_ID u = k) (fp_Sets plan)")
      case None
      then show ?thesis using False idx by (simp add: set_member_def containingPrefix_def sort_search_def search_loop.simps)
    next
      case (Some t)
      have t: "t \<in> set (fp_Sets plan)" "ps_ID t = k" using find_SomeD [OF Some] by auto
      have kind: "ps_Kind t \<noteq> DynamicCrowdSecSet" and can: "canonical (ps_Prefixes t)"
        and fam: "\<forall>p\<in>set (ps_Prefixes t). pfam p = family_bits (fp_Family plan)" using pok t False by (auto simp: plan_ok_def)
      have sub: "set (ps_Prefixes t) \<subseteq> set (sv_boundaries s (fp_Family plan))" using assms(1,2) t(1) by (auto simp: view_ok_def)
      have bl: "BitLen (pAddr w) = family_bits (fp_Family plan)" using w(2) by (simp add: pfam_def)
      have "containingPrefix (ps_Prefixes t) (pAddr w) \<noteq> None \<longleftrightarrow> covers (ps_Prefixes t) (pAddr w)"
        using fam bl pfx_okD(1) [OF w(1)] by (intro containingPrefix_covers [OF can]) auto
      also have "\<dots> \<longleftrightarrow> covers (ps_Prefixes t) a"
        using sub assms(3) can by (intro covers_uniform [OF _ w(1) st assms(4)]) (auto simp: part_ok_def canonical_def)
      finally show ?thesis using False idx Some kind by (simp add: set_member_def covers_def)
    qed
  qed
qed

lemma rule_agrees:
  assumes "view_ok s" "plan \<in> set (sv_families s)" "part_ok s (fp_Family plan) dynamic w"
    and "path \<in> set (fp_Paths plan)" "rule \<in> set (pa_Rules path)"
    and "scope \<in> set (protocol_scopes (Some plan) port' (fl_Protocol flow))" "in_ports (tf_ports scope) (fl_Port flow)"
    and "port' = None \<or> fl_Protocol flow = ''tcp'' \<or> fl_Protocol flow = ''udp''"
    and "fl_New flow" "\<not> fl_Established flow" "prefix_Contains w (remote_of (pa_Direction path) flow)"
  shows "ruleMatches plan path rule flow (live_leases dynamic now) \<longleftrightarrow>
    ma_Flow (ru_Match rule) \<notin> {EstablishedRelated, NotNew} \<and> lookup_ruleMatches s plan rule w dynamic scope now"
proof -
  have pok: "plan_ok plan" using assms(1,2) by (simp add: view_ok_def)
  have remote: "remoteAddress path flow = remote_of (pa_Direction path) flow"
    using pok assms(4) by (cases "pa_Direction path") (auto simp: plan_ok_def remoteAddress_def remote_of_def)
  have "rule \<in> set (plan_rules plan)" using assms(4,5) by (auto simp: plan_rules_def)
  note sc = scope_agrees [OF assms(6) this assms(7,8), of "fp_Family plan"]
  have "ma_SetID (ru_Match rule) = ''crowdsec'' \<Longrightarrow> ''crowdsec'' \<in> ps_ID ` set (fp_Sets plan)"
    using pok assms(4,5) by (auto simp: plan_ok_def)
  note st = set_agrees [OF assms(1-3,11) this, where now = now]
  show ?thesis
  proof (cases "ma_Flow (ru_Match rule)")
    case AnyFlow
    then show ?thesis
      using sc st unfolding ruleMatches_def lookup_ruleMatches_def Let_def remote by auto
  qed (use assms(9,10) in \<open>simp_all add: ruleMatches_def\<close>)
qed

section \<open>Outcomes\<close>

definition flow_in :: "Outcome \<Rightarrow> Flow \<Rightarrow> bool" where
  "flow_in outcome flow =
     (fl_New flow \<and> \<not> fl_Established flow \<and> fl_Protocol flow = oc_Protocol outcome \<and>
      prefix_Contains (oc_Prefix outcome) (remote_of (oc_Direction outcome) flow) \<and> in_ports (oc_Ports outcome) (fl_Port flow))"

text \<open>
  An outcome is sound when it reports what the compiled rules do with every new flow that it
  stands for; where nothing is attached or the family has no plan, packets are left alone.
\<close>

definition outcome_sound :: "Static \<Rightarrow> Family \<Rightarrow> Dynamic \<Rightarrow> instant \<Rightarrow> Outcome \<Rightarrow> bool" where
  "outcome_sound s f dynamic now outcome =
     ((oc_Verdict outcome = ''blocked'') = (oc_Action outcome \<noteq> Return) \<and>
      (case static_family s f of
         None \<Rightarrow> oc_Action outcome = Return \<and> oc_Policy outcome = ''''
       | Some plan \<Rightarrow>
           if attachmentsFor s (oc_Direction outcome) = [] then oc_Action outcome = Return \<and> oc_Policy outcome = ''''
           else
             (\<forall>flow. flow_in outcome flow \<longrightarrow>
               ev_Action (evaluate plan (oc_Direction outcome) flow (live_leases dynamic now)) = oc_Action outcome \<and>
               ev_Trace (evaluate plan (oc_Direction outcome) flow (live_leases dynamic now)) = oc_Policy outcome)))"

text \<open>The coordinates of an outcome, apart from whether its attachment is managed.\<close>

definition located :: "prefix \<Rightarrow> Direction \<Rightarrow> trafficScope \<Rightarrow> lookup_Attachment \<Rightarrow> Outcome \<Rightarrow> bool" where
  "located w d scope att outcome =
     (oc_Prefix outcome = w \<and> oc_Direction outcome = d \<and> oc_Protocol outcome = tf_protocol scope \<and> oc_Ports outcome = tf_ports scope \<and>
      (oc_Attachment outcome)\<lparr>la_Managed := True\<rparr> = att\<lparr>la_Managed := True\<rparr>)"

lemma makeNotManagedWith_located: "located w d scope att (makeNotManagedWith w d scope att reason)"
  by (simp add: located_def makeNotManagedWith_def)

lemma rules_loop_Some:
  assumes "rules_loop ctx s plan dynamic w d scope att now limit rules = Some outcome"
  obtains rule where "find (\<lambda>r. ma_Flow (ru_Match r) \<notin> {EstablishedRelated, NotNew} \<and> lookup_ruleMatches s plan r w dynamic scope now) rules = Some rule"
    "oc_Action outcome = ru_Action rule" "oc_Policy outcome = ru_Policy rule"
    "(oc_Verdict outcome = ''blocked'') = (ru_Action rule \<noteq> Return)" "located w d scope att outcome"
proof -
  have "\<exists>rule. find (\<lambda>r. ma_Flow (ru_Match r) \<notin> {EstablishedRelated, NotNew} \<and> lookup_ruleMatches s plan r w dynamic scope now) rules = Some rule \<and>
      oc_Action outcome = ru_Action rule \<and> oc_Policy outcome = ru_Policy rule \<and>
      (oc_Verdict outcome = ''blocked'') = (ru_Action rule \<noteq> Return) \<and> located w d scope att outcome"
    using assms
  proof (induction rules)
    case (Cons r rules)
    show ?case
    proof (cases "ma_Flow (ru_Match r) \<notin> {EstablishedRelated, NotNew} \<and> lookup_ruleMatches s plan r w dynamic scope now")
      case True
      have act: "(a = Drop \<or> a = Reject) = (a \<noteq> Return)" for a by (cases a) auto
      from True Cons.prems obtain e where "outcome = (rule_outcome s r w d scope att)\<lparr>oc_Evidence := e\<rparr>"
        by (auto simp: Let_def split: if_splits)
      then show ?thesis using True by (simp add: rule_outcome_def located_def act)
    next
      case False
      then have "rules_loop ctx s plan dynamic w d scope att now limit rules = Some outcome"
        using Cons.prems by (auto split: if_splits)
      then show ?thesis using Cons.IH False by auto
    qed
  qed simp
  then show thesis using that by blast
qed

lemma evaluateScope_sound:
  assumes "view_ok s" "static_family s f = Some plan" "part_ok s f dynamic w"
    and "scope \<in> set (protocol_scopes (Some plan) port' protocol)" "port' = None \<or> protocol = ''tcp'' \<or> protocol = ''udp''"
    and "evaluateScope ctx s plan dynamic w d scope att now limit = Some outcome" "att \<in> set (attachmentsFor s d)"
  shows "located w d scope att outcome \<and> outcome_sound s f dynamic now outcome"
proof -
  have plan: "plan \<in> set (sv_families s)" "fp_Family plan = f"
    using find_SomeD [OF assms(2) [unfolded static_family_def]] by auto
  have proto: "tf_protocol scope = protocol"
    using assms(4) by (auto simp: protocol_scopes_def Let_def split: option.splits if_splits)
  show ?thesis
  proof (cases "find (\<lambda>path. pa_Direction path = d) (fp_Paths plan)")
    case None
    then have o: "outcome = makeNotManagedWith w d scope att ''direction is not managed''" using assms(6) by (simp add: evaluateScope_def)
    then show ?thesis
      using None assms(2) makeNotManagedWith_located
      by (simp add: outcome_sound_def makeNotManagedWith_def evaluate_def)
  next
    case (Some path)
    have path: "path \<in> set (fp_Paths plan)" "pa_Direction path = d" using find_SomeD [OF Some] by auto
    have rl: "rules_loop ctx s plan dynamic w d scope att now limit (pa_Rules path) = Some outcome"
      using assms(6) Some by (simp add: evaluateScope_def)
    obtain rule where r: "find (\<lambda>r. ma_Flow (ru_Match r) \<notin> {EstablishedRelated, NotNew} \<and> lookup_ruleMatches s plan r w dynamic scope now) (pa_Rules path) = Some rule"
      "oc_Action outcome = ru_Action rule" "oc_Policy outcome = ru_Policy rule"
      "(oc_Verdict outcome = ''blocked'') = (ru_Action rule \<noteq> Return)" "located w d scope att outcome"
      by (rule rules_loop_Some [OF rl])
    have "ev_Action (evaluate plan d flow (live_leases dynamic now)) = ru_Action rule \<and>
        ev_Trace (evaluate plan d flow (live_leases dynamic now)) = ru_Policy rule" if fl: "flow_in outcome flow" for flow
    proof -
      have l: "oc_Prefix outcome = w" "oc_Direction outcome = d" "oc_Protocol outcome = protocol" "oc_Ports outcome = tf_ports scope"
        using r(5) proto by (auto simp: located_def)
      have p: "fl_Protocol flow = protocol" "fl_New flow" "\<not> fl_Established flow" "prefix_Contains w (remote_of (pa_Direction path) flow)"
          "in_ports (tf_ports scope) (fl_Port flow)"
        using fl l path(2) by (auto simp: flow_in_def)
      have "find (\<lambda>r. ruleMatches plan path r flow (live_leases dynamic now)) (pa_Rules path) = Some rule"
        unfolding r(1) [symmetric]
        by (rule find_cong_set, rule rule_agrees [OF assms(1) plan(1) _ path(1)]) (use p assms(3-5) plan(2) in simp_all)
      then show ?thesis using Some by (simp add: evaluate_def evaluate_path_def)
    qed
    moreover have "oc_Direction outcome = d" "attachmentsFor s d \<noteq> []" using r(5) assms(7) by (auto simp: located_def)
    ultimately show ?thesis using r(2-5) assms(2) by (simp add: outcome_sound_def)
  qed
qed

section \<open>The loops\<close>

definition produced :: "evaluation_input \<Rightarrow> prefix \<Rightarrow> Direction \<Rightarrow> trafficScope \<Rightarrow> lookup_Attachment \<Rightarrow> Outcome \<Rightarrow> bool" where
  "produced i w d scope att outcome =
     (case static_family (ei_static i) (ei_family i) of
        None \<Rightarrow> outcome = makeNotManagedWith w d scope att ''address family is not managed''
      | Some plan \<Rightarrow>
          \<exists>limit. evaluateScope (ei_ctx i) (ei_static i) plan (ei_dynamic i) w d scope att (ei_now i) limit = Some outcome)"

definition emits :: "evaluation_input \<Rightarrow> prefix \<Rightarrow> Direction \<Rightarrow> trafficScope \<Rightarrow> Outcome \<Rightarrow> bool" where
  "emits i w d scope outcome =
     (if attachmentsFor (ei_static i) d = [] then outcome = makeNotManaged w d scope ''no managed attachment''
      else \<exists>att\<in>set (attachmentsFor (ei_static i) d). produced i w d scope att outcome)"

definition complete :: "evaluation_input \<Rightarrow> prefix \<Rightarrow> Direction \<Rightarrow> trafficScope \<Rightarrow> Outcome set \<Rightarrow> bool" where
  "complete i w d scope os =
     (if attachmentsFor (ei_static i) d = [] then makeNotManaged w d scope ''no managed attachment'' \<in> os
      else \<forall>att\<in>set (attachmentsFor (ei_static i) d). \<exists>outcome\<in>os. produced i w d scope att outcome)"

lemma complete_UnI: "complete i w d scope os \<or> complete i w d scope os' \<Longrightarrow> complete i w d scope (os \<union> os')"
  unfolding complete_def by (auto split: if_splits)

lemma attachment_loop_Inr:
  "attachment_loop i w d scope atts (outs, n) = Inr (outs', n') \<Longrightarrow>
     \<exists>new. outs' = outs @ new \<and> list_all2 (produced i w d scope) atts new"
proof (induction atts arbitrary: outs n)
  case (Cons att atts)
  show ?case
  proof (cases "static_family (ei_static i) (ei_family i)")
    case None
    let ?o = "makeNotManagedWith w d scope att ''address family is not managed''"
    have "attachment_loop i w d scope atts (outs @ [?o], n + 1) = Inr (outs', n')"
      using Cons.prems None by (auto split: if_splits)
    then obtain new where "outs' = (outs @ [?o]) @ new" "list_all2 (produced i w d scope) atts new" using Cons.IH by blast
    moreover have "produced i w d scope att ?o" using None by (simp add: produced_def)
    ultimately show ?thesis by (intro exI [of _ "?o # new"]) simp
  next
    case (Some plan)
    obtain o1 where o: "evaluateScope (ei_ctx i) (ei_static i) plan (ei_dynamic i) w d scope att (ei_now i) (MaxRecords - n - 1) = Some o1"
        "attachment_loop i w d scope atts (outs @ [o1], n + (1 + int (length (oc_Evidence o1)))) = Inr (outs', n')"
      using Cons.prems Some by (auto split: if_splits option.splits)
    then obtain new where "outs' = (outs @ [o1]) @ new" "list_all2 (produced i w d scope) atts new" using Cons.IH by blast
    moreover have "produced i w d scope att o1" using Some o(1) by (auto simp: produced_def)
    ultimately show ?thesis by (intro exI [of _ "o1 # new"]) simp
  qed
qed simp

lemma scope_loop_Inr:
  "scope_loop i w d scopes (outs, n) = Inr (outs', n') \<Longrightarrow>
     \<exists>new. outs' = outs @ new \<and> (\<forall>o'\<in>set new. \<exists>scope\<in>set scopes. emits i w d scope o') \<and>
       (\<forall>scope\<in>set scopes. complete i w d scope (set new))"
proof (induction scopes arbitrary: outs n)
  case (Cons scope scopes)
  let ?atts = "attachmentsFor (ei_static i) d"
  obtain outs1 n1 where s: "(if ?atts = [] then
        (if MaxRecords \<le> n then Inl (limit_exceeded (ei_request i)) else Inr (outs @ [makeNotManaged w d scope ''no managed attachment''], n + 1))
      else attachment_loop i w d scope ?atts (outs, n)) = Inr (outs1, n1)" "scope_loop i w d scopes (outs1, n1) = Inr (outs', n')"
    using Cons.prems by (auto split: if_splits)
  have "\<exists>new. outs1 = outs @ new \<and> (\<forall>o'\<in>set new. emits i w d scope o') \<and> complete i w d scope (set new)"
  proof (cases "?atts = []")
    case True
    then show ?thesis using s(1) by (auto simp: emits_def complete_def split: if_splits)
  next
    case False
    then obtain new where new: "outs1 = outs @ new" "list_all2 (produced i w d scope) ?atts new"
      using s(1) attachment_loop_Inr [of i w d scope ?atts outs n outs1 n1] by auto
    have "\<forall>o'\<in>set new. emits i w d scope o'" using list_all2_right [OF new(2)] False by (auto simp: emits_def)
    moreover have "complete i w d scope (set new)" using list_all2_left [OF new(2)] False by (auto simp: complete_def)
    ultimately show ?thesis using new(1) by blast
  qed
  then obtain new1 where n1: "outs1 = outs @ new1" "\<forall>o'\<in>set new1. emits i w d scope o'" "complete i w d scope (set new1)" by blast
  obtain new2 where n2: "outs' = outs1 @ new2" "\<forall>o'\<in>set new2. \<exists>scope\<in>set scopes. emits i w d scope o'"
      "\<forall>scope\<in>set scopes. complete i w d scope (set new2)" using Cons.IH [OF s(2)] by blast
  show ?case
    using n1 n2 by (intro exI [of _ "new1 @ new2"]) (auto intro!: complete_UnI)
qed simp

lemma direction_loop_Inr:
  "direction_loop i scopes w ds (outs, n) = Inr (outs', n') \<Longrightarrow>
     \<exists>new. outs' = outs @ new \<and> (\<forall>o'\<in>set new. \<exists>d\<in>set ds. \<exists>scope\<in>set scopes. emits i w d scope o') \<and>
       (\<forall>d\<in>set ds. \<forall>scope\<in>set scopes. complete i w d scope (set new))"
proof (induction ds arbitrary: outs n)
  case (Cons d ds)
  obtain outs1 n1 where s: "scope_loop i w d scopes (outs, n) = Inr (outs1, n1)" "direction_loop i scopes w ds (outs1, n1) = Inr (outs', n')"
    using Cons.prems by auto
  obtain new1 where n1: "outs1 = outs @ new1" "\<forall>o'\<in>set new1. \<exists>scope\<in>set scopes. emits i w d scope o'"
      "\<forall>scope\<in>set scopes. complete i w d scope (set new1)" using scope_loop_Inr [OF s(1)] by blast
  obtain new2 where n2: "outs' = outs1 @ new2" "\<forall>o'\<in>set new2. \<exists>d\<in>set ds. \<exists>scope\<in>set scopes. emits i w d scope o'"
      "\<forall>d\<in>set ds. \<forall>scope\<in>set scopes. complete i w d scope (set new2)" using Cons.IH [OF s(2)] by blast
  show ?case
    using n1 n2 by (intro exI [of _ "new1 @ new2"]) (auto intro!: complete_UnI)
qed simp

lemma address_loop_Inr:
  "address_loop i scopes ds ws (outs, n) = Inr (outs', n') \<Longrightarrow>
     \<exists>new. outs' = outs @ new \<and> (\<forall>o'\<in>set new. \<exists>w\<in>set ws. \<exists>d\<in>set ds. \<exists>scope\<in>set scopes. emits i w d scope o') \<and>
       (\<forall>w\<in>set ws. \<forall>d\<in>set ds. \<forall>scope\<in>set scopes. complete i w d scope (set new))"
proof (induction ws arbitrary: outs n)
  case (Cons w ws)
  obtain outs1 n1 where s: "direction_loop i scopes w ds (outs, n) = Inr (outs1, n1)" "address_loop i scopes ds ws (outs1, n1) = Inr (outs', n')"
    using Cons.prems by (auto split: if_splits)
  obtain new1 where n1: "outs1 = outs @ new1" "\<forall>o'\<in>set new1. \<exists>d\<in>set ds. \<exists>scope\<in>set scopes. emits i w d scope o'"
      "\<forall>d\<in>set ds. \<forall>scope\<in>set scopes. complete i w d scope (set new1)" using direction_loop_Inr [OF s(1)] by blast
  obtain new2 where n2: "outs' = outs1 @ new2" "\<forall>o'\<in>set new2. \<exists>w\<in>set ws. \<exists>d\<in>set ds. \<exists>scope\<in>set scopes. emits i w d scope o'"
      "\<forall>w\<in>set ws. \<forall>d\<in>set ds. \<forall>scope\<in>set scopes. complete i w d scope (set new2)" using Cons.IH [OF s(2)] by blast
  show ?case
    using n1 n2 by (intro exI [of _ "new1 @ new2"]) (auto intro!: complete_UnI)
qed simp

section \<open>Coalescing\<close>

lemma attachmentEqual_iff: "attachmentEqual a b \<longleftrightarrow> a = b"
  by (cases a; cases b) (auto simp: attachmentEqual_def list_all2_eq [symmetric])

lemma evidenceEqual_iff: "evidenceEqual a b \<longleftrightarrow> a = b"
  by (cases a; cases b) (auto simp: evidenceEqual_def list_all2_eq [symmetric])

lemma outcomeSame_iff: "outcomeSame a b \<longleftrightarrow> b\<lparr>oc_Prefix := p\<rparr> = a\<lparr>oc_Prefix := p\<rparr>"
proof -
  have "evidenceEqual = (=)" by (intro ext) (simp add: evidenceEqual_iff)
  then show ?thesis
    by (cases a; cases b) (auto simp: outcomeSame_def attachmentEqual_iff list_all2_eq [symmetric] split: option.splits)
qed

text \<open>The outcomes of the groups: each prefix of a group comes from an outcome like its prototype.\<close>

definition grouped :: "outcomeGroup list \<Rightarrow> Outcome set" where
  "grouped gs = (\<Union>g\<in>set gs. (\<lambda>p. (og_prototype g)\<lparr>oc_Prefix := p\<rparr>) ` set (og_prefixes g))"

lemma add_to_group_members: "grouped (add_to_group v gs) = insert v (grouped gs)"
proof (induction gs)
  case (Cons g gs)
  show ?case
  proof (cases "outcomeSame (og_prototype g) v")
    case True
    then have "v = (og_prototype g)\<lparr>oc_Prefix := oc_Prefix v\<rparr>" using outcomeSame_iff [of "og_prototype g" v "oc_Prefix v"] by simp
    then show ?thesis using True by (auto simp: grouped_def)
  next
    case False
    then show ?thesis using Cons by (auto simp: grouped_def)
  qed
qed (simp add: grouped_def)

lemma group_outcomes_members: "group_outcomes ctx vs gs = Some gs' \<Longrightarrow> grouped gs' = set vs \<union> grouped gs"
  by (induction vs arbitrary: gs) (auto simp: add_to_group_members split: if_splits)

lemma coalesce_members:
  assumes "\<not> ctx" "\<forall>v\<in>set vs. pfx_ok (oc_Prefix v) \<and> pfam (oc_Prefix v) = F"
  shows "r \<in> set (coalesceOutcomes ctx vs) \<and> prefix_Contains (oc_Prefix r) a \<Longrightarrow>
      \<exists>v\<in>set vs. r = v\<lparr>oc_Prefix := oc_Prefix r\<rparr> \<and> prefix_Contains (oc_Prefix v) a"
    and "v \<in> set vs \<and> prefix_Contains (oc_Prefix v) a \<Longrightarrow>
      \<exists>r\<in>set (coalesceOutcomes ctx vs). r = v\<lparr>oc_Prefix := oc_Prefix r\<rparr> \<and> prefix_Contains (oc_Prefix r) a"
proof -
  have "\<exists>gs. group_outcomes ctx vs gs0 = Some gs" for gs0
    using assms(1) by (induction vs arbitrary: gs0) (auto simp: contextErr_def)
  then obtain gs where gs: "group_outcomes ctx vs [] = Some gs" by blast
  have mem: "grouped gs = set vs" using group_outcomes_members [OF gs] by (simp add: grouped_def)
  have res: "set (coalesceOutcomes ctx vs) =
      (\<Union>g\<in>set gs. (\<lambda>p. (og_prototype g)\<lparr>oc_Prefix := p\<rparr>) ` set (mergePrefixes (og_prefixes g)))"
    using gs by (simp add: coalesceOutcomes_def)
  have cov: "covers (mergePrefixes (og_prefixes g)) a = covers (og_prefixes g) a" if g: "g \<in> set gs" for g a
  proof (rule mergePrefixes_correct(3))
    show "\<forall>p\<in>set (og_prefixes g). pfx_ok p \<and> pfam p = F"
    proof
      fix p assume "p \<in> set (og_prefixes g)"
      then have "(og_prototype g)\<lparr>oc_Prefix := p\<rparr> \<in> set vs" using g unfolding mem [symmetric] grouped_def by blast
      then show "pfx_ok p \<and> pfam p = F" using assms(2) by fastforce
    qed
  qed
  show "\<exists>v\<in>set vs. r = v\<lparr>oc_Prefix := oc_Prefix r\<rparr> \<and> prefix_Contains (oc_Prefix v) a"
    if r: "r \<in> set (coalesceOutcomes ctx vs) \<and> prefix_Contains (oc_Prefix r) a"
  proof -
    obtain g p where g: "g \<in> set gs" "p \<in> set (mergePrefixes (og_prefixes g))" "r = (og_prototype g)\<lparr>oc_Prefix := p\<rparr>"
      using r unfolding res by blast
    then have "covers (og_prefixes g) a" using r cov [OF g(1), of a] by (auto simp: covers_def)
    then obtain q where q: "q \<in> set (og_prefixes g)" "prefix_Contains q a" by (auto simp: covers_def)
    have "(og_prototype g)\<lparr>oc_Prefix := q\<rparr> \<in> set vs" using g(1) q(1) unfolding mem [symmetric] grouped_def by blast
    then show ?thesis using q(2) g(3) by (intro bexI [of _ "(og_prototype g)\<lparr>oc_Prefix := q\<rparr>"]) simp_all
  qed
  show "\<exists>r\<in>set (coalesceOutcomes ctx vs). r = v\<lparr>oc_Prefix := oc_Prefix r\<rparr> \<and> prefix_Contains (oc_Prefix r) a"
    if v: "v \<in> set vs \<and> prefix_Contains (oc_Prefix v) a"
  proof -
    obtain g q where g: "g \<in> set gs" "q \<in> set (og_prefixes g)" "v = (og_prototype g)\<lparr>oc_Prefix := q\<rparr>"
      using v unfolding mem [symmetric] grouped_def by blast
    then have "covers (mergePrefixes (og_prefixes g)) a" using v cov [OF g(1), of a] by (auto simp: covers_def)
    then obtain p where p: "p \<in> set (mergePrefixes (og_prefixes g))" "prefix_Contains p a" by (auto simp: covers_def)
    have "(og_prototype g)\<lparr>oc_Prefix := p\<rparr> \<in> set (coalesceOutcomes ctx vs)" using g(1) p(1) unfolding res by blast
    then show ?thesis using p(2) g(3) by (intro bexI [of _ "(og_prototype g)\<lparr>oc_Prefix := p\<rparr>"]) simp_all
  qed
qed

lemma coalesce_ok:
  assumes "\<not> ctx" "\<forall>v\<in>set vs. pfx_ok (oc_Prefix v) \<and> pfam (oc_Prefix v) = F" "r \<in> set (coalesceOutcomes ctx vs)"
  shows "pfx_ok (oc_Prefix r)"
proof -
  obtain gs where gs: "group_outcomes ctx vs [] = Some gs" using assms(3) by (cases "group_outcomes ctx vs []") (auto simp: coalesceOutcomes_def)
  have mem: "grouped gs = set vs" using group_outcomes_members [OF gs] by (simp add: grouped_def)
  obtain g p where g: "g \<in> set gs" "p \<in> set (mergePrefixes (og_prefixes g))" "r = (og_prototype g)\<lparr>oc_Prefix := p\<rparr>"
    using assms(3) gs by (auto simp: coalesceOutcomes_def)
  have "\<forall>q\<in>set (og_prefixes g). pfx_ok q \<and> pfam q = F"
  proof
    fix q assume "q \<in> set (og_prefixes g)"
    then have "(og_prototype g)\<lparr>oc_Prefix := q\<rparr> \<in> set vs" using g(1) unfolding mem [symmetric] grouped_def by blast
    then show "pfx_ok q \<and> pfam q = F" using assms(2) by fastforce
  qed
  then show ?thesis using mergePrefixes_correct(1) canonical_ok g(2,3) by fastforce
qed

section \<open>Answers\<close>

lemma validPrefix_ok: "validPrefix p \<Longrightarrow> pfx_ok p"
  by (auto simp: validPrefix_def pfx_ok_def)

lemma validateDynamic_None:
  assumes "validateDynamic dynamic = None"
  shows "\<forall>l\<in>set (dy_Prefixes dynamic). pfx_ok (tp_Prefix l)" "\<forall>d\<in>set (dy_Decisions dynamic). pfx_ok (de_Prefix d)"
  using assms by (auto simp: validateDynamic_def list_ex_iff validPrefix_ok split: if_splits)

lemma trafficScopes_member:
  assumes "scope \<in> set (trafficScopes s f request)"
    and "rq_Port request = None \<or> rq_Protocol request = ''tcp'' \<or> rq_Protocol request = ''udp''"
  obtains protocol where "scope \<in> set (protocol_scopes (static_family s f) (rq_Port request) protocol)"
    "rq_Port request = None \<or> protocol = ''tcp'' \<or> protocol = ''udp''" "tf_protocol scope = protocol"
proof -
  obtain protocol where p: "protocol \<in> set (if rq_Protocol request \<noteq> '''' then [rq_Protocol request] else [''tcp'', ''udp'', ''icmp'', ''other''])"
    "scope \<in> set (protocol_scopes (static_family s f) (rq_Port request) protocol)"
    using assms(1) unfolding trafficScopes_def Let_def set_concat set_map by blast
  have "tf_protocol scope = protocol" using p(2) by (auto simp: protocol_scopes_def Let_def split: option.splits if_splits)
  moreover have "rq_Port request = None \<or> protocol = ''tcp'' \<or> protocol = ''udp''" using p(1) assms(2) by (auto split: if_splits)
  ultimately show thesis using p(2) by (intro that)
qed

lemma notManaged_sound:
  assumes "static_family s f = None \<or> attachmentsFor s d = []"
  shows "outcome_sound s f dynamic now (makeNotManagedWith w d scope att reason)"
  using assms by (auto simp: outcome_sound_def makeNotManagedWith_def split: option.splits)

lemma produced_sound:
  assumes "view_ok (ei_static i)" "part_ok (ei_static i) (ei_family i) (ei_dynamic i) w"
    and "scope \<in> set (trafficScopes (ei_static i) (ei_family i) (ei_request i))"
    and "rq_Port (ei_request i) = None \<or> rq_Protocol (ei_request i) = ''tcp'' \<or> rq_Protocol (ei_request i) = ''udp''"
    and "produced i w d scope att outcome" "att \<in> set (attachmentsFor (ei_static i) d)"
  shows "located w d scope att outcome \<and> outcome_sound (ei_static i) (ei_family i) (ei_dynamic i) (ei_now i) outcome"
proof (cases "static_family (ei_static i) (ei_family i)")
  case None
  then show ?thesis using assms(5) makeNotManagedWith_located notManaged_sound by (simp add: produced_def)
next
  case (Some plan)
  obtain protocol where p: "scope \<in> set (protocol_scopes (Some plan) (rq_Port (ei_request i)) protocol)"
    "rq_Port (ei_request i) = None \<or> protocol = ''tcp'' \<or> protocol = ''udp''"
    using trafficScopes_member [OF assms(3,4)] Some by metis
  obtain limit where "evaluateScope (ei_ctx i) (ei_static i) plan (ei_dynamic i) w d scope att (ei_now i) limit = Some outcome"
    using assms(5) Some by (auto simp: produced_def)
  then show ?thesis using evaluateScope_sound [OF assms(1) Some assms(2) p _ assms(6)] by blast
qed

lemma emits_sound:
  assumes "view_ok (ei_static i)" "part_ok (ei_static i) (ei_family i) (ei_dynamic i) w"
    and "scope \<in> set (trafficScopes (ei_static i) (ei_family i) (ei_request i))"
    and "rq_Port (ei_request i) = None \<or> rq_Protocol (ei_request i) = ''tcp'' \<or> rq_Protocol (ei_request i) = ''udp''"
    and "emits i w d scope outcome"
  shows "oc_Prefix outcome = w \<and> outcome_sound (ei_static i) (ei_family i) (ei_dynamic i) (ei_now i) outcome"
proof (cases "attachmentsFor (ei_static i) d = []")
  case True
  then have "outcome = makeNotManaged w d scope ''no managed attachment''" using assms(5) by (simp add: emits_def)
  moreover have "oc_Prefix (makeNotManaged w d scope r) = w" for r by (simp add: makeNotManaged_def makeNotManagedWith_def)
  ultimately show ?thesis using True notManaged_sound unfolding makeNotManaged_def by blast
next
  case False
  then obtain att where "att \<in> set (attachmentsFor (ei_static i) d)" "produced i w d scope att outcome" using assms(5) by (auto simp: emits_def)
  then show ?thesis using produced_sound [OF assms(1-4)] by (auto simp: located_def)
qed

text \<open>Everything a complete answer promises.\<close>

definition answers :: "Static \<Rightarrow> Dynamic \<Rightarrow> instant \<Rightarrow> Request \<Rightarrow> prefix \<Rightarrow> Outcome list \<Rightarrow> bool" where
  "answers s dynamic now request query outcomes =
     ((\<forall>outcome\<in>set outcomes. outcome_sound s (prefix_family query) dynamic now outcome) \<and>
      (\<forall>flow. \<forall>d\<in>set (request_directions request). request_flow request flow \<and> prefix_Contains query (remote_of d flow) \<longrightarrow>
         (\<exists>outcome\<in>set outcomes. oc_Direction outcome = d \<and> flow_in outcome flow) \<and>
         (\<forall>att\<in>set (attachmentsFor s d). \<exists>outcome\<in>set outcomes. oc_Direction outcome = d \<and> flow_in outcome flow \<and>
            (oc_Attachment outcome)\<lparr>la_Managed := True\<rparr> = att\<lparr>la_Managed := True\<rparr>)))"

lemma sound_update:
  assumes "outcome_sound s f dynamic now v" "r = v\<lparr>oc_Prefix := p\<rparr>"
    and "\<And>flow. flow_in r flow \<Longrightarrow> \<exists>u. outcome_sound s f dynamic now u \<and> flow_in u flow \<and> r = u\<lparr>oc_Prefix := p\<rparr>"
  shows "outcome_sound s f dynamic now r"
proof (cases "static_family s f")
  case None
  then show ?thesis using assms(1,2) by (simp add: outcome_sound_def)
next
  case (Some plan)
  have e: "oc_Action r = oc_Action u" "oc_Policy r = oc_Policy u" "oc_Direction r = oc_Direction u" "oc_Verdict r = oc_Verdict u"
    if "r = u\<lparr>oc_Prefix := p\<rparr>" for u using that by simp_all
  show ?thesis
  proof (cases "attachmentsFor s (oc_Direction r) = []")
    case True
    then show ?thesis using assms(1) e [OF assms(2)] Some by (simp add: outcome_sound_def)
  next
    case False
    have "ev_Action (evaluate plan (oc_Direction r) flow (live_leases dynamic now)) = oc_Action r \<and>
        ev_Trace (evaluate plan (oc_Direction r) flow (live_leases dynamic now)) = oc_Policy r" if fl: "flow_in r flow" for flow
    proof -
      obtain u where u: "outcome_sound s f dynamic now u" "flow_in u flow" "r = u\<lparr>oc_Prefix := p\<rparr>" using assms(3) [OF fl] by blast
      then show ?thesis using Some False e [OF u(3)] by (simp add: outcome_sound_def)
    qed
    then show ?thesis using assms(1) e [OF assms(2)] Some False by (simp add: outcome_sound_def)
  qed
qed

lemma located_flow:
  assumes "located w d scope att v" "tf_protocol scope = fl_Protocol flow" "in_ports (tf_ports scope) (fl_Port flow)"
    and "request_flow request flow" "prefix_Contains w (remote_of d flow)"
  shows "flow_in v flow \<and> oc_Direction v = d \<and> (oc_Attachment v)\<lparr>la_Managed := True\<rparr> = att\<lparr>la_Managed := True\<rparr>"
  using assms by (auto simp: located_def flow_in_def request_flow_def)

lemma answers_coalesced:
  assumes view: "view_ok (ei_static i)" and ctx: "\<not> ei_ctx i"
    and port: "rq_Port (ei_request i) = None \<or> rq_Protocol (ei_request i) = ''tcp'' \<or> rq_Protocol (ei_request i) = ''udp''"
    and fam: "ei_family i = prefix_family q"
    and ws: "\<forall>w\<in>set ws. part_ok (ei_static i) (ei_family i) (ei_dynamic i) w" "\<forall>a. covers ws a = prefix_Contains q a"
    and loop: "address_loop i (trafficScopes (ei_static i) (ei_family i) (ei_request i)) (request_directions (ei_request i)) ws ([], 0) = Inr (outs, n)"
  shows "answers (ei_static i) (ei_dynamic i) (ei_now i) (ei_request i) q (coalesceOutcomes (ei_ctx i) outs)"
proof -
  let ?s = "ei_static i" and ?f = "ei_family i" and ?rs = "coalesceOutcomes (ei_ctx i) outs"
  let ?scopes = "trafficScopes ?s ?f (ei_request i)" and ?ds = "request_directions (ei_request i)"
  have em: "\<forall>o'\<in>set outs. \<exists>w\<in>set ws. \<exists>d\<in>set ?ds. \<exists>scope\<in>set ?scopes. emits i w d scope o'"
    and co: "\<forall>w\<in>set ws. \<forall>d\<in>set ?ds. \<forall>scope\<in>set ?scopes. complete i w d scope (set outs)"
    using address_loop_Inr [OF loop] by auto
  have so: "oc_Prefix v \<in> set ws \<and> outcome_sound ?s ?f (ei_dynamic i) (ei_now i) v" if v: "v \<in> set outs" for v
  proof -
    obtain w d scope where w: "w \<in> set ws" "scope \<in> set ?scopes" "emits i w d scope v" using em v by blast
    have "part_ok ?s ?f (ei_dynamic i) w" using ws(1) w(1) by blast
    then show ?thesis using emits_sound [OF view _ w(2) port w(3)] w(1) by blast
  qed
  have pf: "\<forall>v\<in>set outs. pfx_ok (oc_Prefix v) \<and> pfam (oc_Prefix v) = family_bits ?f"
    using so ws(1) by (auto simp: part_ok_def)
  note cm = coalesce_members [OF ctx pf]
  have sound: "outcome_sound ?s ?f (ei_dynamic i) (ei_now i) r" if r: "r \<in> set ?rs" for r
  proof -
    have "pfx_ok (oc_Prefix r)" using coalesce_ok [OF ctx pf r] .
    then have "prefix_Contains (oc_Prefix r) (pAddr (oc_Prefix r))" by (rule part_start)
    then obtain v where v: "v \<in> set outs" "r = v\<lparr>oc_Prefix := oc_Prefix r\<rparr>" using cm(1) r by blast
    show ?thesis
    proof (rule sound_update [OF _ v(2)])
      show "outcome_sound ?s ?f (ei_dynamic i) (ei_now i) v" using so v(1) by blast
      fix flow assume fl: "flow_in r flow"
      then have "prefix_Contains (oc_Prefix r) (remote_of (oc_Direction r) flow)" by (simp add: flow_in_def)
      then obtain u where u: "u \<in> set outs" "r = u\<lparr>oc_Prefix := oc_Prefix r\<rparr>" "prefix_Contains (oc_Prefix u) (remote_of (oc_Direction r) flow)"
        using cm(1) r by blast
      have e: "oc_Protocol r = oc_Protocol u" "oc_Direction r = oc_Direction u" "oc_Ports r = oc_Ports u"
        by (subst u(2), simp)+
      have "flow_in u flow" using fl u(3) by (simp add: flow_in_def e)
      then show "\<exists>u. outcome_sound ?s ?f (ei_dynamic i) (ei_now i) u \<and> flow_in u flow \<and> r = u\<lparr>oc_Prefix := oc_Prefix r\<rparr>"
        using so u(1,2) by blast
    qed
  qed
  have lift: "\<exists>r\<in>set ?rs. oc_Direction r = d \<and> flow_in r flow \<and> oc_Attachment r = oc_Attachment v"
    if v: "v \<in> set outs" "oc_Direction v = d" "flow_in v flow" for v d flow
  proof -
    have "prefix_Contains (oc_Prefix v) (remote_of d flow)" using v(2,3) by (simp add: flow_in_def)
    then obtain r where r: "r \<in> set ?rs" "r = v\<lparr>oc_Prefix := oc_Prefix r\<rparr>" "prefix_Contains (oc_Prefix r) (remote_of d flow)"
      using cm(2) v(1) by blast
    have e: "oc_Protocol r = oc_Protocol v" "oc_Direction r = oc_Direction v" "oc_Ports r = oc_Ports v" "oc_Attachment r = oc_Attachment v"
      by (subst r(2), simp)+
    then show ?thesis using r(1,3) v(2,3) by (intro bexI [of _ r]) (simp_all add: flow_in_def)
  qed
  have "(\<exists>r\<in>set ?rs. oc_Direction r = d \<and> flow_in r flow) \<and>
      (\<forall>att\<in>set (attachmentsFor ?s d). \<exists>r\<in>set ?rs. oc_Direction r = d \<and> flow_in r flow \<and>
        (oc_Attachment r)\<lparr>la_Managed := True\<rparr> = att\<lparr>la_Managed := True\<rparr>)"
    if d: "d \<in> set ?ds" and fl: "request_flow (ei_request i) flow" and q: "prefix_Contains q (remote_of d flow)" for flow d
  proof -
    obtain w where w: "w \<in> set ws" "prefix_Contains w (remote_of d flow)" using ws(2) q by (auto simp: covers_def)
    obtain scope where sc: "scope \<in> set ?scopes" "tf_protocol scope = fl_Protocol flow" "in_ports (tf_ports scope) (fl_Port flow)"
      using trafficScopes_cover [OF fl] by blast
    have c: "complete i w d scope (set outs)" using co w(1) d sc(1) by blast
    have po: "part_ok ?s ?f (ei_dynamic i) w" using ws(1) w(1) by blast
    show ?thesis
    proof (cases "attachmentsFor ?s d = []")
      case True
      then have "makeNotManaged w d scope ''no managed attachment'' \<in> set outs" using c by (simp add: complete_def)
      moreover have "flow_in (makeNotManaged w d scope ''no managed attachment'') flow"
        "oc_Direction (makeNotManaged w d scope ''no managed attachment'') = d"
        using sc w(2) fl by (auto simp: makeNotManaged_def makeNotManagedWith_def flow_in_def request_flow_def)
      ultimately show ?thesis using lift True by fastforce
    next
      case False
      have each: "\<exists>r\<in>set ?rs. oc_Direction r = d \<and> flow_in r flow \<and> (oc_Attachment r)\<lparr>la_Managed := True\<rparr> = att\<lparr>la_Managed := True\<rparr>"
        if att: "att \<in> set (attachmentsFor ?s d)" for att
      proof -
        obtain v where v: "v \<in> set outs" "produced i w d scope att v" using c False att by (auto simp: complete_def)
        have "located w d scope att v" using produced_sound [OF view po sc(1) port v(2) att] by blast
        note l = located_flow [OF this sc(2,3) fl w(2)]
        then obtain r where "r \<in> set ?rs" "oc_Direction r = d" "flow_in r flow" "oc_Attachment r = oc_Attachment v"
          using lift [OF v(1)] by blast
        then show ?thesis using l by (intro bexI [of _ r]) simp_all
      qed
      obtain att where "att \<in> set (attachmentsFor ?s d)" using False by (cases "attachmentsFor ?s d") auto
      then show ?thesis using each by blast
    qed
  qed
  then show ?thesis using sound unfolding answers_def fam by blast
qed

text \<open>An early return carries a failure.\<close>

lemma attachment_loop_Inl: "attachment_loop i w d scope atts st = Inl r \<Longrightarrow> rs_Error r \<noteq> None"
proof (induction atts arbitrary: st)
  case (Cons att atts)
  obtain outs n where st: "st = (outs, n)" by (cases st)
  show ?case using Cons.prems unfolding st
    by (auto simp: limit_exceeded_def cancelled_def Unknown_def split: option.splits if_splits dest: Cons.IH)
qed simp

lemma scope_loop_Inl: "scope_loop i w d scopes st = Inl r \<Longrightarrow> rs_Error r \<noteq> None"
proof (induction scopes arbitrary: st)
  case (Cons scope scopes)
  obtain outs n where st: "st = (outs, n)" by (cases st)
  show ?case using Cons.prems unfolding st
    by (auto simp: result_bind_Inl limit_exceeded_def cancelled_def Unknown_def split: if_splits
        dest: Cons.IH attachment_loop_Inl)
qed simp

lemma direction_loop_Inl: "direction_loop i scopes w ds st = Inl r \<Longrightarrow> rs_Error r \<noteq> None"
  by (induction ds arbitrary: st) (auto simp: result_bind_Inl dest: scope_loop_Inl)

lemma address_loop_Inl: "address_loop i scopes ds ws st = Inl r \<Longrightarrow> rs_Error r \<noteq> None"
  by (induction ws arbitrary: st)
    (auto simp: result_bind_Inl cancelled_def Unknown_def split: if_splits dest: direction_loop_Inl)

lemma evaluate_query_answers:
  assumes "view_ok (ei_static i)" "rs_Error (evaluate_query i) = None" "ei_family i = prefix_family q"
    and "query_prefix (ei_request i) = q" "pfx_ok q"
    and "rq_Port (ei_request i) = None \<or> rq_Protocol (ei_request i) = ''tcp'' \<or> rq_Protocol (ei_request i) = ''udp''"
    and "\<forall>l\<in>set (dy_Prefixes (ei_dynamic i)). pfx_ok (tp_Prefix l)" "\<forall>d\<in>set (dy_Decisions (ei_dynamic i)). pfx_ok (de_Prefix d)"
  shows "rs_Query (evaluate_query i) = ei_request i \<and>
    answers (ei_static i) (ei_dynamic i) (ei_now i) (ei_request i) q (rs_Outcomes (evaluate_query i)) \<and>
    rs_Verdict (evaluate_query i) = summary (rs_Outcomes (evaluate_query i))"
proof -
  let ?s = "ei_static i" and ?f = "ei_family i"
  let ?scopes = "trafficScopes ?s ?f (ei_request i)" and ?ds = "request_directions (ei_request i)"
  obtain ws where ws: "partitionPrefixes (ei_ctx i) q (sv_boundaries ?s ?f) (dy_Prefixes (ei_dynamic i)) (dy_Decisions (ei_dynamic i)) = Some ws"
    using assms(2,4) by (cases "partitionPrefixes (ei_ctx i) q (sv_boundaries ?s ?f) (dy_Prefixes (ei_dynamic i)) (dy_Decisions (ei_dynamic i))")
      (auto simp: evaluate_query_def cancelled_def Unknown_def split: if_splits)
  then have ctx: "\<not> ei_ctx i" by (auto simp: partitionPrefixes_def contextErr_def)
  have ne: "length ?scopes \<noteq> 0" using assms(2,4) ws by (auto simp: evaluate_query_def Let_def Unknown_def split: if_splits)
  obtain outs n where loop: "address_loop i ?scopes ?ds ws ([], 0) = Inr (outs, n)"
  proof (cases "address_loop i ?scopes ?ds ws ([], 0)")
    case (Inl r)
    then have "evaluate_query i = r" using assms(4) ws ne by (simp add: evaluate_query_def Let_def)
    then show ?thesis using address_loop_Inl [OF Inl] assms(2) by simp
  qed (metis old.prod.exhaust that)
  have "ordered (sv_boundaries ?s ?f)" using assms(1) by (simp add: view_ok_def)
  note pc = partition_correct [OF ws this assms(5,7,8)]
  have "pfam q = family_bits ?f"
    using assms(3) pfam_cases [OF assms(5)] by (auto simp: prefix_family_def family_bits_def)
  then have parts: "\<forall>w\<in>set ws. part_ok ?s ?f (ei_dynamic i) w"
    using pc assms(7) by (auto simp: part_ok_def canonical_def)
  have "answers ?s (ei_dynamic i) (ei_now i) (ei_request i) q (coalesceOutcomes (ei_ctx i) outs)"
    using pc by (intro answers_coalesced [OF assms(1) ctx assms(6,3) parts _ loop]) blast
  then show ?thesis using assms(4) ws ne loop ctx by (simp add: evaluate_query_def Let_def contextErr_def)
qed

lemma Evaluate_answers:
  assumes "view_ok s" "Evaluate ctx (Some s) dynamic request now clock = response" "rs_Error response = None"
  shows "\<exists>n q. request_Normalize request = Inr n \<and> ParsePrefix (rq_Address n) = Some q \<and> pfx_ok q \<and> rs_Query response = n \<and>
    answers s dynamic (if now = 0 then clock else now) n q (rs_Outcomes response) \<and> rs_Verdict response = summary (rs_Outcomes response)"
proof -
  obtain n where n: "request_Normalize request = Inr n"
    using assms(2,3) by (cases "request_Normalize request") (auto simp: Evaluate_def Unknown_def)
  obtain q where q: "pfx_ok q" "ParsePrefix (rq_Address n) = Some q"
      "rq_Port n = None \<or> rq_Protocol n = ''tcp'' \<or> rq_Protocol n = ''udp''"
    using request_Normalize_Inr [OF n] by metis
  have v: "validateDynamic dynamic = None"
    using assms(2,3) n by (cases "validateDynamic dynamic") (auto simp: Evaluate_def Let_def Unknown_def)
  have qp: "query_prefix n = q" using q(2) by (simp add: query_prefix_def)
  define i where "i = \<lparr>ei_ctx = ctx, ei_static = s, ei_dynamic = dynamic, ei_request = n,
    ei_family = (if Is4 (pAddr (query_prefix n)) then IPv4 else IPv6), ei_now = (if now = 0 then clock else now)\<rparr>"
  have r: "response = evaluate_query i"
    using assms(2,3) n v by (auto simp: Evaluate_def Let_def i_def Unknown_def split: if_splits)
  have "rs_Query (evaluate_query i) = ei_request i \<and>
    answers (ei_static i) (ei_dynamic i) (ei_now i) (ei_request i) q (rs_Outcomes (evaluate_query i)) \<and>
    rs_Verdict (evaluate_query i) = summary (rs_Outcomes (evaluate_query i))"
    by (rule evaluate_query_answers)
      (use assms(1,3) q qp r validateDynamic_None [OF v] in \<open>simp_all add: i_def prefix_family_def\<close>)
  then show ?thesis using n q r by (auto simp: i_def)
qed

end
