(* ===== verification/Lookup_Compiled.thy ===== *)
theory Lookup_Compiled
  imports Lookup_Sound
begin

text \<open>
  Lookups against compiled targets: the plans of \<open>internal/policy/compile.go\<close> satisfy what the
  evaluation of \<open>internal/lookup/evaluate.go\<close> relies on, the view that
  \<open>internal/lookup/static.go\<close> builds from them is well formed, and so a lookup reports what the
  accepted configuration prescribes.
\<close>

section \<open>Compiled plans are well formed\<close>

lemma GeoEligible_family:
  assumes "p \<in> set (prefixes (GeoEligible f))"
  shows "pfam p = family_bits f"
proof -
  have tables: "list_all (\<lambda>p. prefix_family p = IPv4) (table_prefixes geoIPv4_base @ table_prefixes geoIPv4_restored)"
      "list_all (\<lambda>p. prefix_family p = IPv6) (table_prefixes geoIPv6_base @ table_prefixes geoIPv6_restored)"
    by code_simp+
  have p: "pfx_ok p" using assms GeoEligible_ok [of f] by (auto simp: set_ok_def canonical_def)
  have "prefix_Contains p (pAddr p)" using p pfx_okD [OF p] plo_le_phi [of p] by (auto simp: prefix_Contains_iff plo_def pfam_def simp del: plo_le_phi)
  then have "member (GeoEligible f) (pAddr p)" using assms by (auto simp: member_def covers_def)
  then have "covers (table_prefixes (geo_base f) @ table_prefixes (geo_restored f)) (pAddr p)"
    using geo_tables_built [of f] by (auto simp: GeoEligible_def covers_def)
  then obtain t where t: "t \<in> set (table_prefixes (geo_base f) @ table_prefixes (geo_restored f))" "prefix_Contains t (pAddr p)"
    unfolding covers_def by blast
  have "prefix_family t = f" using t(1) tables by (cases f) (auto simp: list_all_iff)
  moreover have "Is4 (pAddr t) \<longleftrightarrow> Is4 (pAddr p)"
    using t(2) by (cases "pAddr t"; cases "pAddr p") (auto simp: prefix_Contains_def split: if_splits)
  ultimately show ?thesis using pfam_cases [OF p] by (auto simp: prefix_family_def family_bits_def split: if_splits)
qed

lemma allowFamily_ok:
  assumes "set_ok s"
  shows "canonical (set_Prefixes (allowFamily s f))" "\<forall>p\<in>set (set_Prefixes (allowFamily s f)). pfam p = family_bits f"
proof -
  have ok: "set_ok (allowFamily s f)" using assms by (simp add: allowFamily_def set_IPv4_ok set_IPv6_ok)
  then show "canonical (set_Prefixes (allowFamily s f))" by (simp add: set_ok_def set_Prefixes_def)
  have "pfx_ok p" if "p \<in> set (prefixes (allowFamily s f))" for p using that ok by (auto simp: set_ok_def canonical_def)
  then show "\<forall>p\<in>set (set_Prefixes (allowFamily s f)). pfam p = family_bits f"
    using pfam_cases by (cases f)
      (fastforce simp: allowFamily_def set_Prefixes_def family_bits_def set_IPv4_ok(3) [OF assms] set_IPv6_ok(3) [OF assms])+
qed

lemma includedFamily_allowFamily: "includedFamily p f = allowFamily (cp_included p) f"
  by (simp add: includedFamily_def allowFamily_def)

lemma compileFamily_ok:
  fixes digest :: "8 word list \<Rightarrow> 'd"
  assumes names: "distinct (map (\<lambda>c. po_Name (cp_policy c)) cs)" and sets: "\<forall>c\<in>set cs. set_ok (cp_included c)"
    and ok: "set_ok allow" "set_ok block"
  shows "plan_ok (compileFamily digest f allow block cs crowdsec deny)"
proof -
  define plan where "plan = compileFamily digest f allow block cs crowdsec deny"
  define fpol where "fpol = filter (\<lambda>c. policyApplies (po_Traffic (cp_policy c)) f) cs"
  obtain geoSets bindings where geo: "compileGeoSets digest f fpol = (geoSets, bindings)" by fastforce
  have fnames: "distinct (map (\<lambda>c. po_Name (cp_policy c)) fpol)" using names by (simp add: fpol_def distinct_map_filter)
  note refs = compileFamily_references [OF names, of digest f allow block crowdsec deny, folded plan_def]
  have geoset: "ps_Kind s = StaticSet \<and> ps_ID s \<noteq> ''crowdsec'' \<and> canonical (ps_Prefixes s) \<and>
      (\<forall>p\<in>set (ps_Prefixes s). pfam p = family_bits f)" if s: "s \<in> set geoSets" for s
  proof -
    obtain c where c: "c \<in> set fpol" "ps_Prefixes s = set_Prefixes (includedFamily c f)"
      using compileGeoSets_prefixes [OF fnames geo s] by blast
    have "set_ok (cp_included c)" using c(1) sets by (simp add: fpol_def)
    then show ?thesis using c(2) compileGeoSets_ok(3) [OF fnames geo s] allowFamily_ok [of "cp_included c" f]
      by (auto simp: includedFamily_allowFamily)
  qed
  have fam: "fp_Family plan = f" by (simp add: plan_def compileFamily_def Let_def split: prod.split)
  have all: "(ps_Kind s = DynamicCrowdSecSet) = (ps_ID s = ''crowdsec'') \<and> canonical (ps_Prefixes s) \<and>
      (\<forall>p\<in>set (ps_Prefixes s). pfam p = family_bits f)" if "s \<in> set (fp_Sets plan)" for s
    using that geoset [of s] allowFamily_ok [OF ok(1), of f] allowFamily_ok [OF ok(2), of f] GeoEligible_ok [of f] GeoEligible_family [of _ f]
    by (auto simp: plan_def compileFamily_def Let_def fpol_def [symmetric] geo set_ok_def set_Prefixes_def canonical_def split: if_splits)
  have paths: "pa_Remote path = (if pa_Direction path = Egress then DestinationAddress else SourceAddress)"
    if "path \<in> set (fp_Paths plan)" for path
    using that by (auto simp: plan_def compileFamily_def Let_def compilePath_def split: prod.split_asm)
  have cs: "''crowdsec'' \<in> ps_ID ` set (fp_Sets plan)"
    if "path \<in> set (fp_Paths plan)" "r \<in> set (pa_Rules path)" "ma_SetID (ru_Match r) = ''crowdsec''" for path r
  proof -
    have "ma_SetID (ru_Match r) = '''' \<or> ma_SetID (ru_Match r) \<in> ps_ID ` set (fp_Sets plan)" using refs that(1,2) by blast
    then show ?thesis using that(3) by simp
  qed
  show ?thesis unfolding plan_def [symmetric] plan_ok_def fam using refs all paths cs by blast
qed

lemma Compile_plans_ok:
  assumes "Compile digest cfg snapshot = Inr st" "snapshot_ok snapshot"
  shows "distinct (map fp_Family (state_Families st))" "\<forall>plan\<in>set (state_Families st). plan_ok plan"
proof -
  obtain deny allow block cs where c: "set_New (gl_Allowlist (cg_Global cfg)) = Inr allow" "set_New (gl_Blocklist (cg_Global cfg)) = Inr block"
      "compilePolicies (cg_Policies cfg) snapshot = Inr cs" and
    st: "st_families st = (if cs = [] \<and> set_Len block = 0 \<and> \<not> cs_Enabled (cg_CrowdSec cfg) then []
       else (if fw_IPv4 (cg_Firewall cfg) then [compileFamily digest IPv4 allow block cs (cs_Enabled (cg_CrowdSec cfg)) deny] else []) @
            (if fw_IPv6 (cg_Firewall cfg) then [compileFamily digest IPv6 allow block cs (cs_Enabled (cg_CrowdSec cfg)) deny] else []))"
    by (rule Compile_Inr [OF assms(1)])
  have fam: "fp_Family (compileFamily digest f allow block cs crowdsec deny) = f" for f crowdsec
    by (simp add: compileFamily_def Let_def split: prod.split)
  have "\<forall>c\<in>set cs. set_ok (cp_included c)" using compilePolicies_Inr(2) [OF c(3) assms(2)] by (simp add: compiled_ok_def)
  then have "plan_ok (compileFamily digest f allow block cs crowdsec deny)" for f crowdsec
    by (intro compileFamily_ok compiled_names [OF c(3) assms(2)] set_New_ok [OF c(1)] set_New_ok [OF c(2)])
  then show "distinct (map fp_Family (state_Families st))" "\<forall>plan\<in>set (state_Families st). plan_ok plan"
    by (auto simp: st fam)
qed

section \<open>Views of compiled targets\<close>

lemma boundaries_ok:
  assumes "\<forall>b\<in>set bs. pfx_ok b"
  shows "ordered (slices_compact (sort_slice prefix_less bs))"
  using assms prefix_order.sorted_sort_slice [of bs] by (simp add: ordered_def sorted_wrt_slices_compact)

lemma NewStatic_view:
  assumes "NewStatic lib FormatFloat cfg (Some target) snapshot = Inr s"
    and "distinct (map fp_Family (tg_Families target))" "\<forall>plan\<in>set (tg_Families target). plan_ok plan"
    and "\<forall>r\<in>set (sn_records snapshot). \<forall>p\<in>set (sr_IPv4 r @ sr_IPv6 r). pfx_ok p"
    and "canonical (gl_Allowlist (cg_Global cfg))" "canonical (gl_Blocklist (cg_Global cfg))"
  shows "view_ok s" "sv_families s = tg_Families target"
proof -
  define v where "v = (config_view cfg snapshot)\<lparr>sv_families := tg_Families target, sv_table := tg_Table target\<rparr>"
  have s: "sv_families s = tg_Families target" "sv_setIndex s = set_index (tg_Families target)"
      "sv_boundaries s = (\<lambda>f. slices_compact (sort_slice prefix_less (raw_boundaries v f)))"
    using assms(1) by (auto simp: NewStatic_def Let_def buildIndexes_def v_def split: option.splits)
  then show "sv_families s = tg_Families target" by simp
  have v: "sv_families v = tg_Families target" "sv_records v = sn_records snapshot"
      "sv_globalAllow v = gl_Allowlist (cg_Global cfg)" "sv_globalBlock v = gl_Blocklist (cg_Global cfg)"
    by (simp_all add: v_def config_view_def Let_def)
  have raw: "\<forall>b\<in>set (raw_boundaries v f). pfx_ok b" for f
    using assms(3-6) by (auto simp: raw_boundaries_def v plan_ok_def canonical_def split: if_splits)
  have sub: "set (ps_Prefixes t) \<subseteq> set (raw_boundaries v (fp_Family plan))"
    if "plan \<in> set (tg_Families target)" "t \<in> set (fp_Sets plan)" for plan t
    using that by (auto simp: raw_boundaries_def v)
  show "view_ok s" unfolding view_ok_def s
    using assms(2,3) boundaries_ok [OF raw] sub by auto
qed

section \<open>Lookups and the configuration\<close>

definition prescribed ::
  "Config \<Rightarrow> Snapshot \<Rightarrow> Dynamic \<Rightarrow> instant \<Rightarrow> Action \<Rightarrow> Family \<Rightarrow> Direction \<Rightarrow> Flow \<Rightarrow> Action \<times> string" where
  "prescribed cfg snapshot dynamic now deny family direction flow =
     (let (action, trace, _) = reported deny (decide cfg snapshot family direction flow (live_leases dynamic now)) in (action, trace))"

lemma find_by_family: "distinct (map fp_Family plans) \<Longrightarrow> plan \<in> set plans \<Longrightarrow> find (\<lambda>p. fp_Family p = fp_Family plan) plans = Some plan"
  by (induction plans) force+

lemma outcome_prescribed:
  assumes "Compile digest cfg snapshot = Inr st" "snapshot_ok snapshot" "sv_families s = state_Families st" "view_ok s"
    and "denyAction (fw_DenyAction (cg_Firewall cfg)) = Inr deny" "plan \<in> set (state_Families st)" "fp_Family plan = prefix_family q"
    and "outcome_sound s (prefix_family q) dynamic now outcome" "attachmentsFor s (oc_Direction outcome) \<noteq> []"
    and "flow_in outcome flow" "pfx_ok q" "prefix_Contains q (remote_of (oc_Direction outcome) flow)"
  shows "(oc_Action outcome, oc_Policy outcome) = prescribed cfg snapshot dynamic now deny (prefix_family q) (oc_Direction outcome) flow"
proof -
  have fam: "static_family s (prefix_family q) = Some plan"
    using assms(3,4,6,7) unfolding static_family_def view_ok_def assms(3) by (metis find_by_family)
  have "family_matches (fp_Family plan) (remote_of (oc_Direction outcome) flow)"
    using assms(7) contains_family [OF assms(11,12)] pfam_cases [OF assms(11)] by (auto simp: family_matches_def prefix_family_def)
  note d = compiled_decides [OF assms(1,2,6) this, of "live_leases dynamic now"]
  have "ev_Action (evaluate plan (oc_Direction outcome) flow (live_leases dynamic now)) = oc_Action outcome"
      "ev_Trace (evaluate plan (oc_Direction outcome) flow (live_leases dynamic now)) = oc_Policy outcome"
    using assms(8-10) fam by (auto simp: outcome_sound_def)
  then show ?thesis using d assms(5,7) by (auto simp: prescribed_def split: prod.splits)
qed

lemma lookup_prescribed:
  assumes normalized: "normalize_config lib raw = Inr cfg"
    and compiled: "Compile digest cfg (sn_policy snapshot) = Inr st" "snapshot_ok (sn_policy snapshot)"
    and view: "NewStatic lib FormatFloat cfg (Some target) snapshot = Inr s" "tg_Families target = state_Families st"
    and records: "\<forall>r\<in>set (sn_records snapshot). \<forall>p\<in>set (sr_IPv4 r @ sr_IPv6 r). pfx_ok p"
    and response: "Evaluate ctx (Some s) dynamic request now clock = response" "rs_Error response = None"
  shows "\<exists>query network deny. request_Normalize request = Inr query \<and> ParsePrefix (rq_Address query) = Some network \<and>
    denyAction (fw_DenyAction (cg_Firewall cfg)) = Inr deny \<and> rs_Verdict response = summary (rs_Outcomes response) \<and>
    (\<forall>d\<in>set (request_directions query). \<forall>flow. request_flow query flow \<and> prefix_Contains network (remote_of d flow) \<longrightarrow>
      (\<exists>outcome\<in>set (rs_Outcomes response). oc_Direction outcome = d \<and> flow_in outcome flow) \<and>
      (\<forall>attachment\<in>set (attachmentsFor s d). \<exists>outcome\<in>set (rs_Outcomes response). oc_Direction outcome = d \<and> flow_in outcome flow \<and>
        (oc_Attachment outcome)\<lparr>la_Managed := True\<rparr> = attachment\<lparr>la_Managed := True\<rparr>) \<and>
      (\<forall>outcome\<in>set (rs_Outcomes response). oc_Direction outcome = d \<and> flow_in outcome flow \<longrightarrow>
        (oc_Verdict outcome = ''blocked'') = (oc_Action outcome \<noteq> Return) \<and>
        (oc_Action outcome, oc_Policy outcome) =
          (if attachmentsFor s d \<noteq> [] \<and> prefix_family network \<in> fp_Family ` set (state_Families st)
           then prescribed cfg (sn_policy snapshot) dynamic (if now = 0 then clock else now) deny (prefix_family network) d flow
           else (Return, ''''))))"
proof -
  note plans = Compile_plans_ok [OF compiled]
  have g: "canonical (gl_Allowlist (cg_Global cfg))" "canonical (gl_Blocklist (cg_Global cfg))"
    using normalized_config_ok [OF normalized] by (simp_all add: config_ok_def)
  have v: "view_ok s" "sv_families s = state_Families st"
    using NewStatic_view [OF view(1) _ _ records g] plans view(2) by simp_all
  obtain query q where e: "request_Normalize request = Inr query" "ParsePrefix (rq_Address query) = Some q" "pfx_ok q"
      "answers s dynamic (if now = 0 then clock else now) query q (rs_Outcomes response)" "rs_Verdict response = summary (rs_Outcomes response)"
    using Evaluate_answers [OF v(1) response] by blast
  obtain deny where deny: "denyAction (fw_DenyAction (cg_Firewall cfg)) = Inr deny" using Compile_Inr [OF compiled(1)] by blast
  let ?now = "if now = 0 then clock else now"
  have each: "(oc_Verdict outcome = ''blocked'') = (oc_Action outcome \<noteq> Return) \<and> (oc_Action outcome, oc_Policy outcome) =
      (if attachmentsFor s d \<noteq> [] \<and> prefix_family q \<in> fp_Family ` set (state_Families st)
       then prescribed cfg (sn_policy snapshot) dynamic ?now deny (prefix_family q) d flow else (Return, ''''))"
    if o: "outcome \<in> set (rs_Outcomes response)" "oc_Direction outcome = d" "flow_in outcome flow" "prefix_Contains q (remote_of d flow)"
    for outcome d flow
  proof -
    have sound: "outcome_sound s (prefix_family q) dynamic ?now outcome" using e(4) o(1) by (simp add: answers_def)
    show ?thesis
    proof (cases "attachmentsFor s d \<noteq> [] \<and> prefix_family q \<in> fp_Family ` set (state_Families st)")
      case True
      then obtain plan where "plan \<in> set (state_Families st)" "fp_Family plan = prefix_family q" by auto
      then show ?thesis using outcome_prescribed [OF compiled v(2,1) deny _ _ sound _ o(3) e(3)] True o(2,4) sound
        by (auto simp: outcome_sound_def split: if_splits)
    next
      case False
      then have "attachmentsFor s d = [] \<or> static_family s (prefix_family q) = None"
        unfolding static_family_def find_None_iff v(2) by (metis image_eqI)
      then have "oc_Action outcome = Return \<and> oc_Policy outcome = ''''"
        using sound o(2) by (auto simp: outcome_sound_def split: option.splits)
      moreover have "(oc_Verdict outcome = ''blocked'') = (oc_Action outcome \<noteq> Return)" using sound by (simp add: outcome_sound_def)
      ultimately show ?thesis unfolding if_not_P [OF False] by simp
    qed
  qed
  show ?thesis
    by (rule exI [of _ query], rule exI [of _ q], rule exI [of _ deny])
      (use e deny each in \<open>auto simp: answers_def\<close>)
qed

definition lookup_raw :: rawConfig where
  "lookup_raw = sample_raw\<lparr>rcg_Policies := [], rcg_Groups := [],
     rcg_Global := Some \<lparr>rg_Allowlist = None, rg_Blocklist = Some [''8.8.8.0/24'']\<rparr>\<rparr>"

definition lookup_request :: Request where
  "lookup_request = \<lparr>rq_Address = ''8.8.8.8'', rq_Direction = ''ingress'', rq_Protocol = ''tcp'', rq_Port = Some 443\<rparr>"

definition lookup_snapshot :: source_Snapshot where
  "lookup_snapshot = \<lparr>sn_manifest = '''', sn_policy = \<lparr>sn_entries = []\<rparr>, sn_records = [], sn_oldest = 0\<rparr>"

definition lookup_target :: "FamilyPlan list \<Rightarrow> Target" where
  "lookup_target families = \<lparr>tg_Owner = '''', tg_Table = ''perimeterd'', tg_Priority = 0, tg_Generation = '''', tg_Families = families,
     tg_Counters = [], tg_IPTables = None, tg_DynamicGeneration = ''''\<rparr>"

definition no_leases :: Dynamic where
  "no_leases = \<lparr>dy_Epoch = 0, dy_Operation = 0, dy_Prefixes = [], dy_Decisions = [], dy_ValidUntil = 0\<rparr>"

lemma lookup_sample:
  "case normalize_config sample_lib lookup_raw of Inl _ \<Rightarrow> False | Inr cfg \<Rightarrow>
   case Compile length cfg (sn_policy lookup_snapshot) of Inl _ \<Rightarrow> False | Inr st \<Rightarrow>
   case NewStatic sample_lib (\<lambda>_. '''') cfg (Some (lookup_target (state_Families st))) lookup_snapshot of Inl _ \<Rightarrow> False | Inr s \<Rightarrow>
     rs_Error (Evaluate False (Some s) no_leases lookup_request 5 0) = None \<and>
     map oc_Verdict (rs_Outcomes (Evaluate False (Some s) no_leases lookup_request 5 0)) = [''blocked'']"
  by code_simp

definition lookup_flow :: Flow where
  "lookup_flow = \<lparr>fl_Source = IP4 0x08080808, fl_Destination = NoAddr, fl_Protocol = ''tcp'', fl_Port = 443, fl_New = True,
     fl_Established = False\<rparr>"

section \<open>Properties\<close>

text \<open>
  (C2) A lookup reports what the configuration prescribes. Take an accepted configuration, the
  plans compiled from it and a source snapshot, and the view of a target with these plans. When
  a lookup against this view returns without a failure, every new flow of the query belongs to
  an outcome for each attachment of its direction, and every outcome the flow belongs to gives
  the action and the policy the configuration prescribes for the flow under the leases that are
  live at the time of the query: a pass where the direction has no attachment or the address
  family is not managed. An outcome reads \<open>blocked\<close> exactly for an action other than a pass.
\<close>

theorem lookup_decides:
  assumes "normalize_config lib raw = Inr cfg"
    and "Compile digest cfg (sn_policy snapshot) = Inr st" "snapshot_ok (sn_policy snapshot)"
    and "NewStatic lib FormatFloat cfg (Some target) snapshot = Inr s" "tg_Families target = state_Families st"
    and "\<forall>r\<in>set (sn_records snapshot). \<forall>p\<in>set (sr_IPv4 r @ sr_IPv6 r). pfx_ok p"
    and "Evaluate ctx (Some s) dynamic request now clock = response" "rs_Error response = None"
  shows "\<exists>query network deny. request_Normalize request = Inr query \<and> ParsePrefix (rq_Address query) = Some network \<and>
    denyAction (fw_DenyAction (cg_Firewall cfg)) = Inr deny \<and> rs_Verdict response = summary (rs_Outcomes response) \<and>
    (\<forall>d\<in>set (request_directions query). \<forall>flow. request_flow query flow \<and> prefix_Contains network (remote_of d flow) \<longrightarrow>
      (\<exists>outcome\<in>set (rs_Outcomes response). oc_Direction outcome = d \<and> flow_in outcome flow) \<and>
      (\<forall>attachment\<in>set (attachmentsFor s d). \<exists>outcome\<in>set (rs_Outcomes response). oc_Direction outcome = d \<and> flow_in outcome flow \<and>
        (oc_Attachment outcome)\<lparr>la_Managed := True\<rparr> = attachment\<lparr>la_Managed := True\<rparr>) \<and>
      (\<forall>outcome\<in>set (rs_Outcomes response). oc_Direction outcome = d \<and> flow_in outcome flow \<longrightarrow>
        (oc_Verdict outcome = ''blocked'') = (oc_Action outcome \<noteq> Return) \<and>
        (oc_Action outcome, oc_Policy outcome) =
          (if attachmentsFor s d \<noteq> [] \<and> prefix_family network \<in> fp_Family ` set (state_Families st)
           then prescribed cfg (sn_policy snapshot) dynamic (if now = 0 then clock else now) deny (prefix_family network) d flow
           else (Return, ''''))))"
  by (rule lookup_prescribed [OF assms])

theorem lookup_decides_witness:
  "\<exists>cfg st s. normalize_config sample_lib lookup_raw = Inr cfg \<and> Compile length cfg (sn_policy lookup_snapshot) = Inr st \<and>
     NewStatic sample_lib (\<lambda>_. '''') cfg (Some (lookup_target (state_Families st))) lookup_snapshot = Inr s \<and>
     map oc_Verdict (rs_Outcomes (Evaluate False (Some s) no_leases lookup_request 5 0)) = [''blocked''] \<and>
     (\<exists>outcome\<in>set (rs_Outcomes (Evaluate False (Some s) no_leases lookup_request 5 0)).
        flow_in outcome lookup_flow \<and> oc_Action outcome \<noteq> Return)"
proof -
  obtain cfg st s where n: "normalize_config sample_lib lookup_raw = Inr cfg" "Compile length cfg (sn_policy lookup_snapshot) = Inr st"
      "NewStatic sample_lib (\<lambda>_. '''') cfg (Some (lookup_target (state_Families st))) lookup_snapshot = Inr s"
      "rs_Error (Evaluate False (Some s) no_leases lookup_request 5 0) = None"
      "map oc_Verdict (rs_Outcomes (Evaluate False (Some s) no_leases lookup_request 5 0)) = [''blocked'']"
    using lookup_sample by (auto split: sum.split_asm)
  have q: "request_Normalize lookup_request = Inr (lookup_request\<lparr>rq_Address := ''8.8.8.8/32''\<rparr>)"
      "ParsePrefix ''8.8.8.8/32'' = Some (Prefix (IP4 0x08080808) 33)" "prefix_Contains (Prefix (IP4 0x08080808) 33) (IP4 0x08080808)"
    by code_simp+
  have snap: "snapshot_ok (sn_policy lookup_snapshot)" "tg_Families (lookup_target fs) = fs"
      "\<forall>r\<in>set (sn_records lookup_snapshot). \<forall>p\<in>set (sr_IPv4 r @ sr_IPv6 r). pfx_ok p" for fs
    by (simp_all add: lookup_snapshot_def lookup_target_def snapshot_ok_def)
  have flow: "request_flow (lookup_request\<lparr>rq_Address := ''8.8.8.8/32''\<rparr>) lookup_flow" "remote_of Ingress lookup_flow = IP4 0x08080808"
      "request_directions (lookup_request\<lparr>rq_Address := ''8.8.8.8/32''\<rparr>) = [Ingress]"
    by (simp_all add: lookup_request_def lookup_flow_def request_flow_def remote_of_def request_directions_def)
  let ?os = "set (rs_Outcomes (Evaluate False (Some s) no_leases lookup_request 5 0))"
  obtain query network where l: "request_Normalize lookup_request = Inr query" "ParsePrefix (rq_Address query) = Some network"
      "\<forall>d\<in>set (request_directions query). \<forall>flow. request_flow query flow \<and> prefix_Contains network (remote_of d flow) \<longrightarrow>
         (\<exists>outcome\<in>?os. oc_Direction outcome = d \<and> flow_in outcome flow) \<and>
         (\<forall>outcome\<in>?os. oc_Direction outcome = d \<and> flow_in outcome flow \<longrightarrow>
            (oc_Verdict outcome = ''blocked'') = (oc_Action outcome \<noteq> Return))"
    using lookup_decides [OF n(1,2) snap(1) n(3) snap(2,3) refl n(4)] by blast
  have "query = lookup_request\<lparr>rq_Address := ''8.8.8.8/32''\<rparr>" using l(1) q(1) by simp
  moreover have "network = Prefix (IP4 0x08080808) 33" using l(2) q(2) calculation by simp
  ultimately obtain outcome where o: "outcome \<in> ?os" "flow_in outcome lookup_flow"
      "(oc_Verdict outcome = ''blocked'') = (oc_Action outcome \<noteq> Return)"
    using l(3) flow q(3) by (metis list.set_intros(1))
  have "oc_Verdict outcome \<in> set (map oc_Verdict (rs_Outcomes (Evaluate False (Some s) no_leases lookup_request 5 0)))"
    using o(1) by simp
  then have "oc_Action outcome \<noteq> Return" using o(3) unfolding n(5) by simp
  then have "\<exists>outcome\<in>?os. flow_in outcome lookup_flow \<and> oc_Action outcome \<noteq> Return" using o(1,2) by (intro bexI [of _ outcome]) simp_all
  then show ?thesis by (intro exI conjI) (rule n(1-3,5) | assumption)+
qed

end
