(* ===== verification/Spec2Isabelle.thy ===== *)
theory Spec2Isabelle
  imports Prefix_Range Config_Compile Source_Records Firewall_Dynamic Nft_Compiled Lookup_Compiled
begin

text \<open>
  A model of perimeterd, a daemon that turns a configuration of geographic policies, global
  address lists and CrowdSec decisions into rules of the Linux packet filter, and answers
  operator queries about the rules it has applied. Paths below are relative to \<open>src/\<close>.

  \<^bold>\<open>The program.\<close> A YAML file is checked for its shape, decoded and normalized
  (\<open>internal/config\<close>). The selectors of its policies (countries, registries, address lists) are
  resolved to prefixes by the sources (\<open>internal/source\<close>). The compiler (\<open>internal/policy\<close>) turns
  the configuration and the resolved snapshot into one plan per address family: named prefix sets
  and, per direction, a list of rules of which the first match decides. The firewall backends
  (\<open>internal/firewall\<close>) check the plans as part of a target and lower them to native rules.
  CrowdSec decisions (\<open>internal/crowdsec\<close>) are kept in a store, projected to disjoint prefixes
  with deadlines and leased to the dynamic set of the target. Lookups (\<open>internal/lookup\<close>)
  evaluate a query against the applied configuration, target and leases. All of them compute
  with the prefix sets of \<open>internal/prefix\<close>.

  \<^bold>\<open>Go.\<close> \<open>Prelude\<close> holds the language and library parts that every component uses: binary
  search, sorting, comparison functions, maps as association lists, results with errors.
  \<open>Netip\<close>, \<open>Netip_Text\<close> and \<open>Netip_Print\<close> model \<open>net/netip\<close>: addresses at their machine width,
  prefixes, parsing and printing. \<open>Go_Heap\<close> models \<open>container/heap\<close>.

  \<^bold>\<open>Theories and sources.\<close>
  \<^item> \<open>Prefix_Set\<close>: \<open>internal/prefix/set.go\<close>. The Go struct is the record \<open>prefix_set\<close>; \<open>set_ok\<close> is
    its invariant and \<open>member\<close> the addresses it stands for. Every operation keeps the invariant
    and computes the intended set, and the binary search agrees with a scan. The contract that
    clients use is the locale \<open>address_sets\<close>.
  \<^item> \<open>Prefix_Range\<close>: \<open>internal/prefix/range.go\<close>. The cover of an address range is exact and minimal,
    and the loops return for all arguments.
  \<^item> \<open>Catalog\<close>: \<open>internal/config/catalog/catalog.go\<close>, with all its tables.
  \<^item> \<open>Config\<close>, \<open>Config_Shape\<close>, \<open>Config_Raw\<close>, \<open>Config_Traffic\<close>, \<open>Config_CSV\<close>, \<open>Config_Normalize\<close>:
    \<open>config.go\<close>, \<open>parse.go\<close>, \<open>normalize.go\<close> and \<open>csv.go\<close> of \<open>internal/config\<close>. The shape checks are
    equivalent to a declared schema, normalized port ranges are separated and cover the ports
    they are given, CSV options survive their text form, and every accepted configuration is
    well formed.
  \<^item> \<open>Policy_Snapshot\<close>, \<open>Policy_Model\<close>, \<open>Geo_Classifier\<close>, \<open>Geo_Sets\<close>, \<open>Policy_Compile\<close>: \<open>snapshot.go\<close>,
    \<open>model.go\<close>, \<open>classifier.go\<close>, \<open>geo_sets.go\<close> and \<open>compile.go\<close> of \<open>internal/policy\<close>. \<open>evaluate\<close> is the
    documented meaning of a plan for one packet, and \<open>decide\<close> a direct reading of the
    configuration; compiled plans evaluate to what the configuration decides.
  \<^item> \<open>Config_Compile\<close> joins the two: an accepted configuration compiles whenever its selectors
    resolve to something, and its rules never deny the built-in local ranges.
  \<^item> \<open>Source_Records\<close>: the records, identities and validity checks of \<open>internal/source\<close> and the
    transport bindings of \<open>internal/upstream/binding.go\<close>.
  \<^item> \<open>Crowdsec_Store\<close>, \<open>Crowdsec_Projection\<close>: \<open>store.go\<close> and \<open>projection.go\<close> of \<open>internal/crowdsec\<close>, and
    \<open>internal/policy/timed.go\<close>. The store is a state machine whose reachable states are well
    formed; the projection bans exactly the addresses of the live decisions, each until the
    latest deadline, and its heap, its two-word arithmetic and its block decomposition are those
    of the code.
  \<^item> \<open>Firewall_Dynamic\<close>: \<open>internal/firewall/dynamic.go\<close>, leases and the check of a projection, which
    every projection of a well-formed store passes.
  \<^item> \<open>Firewall_Target\<close>, \<open>Firewall_Validate\<close>: the targets and checks of \<open>internal/firewall/types.go\<close>,
    the native names of \<open>nftables_model.go\<close> and \<open>iptables_model.go\<close>, and \<open>BuildTarget\<close>.
  \<^item> \<open>Packet_Filter\<close>, \<open>Nft_Rules\<close>, \<open>Nft_Compiled\<close>: the rules that \<open>nftables_model.go\<close> writes for the
    chains of a target, and a packet that walks through them. The locale \<open>rule_lowering\<close> is what
    a backend promises for a logical rule; with it the native rules give every packet the
    verdict, reject type and counters that the configuration prescribes.
  \<^item> \<open>Lookup_Request\<close>, \<open>Lookup_Static\<close>, \<open>Lookup_Partition\<close>, \<open>Lookup_Attribution\<close>, \<open>Lookup_Evaluate\<close>:
    \<open>request.go\<close>, \<open>types.go\<close>, \<open>static.go\<close>, \<open>attribution.go\<close> and \<open>evaluate.go\<close> of \<open>internal/lookup\<close>.
    \<open>Lookup_Sound\<close> shows that evaluating one representative of each part of a query is exact, and
    \<open>Lookup_Compiled\<close> that a lookup reports what the accepted configuration prescribes.

  \<^bold>\<open>State and errors.\<close> A Go struct is a record whose fields carry the initials of the struct, a
  string enumeration is a datatype where the program only compares its values, and an error is
  the left side of a sum or, for a check, a value of an option. Methods that change a value
  return the new one together with their error. Integers keep their width where the code can
  reach its end: addresses, ports, revisions, sequences, epochs. Instants are nanosecond counts
  with 0 for the zero time. Cloning a slice has no effect, since values are immutable.

  \<^bold>\<open>Arguments of the model.\<close> SHA-256, YAML decoding, URL and duration handling and the printing
  and parsing of floating-point numbers are arguments of the definitions that call them. Only
  the round trip of CSV options needs a law of them, the documented one between
  \<open>strconv.FormatFloat\<close> and \<open>strconv.ParseFloat\<close>. A context is the flag whether it is cancelled.
  The walk of a packet reads the generated JSON as \<open>nft\<close> documents it: a match on a field that
  the packet does not have fails, in either sense.

  \<^bold>\<open>Termination.\<close> Every recursive function has a termination proof, apart from the two loops of
  \<open>internal/prefix/range.go\<close>, which are partial functions that are shown to return. There is no
  fuel. The walk of a packet bounds the nesting of chain calls, and two levels are shown to
  suffice for the chains of a target.

  \<^bold>\<open>Not modelled.\<close> Reading the kernel inventory and the incremental batches of
  \<open>internal/firewall/nftables.go\<close> (the rules are those of a table that is built from nothing), the
  rules and codecs of the iptables backend, capacity estimates and counter retirement;
  the state store and the engine of \<open>internal/state\<close> and \<open>internal/app\<close>, whose work is files, locks
  and transactions over native changes; downloads, retries and the cache files of
  \<open>internal/source\<close>; the CrowdSec stream client; the HTTP and Unix socket endpoints of
  \<open>internal/lookup\<close> and \<open>internal/control\<close>; TLS and OpenZiti transports; metrics and the command line.
\<close>

end
